(* ===== verification/Prelude.thy ===== *)
theory Prelude
  imports
    Main
    "HOL-Library.Multiset"
    "HOL-Library.Char_ord"
    "HOL-Library.List_Lexorder"
    "HOL-Library.Product_Lexorder"
begin

text \<open>
  Shared vocabulary of the development: the named collections the component theories fill,
  the small operations on Python containers that several components use (a default lookup in a
  dictionary, an insertion-ordered dictionary, a binary heap used as a priority queue), and the
  generic lemmas on lists, maps and stable sorting they share.

  A Python \<open>str\<close> is a \<^typ>\<open>string\<close>; its order is the lexicographic order of the code points, as in
  Python. A \<open>dict\<close> whose order is never observed is a map \<open>'k \<rightharpoonup> 'v\<close>; one whose insertion order
  matters is an association list with distinct keys, updated by \<open>od_set\<close>.
\<close>

subsection \<open>Collections\<close>

named_theorems inv_intros \<open>operations preserve the invariant of their component\<close>
named_theorems frame_simps \<open>fields and keys an operation leaves alone\<close>

subsection \<open>Dictionaries\<close>

definition get_default :: "('k \<rightharpoonup> 'v) \<Rightarrow> 'k \<Rightarrow> 'v \<Rightarrow> 'v" where
  "get_default m k d = (case m k of None \<Rightarrow> d | Some v \<Rightarrow> v)"

lemma get_default_upd [simp]:
  "get_default (m(k' \<mapsto> v)) k d = (if k = k' then v else get_default m k d)"
  by (simp add: get_default_def)

lemma get_default_empty [simp]: "get_default Map.empty k d = d"
  by (simp add: get_default_def)

lemma get_default_simps [simp]:
  "m k = None \<Longrightarrow> get_default m k d = d"
  "m k = Some v \<Longrightarrow> get_default m k d = v"
  by (simp_all add: get_default_def)

text \<open>An insertion-ordered dictionary: assignment keeps the position of an existing key.\<close>

type_synonym ('k, 'v) odict = "('k \<times> 'v) list"

abbreviation od_get :: "('k, 'v) odict \<Rightarrow> 'k \<Rightarrow> 'v option" where
  "od_get \<equiv> map_of"

fun od_set :: "('k, 'v) odict \<Rightarrow> 'k \<Rightarrow> 'v \<Rightarrow> ('k, 'v) odict" where
  "od_set [] k v = [(k, v)]"
| "od_set ((k', v') # d) k v = (if k' = k then (k, v) # d else (k', v') # od_set d k v)"

definition od_del :: "('k, 'v) odict \<Rightarrow> 'k \<Rightarrow> ('k, 'v) odict" where
  "od_del d k = filter (\<lambda>e. fst e \<noteq> k) d"

abbreviation od_wf :: "('k, 'v) odict \<Rightarrow> bool" where
  "od_wf d \<equiv> distinct (map fst d)"

lemma od_get_set [simp]: "od_get (od_set d k v) = (od_get d)(k \<mapsto> v)"
  by (induction d k v rule: od_set.induct) auto

lemma od_keys_set [simp]: "set (map fst (od_set d k v)) = insert k (set (map fst d))"
  by (induction d k v rule: od_set.induct) auto

lemma od_wf_set [simp]: "od_wf d \<Longrightarrow> od_wf (od_set d k v)"
proof (induction d k v rule: od_set.induct)
  case (2 k' v' d k v)
  have "fst ` set (od_set d k v) = insert k (fst ` set d)"
    using od_keys_set [of d k v] by simp
  with 2 show ?case by auto
qed simp

lemma od_del_Nil [simp]: "od_del [] k = []"
  by (simp add: od_del_def)

lemma od_get_del [simp]: "od_get (od_del d k) = (od_get d)(k := None)"
  by (induction d) (auto simp: od_del_def)

lemma od_wf_del [simp]: "od_wf d \<Longrightarrow> od_wf (od_del d k)"
  by (induction d) (auto simp: od_del_def)

lemma length_od_set:
  "length (od_set d k v) = (if k \<in> fst ` set d then length d else Suc (length d))"
  by (induction d k v rule: od_set.induct) auto

lemma length_od_del_le [simp]: "length (od_del d k) \<le> length d"
  by (simp add: od_del_def)

lemma od_set_fresh: "k \<notin> fst ` set d \<Longrightarrow> od_set d k v = d @ [(k, v)]"
  by (induction d k v rule: od_set.induct) auto

subsection \<open>A priority queue of tuples\<close>

text \<open>
  Python's \<open>heapq\<close> on a list of tuples is used through three operations only: read the least
  element, pop it, push one. The list sorted by the lexicographic order of the tuples gives the
  same answers.
\<close>

abbreviation heap_push :: "'a::linorder \<Rightarrow> 'a list \<Rightarrow> 'a list" where
  "heap_push \<equiv> insort"

lemma set_heap_push [simp]: "set (heap_push x h) = insert x (set h)"
  by (rule set_insort_key)

subsection \<open>Time-ordered lists\<close>

abbreviation time_sorted :: "(int \<times> 'a) list \<Rightarrow> bool" where
  "time_sorted w \<equiv> sorted (map fst w)"

lemma dropWhile_time_sorted:
  "time_sorted w \<Longrightarrow> dropWhile (\<lambda>e. fst e < (h::int)) w = filter (\<lambda>e. h \<le> fst e) w"
proof (induction w)
  case (Cons e w)
  show ?case
  proof (cases "fst e < h")
    case False
    with Cons.prems have "\<forall>x\<in>set w. h \<le> fst x" by fastforce
    with False show ?thesis by simp
  qed (use Cons in simp)
qed simp

lemma time_sorted_filter: "time_sorted w \<Longrightarrow> time_sorted (filter P w)"
  by (rule sorted_filter)

lemma sorted_le_last: "sorted xs \<Longrightarrow> x \<in> set xs \<Longrightarrow> x \<le> last (xs :: int list)"
  by (induction xs) auto

lemma time_sorted_snoc:
  assumes "time_sorted w" "w \<noteq> [] \<Longrightarrow> fst (last w) \<le> t"
  shows "time_sorted (w @ [(t, x)])"
proof -
  have "y \<le> t" if "y \<in> set (map fst w)" for y
    using sorted_le_last [OF assms(1) that] assms(2) that
    by (cases "w = []") (auto simp: last_map)
  with assms(1) show ?thesis by (simp add: sorted_append)
qed

lemma sort_by_time [simp]:
  "time_sorted (sort_key fst w)" "mset (sort_key f xs) = mset xs" "set (sort_key f xs) = set xs"
  "length (sort_key f xs) = length xs" "sort_key f xs = [] \<longleftrightarrow> xs = []"
  by (simp_all flip: set_mset_mset length_0_conv)

lemma filter_mset_all: "\<forall>x\<in>#M. P x \<Longrightarrow> filter_mset P M = M"
  by (induction M) auto

subsection \<open>Sorted dictionaries\<close>

abbreviation sorted_set :: "'a::linorder list \<Rightarrow> 'a list" where
  "sorted_set xs \<equiv> sort (remdups xs)"

lemma sort_keys_eq:
  fixes xs ys :: "('k::linorder \<times> 'v) list"
  assumes "od_wf xs" "od_wf ys" "fst ` set xs = fst ` set ys"
  shows "map fst (sort_key fst xs) = map fst (sort_key fst ys)"
proof -
  have d: "distinct (map fst (sort_key fst zs)) = od_wf zs" for zs :: "('k \<times> 'v) list"
    by (metis mset_eq_imp_distinct_iff mset_map mset_sort)
  show ?thesis
  proof (rule sorted_distinct_set_unique)
    show "distinct (map fst (sort_key fst xs))" using d [of xs] assms by blast
    show "distinct (map fst (sort_key fst ys))" using d [of ys] assms by blast
  qed (use assms in simp_all)
qed

lemma od_get_sort_key: "od_wf xs \<Longrightarrow> od_get (sort_key fst xs) = od_get xs"
  by (metis map_of_eqI map_of_inject_set mset_eq_imp_distinct_iff mset_map mset_sort set_sort)

text \<open>The items of a dictionary in the order of their keys depend on what it holds only.\<close>

lemma sorted_items_eq:
  fixes xs ys :: "('k::linorder \<times> 'v) list"
  assumes "od_wf xs" "od_wf ys" "od_get xs = od_get ys"
  shows "sort_key fst xs = sort_key fst ys"
proof -
  have wf: "od_wf (sort_key fst zs) = od_wf zs" for zs :: "('k \<times> 'v) list"
    by (metis mset_eq_imp_distinct_iff mset_map mset_sort)
  have items: "sort_key fst zs = map (\<lambda>k. (k, the (od_get zs k))) (map fst (sort_key fst zs))"
    if "od_wf zs" for zs :: "('k \<times> 'v) list"
  proof -
    have "map (\<lambda>e. (fst e, the (od_get zs (fst e)))) (sort_key fst zs) = sort_key fst zs"
      using that by (intro map_idI) auto
    then show ?thesis by (simp add: comp_def)
  qed
  have "fst ` set xs = fst ` set ys" using assms(3) by (metis dom_map_of_conv_image_fst)
  from sort_keys_eq [OF assms(1,2) this] items [OF assms(1)] items [OF assms(2)] assms(3)
  show ?thesis by metis
qed

text \<open>The dictionary that keeps, for every key, the least of the values given for it by a rank.\<close>

fun keep_least :: "('v \<Rightarrow> 'r::linorder) \<Rightarrow> ('k \<times> 'v) list \<Rightarrow> ('k, 'v) odict \<Rightarrow> ('k, 'v) odict" where
  "keep_least rank [] best = best"
| "keep_least rank ((k, v) # es) best =
     keep_least rank es
       (case od_get best k of
          None \<Rightarrow> od_set best k v
        | Some w \<Rightarrow> if rank v < rank w then od_set best k v else best)"

definition least_in :: "('v \<Rightarrow> 'r::linorder) \<Rightarrow> ('k \<times> 'v) set \<Rightarrow> ('k, 'v) odict \<Rightarrow> bool" where
  "least_in rank E best \<longleftrightarrow> od_wf best \<and>
     (\<forall>k. (od_get best k = None \<longleftrightarrow> (\<forall>v. (k, v) \<notin> E)) \<and>
          (\<forall>v. od_get best k = Some v \<longrightarrow> (k, v) \<in> E \<and> (\<forall>w. (k, w) \<in> E \<longrightarrow> rank v \<le> rank w)))"

lemma keep_least_in:
  "least_in rank E best \<Longrightarrow> least_in rank (E \<union> set es) (keep_least rank es best)"
proof (induction rank es best arbitrary: E rule: keep_least.induct)
  case (2 rank k v es best)
  let ?best = "case od_get best k of
                 None \<Rightarrow> od_set best k v
               | Some w \<Rightarrow> if rank v < rank w then od_set best k v else best"
  have wf: "od_wf best" and E: "\<And>k. (od_get best k = None \<longleftrightarrow> (\<forall>v. (k, v) \<notin> E)) \<and>
       (\<forall>v. od_get best k = Some v \<longrightarrow> (k, v) \<in> E \<and> (\<forall>w. (k, w) \<in> E \<longrightarrow> rank v \<le> rank w))"
    using "2.prems" unfolding least_in_def by blast+
  have "od_wf ?best" using wf by (auto split: option.split)
  moreover have "(od_get ?best j = None \<longleftrightarrow> (\<forall>u. (j, u) \<notin> insert (k, v) E)) \<and>
      (\<forall>u. od_get ?best j = Some u \<longrightarrow>
         (j, u) \<in> insert (k, v) E \<and> (\<forall>w. (j, w) \<in> insert (k, v) E \<longrightarrow> rank u \<le> rank w))" for j
  proof (cases "j = k")
    case True
    show ?thesis
    proof (cases "od_get best k")
      case None
      with E [of k] True show ?thesis by simp
    next
      case (Some w)
      with E [of k] have "(k, w) \<in> E" "\<forall>u. (k, u) \<in> E \<longrightarrow> rank w \<le> rank u" by blast+
      with Some True show ?thesis by (auto simp del: map_of_eq_Some_iff intro: order_trans less_imp_le)
    qed
  next
    case False
    then have "od_get ?best j = od_get best j" by (auto split: option.split)
    with E [of j] False show ?thesis by auto
  qed
  ultimately have "least_in rank (insert (k, v) E) ?best" unfolding least_in_def by blast
  from "2.IH" [OF this] show ?case by simp
qed simp

lemma keep_least_spec: "least_in rank (set es) (keep_least rank es [])"
  using keep_least_in [of rank "{}" "[]" es] by (simp add: least_in_def)

text \<open>Where ranks tell the values of one key apart, the order of the values does not matter.\<close>

lemma keep_least_cong:
  fixes es fs :: "('k::linorder \<times> 'v) list"
  assumes "set es = set fs"
    and "\<And>k v w. (k, v) \<in> set es \<Longrightarrow> (k, w) \<in> set es \<Longrightarrow> rank v = rank w \<Longrightarrow> v = w"
  shows "sort_key fst (keep_least rank es []) = sort_key fst (keep_least rank fs [])"
proof -
  note E = keep_least_spec [of rank es] and F = keep_least_spec [of rank fs, folded assms(1)]
  have "od_get (keep_least rank es []) k = od_get (keep_least rank fs []) k" for k
  proof (cases "od_get (keep_least rank es []) k")
    case None
    with E F show ?thesis unfolding least_in_def by metis
  next
    case (Some v)
    then have v: "(k, v) \<in> set es" "\<And>w. (k, w) \<in> set es \<Longrightarrow> rank v \<le> rank w"
      using E unfolding least_in_def by blast+
    then obtain w where w: "od_get (keep_least rank fs []) k = Some w"
      using F unfolding least_in_def by (metis not_None_eq)
    then have "(k, w) \<in> set es" "rank w \<le> rank v" using F v(1) unfolding least_in_def by blast+
    with v assms(2) have "v = w" by (metis order_antisym)
    with Some w show ?thesis by simp
  qed
  then show ?thesis using E F by (intro sorted_items_eq ext) (simp_all add: least_in_def)
qed

end
