(* ===== verification/Window.thy ===== *)
theory Window
  imports Prelude Complex_Main
begin

text \<open>
  The in-process sliding-window counter of \<open>src/services/shared/window.py\<close>
  (\<open>DequeWindowCounter\<close>). A window is the deque of its (time, member) entries, oldest first; the
  mirror \<open>_live_members\<close> maps each named member to its current time; \<open>_last\<close>, \<open>_exp\<close> and the
  heap of deadlines drive the sweep of idle keys, which runs every 256 hits.

  The contract is that of the Redis sorted set the code wants to match: a call drops what lies
  before its own horizon, replaces the entry of a member it already holds, adds its own entry and
  answers with the number of entries (\<open>recorded\<close> below, over multisets). It is stated as the
  locale \<open>sliding_window\<close> and interpreted on the deque implementation.
\<close>

subsection \<open>State\<close>

type_synonym 'm entry = "int \<times> 'm option"

record 'm deque_counter =
  dc_w :: "string \<rightharpoonup> 'm entry list"
  dc_dw :: "string \<rightharpoonup> 'm entry list"
  dc_live :: "string \<rightharpoonup> ('m \<rightharpoonup> int)"
  dc_last :: "string \<rightharpoonup> int"
  dc_exp :: "string \<rightharpoonup> int"
  dc_heap :: "(int \<times> string) list"
  dc_hits :: nat

definition new_counter :: "'m deque_counter" where
  "new_counter = \<lparr>dc_w = Map.empty, dc_dw = Map.empty, dc_live = Map.empty, dc_last = Map.empty,
     dc_exp = Map.empty, dc_heap = [], dc_hits = 0\<rparr>"

definition sweep_every :: nat where
  "sweep_every = 256"

subsection \<open>Operations on one window\<close>

fun evict :: "int \<Rightarrow> 'm entry list \<Rightarrow> ('m \<rightharpoonup> int) \<Rightarrow> 'm entry list \<times> ('m \<rightharpoonup> int)" where
  "evict horizon [] members = ([], members)"
| "evict horizon ((t, m) # w) members =
     (if t < horizon
      then evict horizon w (case m of None \<Rightarrow> members | Some x \<Rightarrow> members(x := None))
      else ((t, m) # w, members))"

fun set_first :: "'m option \<Rightarrow> int \<Rightarrow> 'm entry list \<Rightarrow> 'm entry list" where
  "set_first member now [] = []"
| "set_first member now ((t, m) # w) =
     (if m = member then (now, member) # w else (t, m) # set_first member now w)"

text \<open>A member already in the window at time \<open>t\<close>: its entry moves to \<open>now\<close>.\<close>

definition refresh_window ::
    "int \<Rightarrow> int \<Rightarrow> 'm \<Rightarrow> int \<Rightarrow> 'm entry list \<Rightarrow> ('m \<rightharpoonup> int) \<Rightarrow> 'm entry list \<times> ('m \<rightharpoonup> int)" where
  "refresh_window now horizon x t w members =
     (if t = now then (w, members)
      else evict horizon (sort_key fst (set_first (Some x) now w)) (members(x \<mapsto> now)))"

text \<open>A new entry: appended, or sorted into place when it arrives late.\<close>

definition insert_window ::
    "int \<Rightarrow> int \<Rightarrow> 'm option \<Rightarrow> 'm entry list \<Rightarrow> ('m \<rightharpoonup> int) \<Rightarrow> 'm entry list \<times> ('m \<rightharpoonup> int)" where
  "insert_window now horizon member w members =
     (let members' = (case member of None \<Rightarrow> members | Some x \<Rightarrow> members(x \<mapsto> now))
      in if w \<noteq> [] \<and> now < fst (last w)
         then evict horizon (sort_key fst (w @ [(now, member)])) members'
         else (w @ [(now, member)], members'))"

definition hit_window ::
    "int \<Rightarrow> int \<Rightarrow> 'm option \<Rightarrow> 'm entry list \<Rightarrow> ('m \<rightharpoonup> int) \<Rightarrow> 'm entry list \<times> ('m \<rightharpoonup> int)" where
  "hit_window now horizon member w\<^sub>0 members\<^sub>0 =
     (let (w, members) = evict horizon w\<^sub>0 members\<^sub>0
      in case member of
           None \<Rightarrow> insert_window now horizon None w members
         | Some x \<Rightarrow> (case members x of
               Some t \<Rightarrow> refresh_window now horizon x t w members
             | None \<Rightarrow> insert_window now horizon (Some x) w members))"

definition add_sorted :: "int \<Rightarrow> 'm option \<Rightarrow> 'm entry list \<Rightarrow> 'm entry list" where
  "add_sorted now value w =
     (if w \<noteq> [] \<and> now < fst (last w) then sort_key fst (w @ [(now, value)]) else w @ [(now, value)])"

text \<open>The dictionary comprehension \<open>{v: t for t, v in w}\<close>, in insertion order.\<close>

definition latest_of :: "'m entry list \<Rightarrow> ('m option, int) odict" where
  "latest_of w = fold (\<lambda>(t, v) d. od_set d v t) w []"

definition compact :: "'m entry list \<Rightarrow> ('m option, int) odict \<Rightarrow> 'm entry list" where
  "compact w latest =
     (if length w > 2 * length latest + 64
      then sort_key fst (map (\<lambda>(v, t). (t, v)) latest) else w)"

subsection \<open>The counter\<close>

definition touch :: "'m deque_counter \<Rightarrow> string \<Rightarrow> int \<Rightarrow> int \<Rightarrow> 'm deque_counter" where
  "touch c key now window =
     (let last' = (case dc_last c key of None \<Rightarrow> now | Some l \<Rightarrow> if now > l then now else l);
          deadline = last' + window
      in c\<lparr>dc_last := (dc_last c)(key \<mapsto> last'),
           dc_exp := (dc_exp c)(key \<mapsto> deadline),
           dc_heap := (case dc_exp c key of
                         None \<Rightarrow> heap_push (deadline, key) (dc_heap c)
                       | Some prev \<Rightarrow> if deadline < prev then heap_push (deadline, key) (dc_heap c)
                                      else dc_heap c)\<rparr>)"

definition forget :: "'m deque_counter \<Rightarrow> string \<Rightarrow> 'm deque_counter" where
  "forget c key = c\<lparr>dc_w := (dc_w c)(key := None), dc_dw := (dc_dw c)(key := None),
     dc_live := (dc_live c)(key := None), dc_last := (dc_last c)(key := None),
     dc_exp := (dc_exp c)(key := None)\<rparr>"

text \<open>The loop of \<open>_sweep\<close>: every round removes an entry below \<open>now\<close> and pushes none below it.\<close>

abbreviation due :: "int \<Rightarrow> (int \<times> string) list \<Rightarrow> nat" where
  "due now heap \<equiv> length (filter (\<lambda>e. fst e < now) heap)"

lemma due_heap_push: "due now (heap_push x h) = (if fst x < now then 1 else 0) + due now h"
  by (induction h) auto

function sweep_loop :: "int \<Rightarrow> 'm deque_counter \<Rightarrow> 'm deque_counter" where
  "sweep_loop now c =
     (case dc_heap c of
        [] \<Rightarrow> c
      | (deadline, k) # heap \<Rightarrow>
          if deadline < now then
            (let c' = c\<lparr>dc_heap := heap\<rparr>
             in case dc_exp c' k of
                  None \<Rightarrow> sweep_loop now c'
                | Some cur \<Rightarrow>
                    if cur < now then sweep_loop now (forget c' k)
                    else sweep_loop now (c'\<lparr>dc_heap := heap_push (cur, k) heap\<rparr>))
          else c)"
  by pat_completeness auto
termination
  by (relation "measure (\<lambda>(now, c). due now (dc_heap c))")
     (auto simp: forget_def due_heap_push)

declare sweep_loop.simps [simp del]

definition sweep :: "'m deque_counter \<Rightarrow> int \<Rightarrow> 'm deque_counter" where
  "sweep c now =
     (let c' = c\<lparr>dc_hits := Suc (dc_hits c)\<rparr>
      in if dc_hits c' mod sweep_every \<noteq> 0 then c' else sweep_loop now c')"

definition hit :: "'m deque_counter \<Rightarrow> string \<Rightarrow> int \<Rightarrow> int \<Rightarrow> 'm option \<Rightarrow> nat \<times> 'm deque_counter" where
  "hit c key now window member =
     (let (w, members) = hit_window now (now - window) member
                           (get_default (dc_w c) key []) (get_default (dc_live c) key Map.empty);
          c1 = touch (c\<lparr>dc_w := (dc_w c)(key \<mapsto> w), dc_live := (dc_live c)(key \<mapsto> members)\<rparr>)
                 key now window;
          c2 = (if w = []
                then c1\<lparr>dc_w := (dc_w c1)(key := None), dc_live := (dc_live c1)(key := None),
                        dc_last := (dc_last c1)(key := None), dc_exp := (dc_exp c1)(key := None)\<rparr>
                else c1)
      in (length w, sweep c2 now))"

definition hit_distinct ::
    "'m deque_counter \<Rightarrow> string \<Rightarrow> int \<Rightarrow> int \<Rightarrow> 'm option \<Rightarrow> nat \<times> 'm deque_counter" where
  "hit_distinct c key now window value =
     (let w = add_sorted now value (get_default (dc_dw c) key []);
          w = dropWhile (\<lambda>e. fst e < now - window) w;
          latest = latest_of w;
          count = length latest;
          w = compact w latest;
          c1 = touch (c\<lparr>dc_dw := (dc_dw c)(key \<mapsto> w)\<rparr>) key now window;
          c2 = (if w = []
                then c1\<lparr>dc_dw := (dc_dw c1)(key := None), dc_last := (dc_last c1)(key := None),
                        dc_exp := (dc_exp c1)(key := None)\<rparr>
                else c1)
      in (count, sweep c2 now))"

text \<open>
  Building the dictionary of values raises TypeError on a value Python cannot hash (a list or a
  dictionary). The deque already holds the new entry by then, and nothing after it runs.
\<close>

definition hit_distinct_checked ::
    "('m \<Rightarrow> bool) \<Rightarrow> 'm deque_counter \<Rightarrow> string \<Rightarrow> int \<Rightarrow> int \<Rightarrow> 'm option \<Rightarrow>
     nat option \<times> 'm deque_counter" where
  "hit_distinct_checked hashable c key now window value =
     (let w = dropWhile (\<lambda>e. fst e < now - window) (add_sorted now value (get_default (dc_dw c) key []))
      in if \<exists>e\<in>set w. case snd e of None \<Rightarrow> False | Some v \<Rightarrow> \<not> hashable v
         then (None, c\<lparr>dc_dw := (dc_dw c)(key \<mapsto> w)\<rparr>)
         else (let (n, c') = hit_distinct c key now window value in (Some n, c')))"

text \<open>
  The coefficient of variation, over the reals: Python computes it in binary floating point, and
  the rounding of that arithmetic is not modelled.
\<close>

definition coefficient_of_variation :: "int list \<Rightarrow> real option" where
  "coefficient_of_variation ts =
     (if length ts < 3 then None
      else let deltas = map (\<lambda>(a, b). real_of_int (b - a)) (zip ts (tl ts));
               mean = sum_list deltas / real (length deltas)
           in if mean \<le> 0 then None
              else let variance = sum_list (map (\<lambda>d. (d - mean)\<^sup>2) deltas) / real (length deltas)
                   in Some (sqrt variance / mean))"

definition hit_periodic ::
    "'m deque_counter \<Rightarrow> string \<Rightarrow> int \<Rightarrow> int \<Rightarrow> 'm option \<Rightarrow> (nat \<times> real option) \<times> 'm deque_counter" where
  "hit_periodic c key now window member =
     (let (count, c') = hit c key now window member
      in ((count, coefficient_of_variation (sort (map fst (get_default (dc_w c') key [])))), c'))"

definition members :: "'m deque_counter \<Rightarrow> string \<Rightarrow> 'm list" where
  "members c key = map the (filter (\<lambda>m. m \<noteq> None) (map snd (get_default (dc_w c) key [])))"

definition distinct_members :: "'m deque_counter \<Rightarrow> string \<Rightarrow> 'm list" where
  "distinct_members c key =
     fold (\<lambda>e seen. case snd e of None \<Rightarrow> seen
                    | Some v \<Rightarrow> if v \<in> set seen then seen else seen @ [v])
       (get_default (dc_dw c) key []) []"

text \<open>A slice \<open>full[:cap]\<close> with a negative bound drops from the end.\<close>

definition members_capped :: "'m deque_counter \<Rightarrow> string \<Rightarrow> int \<Rightarrow> bool \<Rightarrow> 'm list \<times> int" where
  "members_capped c key cap per_value =
     (let full = (if per_value then distinct_members c key else members c key)
      in (take (nat (if cap < 0 then int (length full) + cap else cap)) full,
          max 0 (int (length full) - cap)))"


subsection \<open>One window: the invariant and the effect on the multiset of entries\<close>

text \<open>
  A window is well formed against its mirror when it is in time order, holds each named member at
  most once, and the mirror maps exactly the named ms to their times.
\<close>

definition named :: "'m entry list \<Rightarrow> 'm list" where
  "named w = map (the \<circ> snd) (filter (\<lambda>e. snd e \<noteq> None) w)"

definition win_ok :: "'m entry list \<Rightarrow> ('m \<rightharpoonup> int) \<Rightarrow> bool" where
  "win_ok w ms \<longleftrightarrow>
     time_sorted w \<and> distinct (named w) \<and> (\<forall>x t. ms x = Some t \<longleftrightarrow> (t, Some x) \<in> set w)"

text \<open>What recording a member at \<open>now\<close> does to the multiset of entries.\<close>

definition others :: "int \<Rightarrow> 'm option \<Rightarrow> 'm entry \<Rightarrow> bool" where
  "others horizon member e \<longleftrightarrow> horizon \<le> fst e \<and> (member = None \<or> snd e \<noteq> member)"

definition recorded :: "int \<Rightarrow> int \<Rightarrow> 'm option \<Rightarrow> 'm entry multiset \<Rightarrow> 'm entry multiset" where
  "recorded now window member W = add_mset (now, member) (filter_mset (others (now - window) member) W)"

lemma set_named: "set (named w) = {x. \<exists>t. (t, Some x) \<in> set w}"
  by (force simp: named_def)

lemma named_simps [simp]:
  "named [] = []" "named ((t, None) # w) = named w" "named ((t, Some x) # w) = x # named w"
  "named (v @ w) = named v @ named w"
  by (simp_all add: named_def)

lemma mset_named: "mset (named w) = image_mset (the \<circ> snd) (filter_mset (\<lambda>e. snd e \<noteq> None) (mset w))"
  by (simp add: named_def)

lemma distinct_named_cong: "mset v = mset w \<Longrightarrow> distinct (named v) = distinct (named w)"
  by (rule mset_eq_imp_distinct_iff) (simp add: mset_named)

lemma distinct_named_unique:
  "distinct (named w) \<Longrightarrow> (t, Some x) \<in> set w \<Longrightarrow> (t', Some x) \<in> set w \<Longrightarrow> t = t'"
proof (induction w)
  case (Cons e w)
  obtain s m where e: "e = (s, m)" by (cases e)
  have *: "\<forall>t. (t, Some y) \<in> set w \<longrightarrow> y \<in> set (named w)" for y by (auto simp: set_named)
  show ?case using Cons e * by (cases m) auto
qed simp

lemma named_cong_set: "mset v = mset w \<Longrightarrow> set v = set w"
  by (metis set_mset_mset)

text \<open>Eviction keeps the entries from the horizon on, and the mirror exact.\<close>

lemma win_ok_Cons:
  assumes "win_ok ((t, m) # w) ms"
  shows "win_ok w (case m of None \<Rightarrow> ms | Some x \<Rightarrow> ms(x := None))"
proof (cases m)
  case None
  with assms show ?thesis by (auto simp: win_ok_def)
next
  case (Some x)
  with assms have "x \<notin> set (named w)" by (simp add: win_ok_def)
  then have "(s, Some x) \<notin> set w" for s by (auto simp: set_named)
  with assms Some show ?thesis by (auto simp: win_ok_def)
qed

lemma evict_fst: "fst (evict horizon w ms) = dropWhile (\<lambda>e. fst e < horizon) w"
  by (induction horizon w ms rule: evict.induct) auto

lemma evict_win_ok: "win_ok w ms \<Longrightarrow> win_ok (fst (evict h w ms)) (snd (evict h w ms))"
proof (induction h w ms rule: evict.induct)
  case (2 horizon t m w ms)
  then show ?case using win_ok_Cons [OF "2.prems"] by simp
qed simp

lemma evict_filter:
  "time_sorted w \<Longrightarrow> fst (evict h w ms) = filter (\<lambda>e. h \<le> fst e) w"
  by (simp add: evict_fst dropWhile_time_sorted)

lemma filter_other_members:
  "x \<notin> set (named w) \<Longrightarrow> filter (\<lambda>e. snd e \<noteq> Some x) w = w"
  by (force simp: set_named filter_id_conv)

lemma mset_set_first:
  "distinct (named w) \<Longrightarrow> (t, Some x) \<in> set w \<Longrightarrow>
   mset (set_first (Some x) now w) =
     add_mset (now, Some x) (mset (filter (\<lambda>e. snd e \<noteq> Some x) w))"
proof (induction w)
  case (Cons e w)
  obtain s n where e: "e = (s, n)" by (cases e)
  show ?case
  proof (cases "n = Some x")
    case True
    with Cons.prems e show ?thesis by (simp add: filter_other_members)
  next
    case False
    with Cons.prems e have "distinct (named w)" "(t, Some x) \<in> set w" by (cases n; auto)+
    with Cons.IH False e show ?thesis by simp
  qed
qed simp

lemma distinct_named_filter: "distinct (named w) \<Longrightarrow> distinct (named (filter P w))"
proof (induction w)
  case (Cons e w)
  obtain s n where e: "e = (s, n)" by (cases e)
  from Cons e show ?case by (cases n) (auto simp: set_named)
qed simp

lemma recorded_eq:
  assumes "time_sorted w" "v = filter (\<lambda>e. now - window \<le> fst e) w"
  shows "recorded now window (Some x) (mset w) =
           add_mset (now, Some x) (mset (filter (\<lambda>e. snd e \<noteq> Some x) v))"
    and "member = None \<or> (\<forall>t. (t, member) \<notin> set v) \<Longrightarrow>
         recorded now window member (mset w) = add_mset (now, member) (mset v)"
proof -
  show "recorded now window (Some x) (mset w) =
           add_mset (now, Some x) (mset (filter (\<lambda>e. snd e \<noteq> Some x) v))"
    unfolding recorded_def assms(2) mset_filter filter_filter_mset
    by (auto simp: others_def conj_commute intro: filter_mset_cong)
next
  assume "member = None \<or> (\<forall>t. (t, member) \<notin> set v)"
  then have "filter_mset (others (now - window) member) (mset w) = mset v"
    unfolding assms(2) mset_filter by (intro filter_mset_cong) (auto simp: others_def)
  then show "recorded now window member (mset w) = add_mset (now, member) (mset v)"
    by (simp add: recorded_def)
qed

text \<open>The window a hit produces: sorted, exact, and the recorded multiset.\<close>

lemma win_ok_cong:
  "mset v = mset w \<Longrightarrow> time_sorted v \<Longrightarrow> win_ok w ms \<Longrightarrow> win_ok v ms"
  unfolding win_ok_def by (metis distinct_named_cong named_cong_set)

lemma evict_none: "\<forall>e\<in>set u. h \<le> fst e \<Longrightarrow> evict h u ms = (u, ms)"
  by (cases u) auto

lemma set_first_id: "distinct (named w) \<Longrightarrow> (now, Some x) \<in> set w \<Longrightarrow> set_first (Some x) now w = w"
proof (induction w)
  case (Cons e w)
  obtain s n where e: "e = (s, n)" by (cases e)
  show ?case
  proof (cases "n = Some x")
    case True
    with Cons.prems e have "s = now" by (auto simp: set_named)
    with True e show ?thesis by simp
  next
    case False
    with Cons.prems e have "distinct (named w)" "(now, Some x) \<in> set w" by (cases n; auto)+
    with Cons.IH False e show ?thesis by simp
  qed
qed simp

lemma refresh_window_spec:
  assumes ok: "win_ok v mv" and live: "mv x = Some t"
    and ge: "\<forall>e\<in>set v. horizon \<le> fst e" "horizon \<le> now"
    and res: "refresh_window now horizon x t v mv = (w', ms')"
  shows "win_ok w' ms'"
    and "mset w' = add_mset (now, Some x) (mset (filter (\<lambda>e. snd e \<noteq> Some x) v))"
proof -
  have dist: "distinct (named v)" and mirror: "\<And>x t. mv x = Some t \<longleftrightarrow> (t, Some x) \<in> set v"
    using ok by (auto simp: win_ok_def)
  then have in_v: "(t, Some x) \<in> set v" using live by simp
  note swap = mset_set_first [OF dist in_v, of now]
  have "win_ok w' ms' \<and>
      mset w' = add_mset (now, Some x) (mset (filter (\<lambda>e. snd e \<noteq> Some x) v))"
  proof (cases "t = now")
    case True
    with res ok swap set_first_id [OF dist, of now x] in_v show ?thesis
      by (auto simp: refresh_window_def)
  next
    case False
    let ?u = "sort_key fst (set_first (Some x) now v)"
    have u: "mset ?u = mset ((now, Some x) # filter (\<lambda>e. snd e \<noteq> Some x) v)" using swap by simp
    note u_set = named_cong_set [OF u]
    have "\<forall>e\<in>set ?u. horizon \<le> fst e" using u_set ge by auto
    then have w': "w' = ?u" "ms' = mv(x \<mapsto> now)"
      using res False by (auto simp: refresh_window_def evict_none)
    have "distinct (named ?u)"
      using distinct_named_cong [OF u] distinct_named_filter [OF dist] by (auto simp: set_named)
    then have "win_ok ?u (mv(x \<mapsto> now))" using u_set by (auto simp: win_ok_def mirror)
    with w' u show ?thesis by simp
  qed
  then show "win_ok w' ms'"
    and "mset w' = add_mset (now, Some x) (mset (filter (\<lambda>e. snd e \<noteq> Some x) v))" by auto
qed

lemma insert_window_spec:
  assumes ok: "win_ok v mv" and fresh: "\<forall>x. member = Some x \<longrightarrow> mv x = None"
    and ge: "\<forall>e\<in>set v. horizon \<le> fst e" "horizon \<le> now"
    and res: "insert_window now horizon member v mv = (w', ms')"
  shows "win_ok w' ms'" and "mset w' = add_mset (now, member) (mset v)"
proof -
  let ?mv = "case member of None \<Rightarrow> mv | Some x \<Rightarrow> mv(x \<mapsto> now)"
  have mirror: "\<And>x t. mv x = Some t \<longleftrightarrow> (t, Some x) \<in> set v" using ok by (simp add: win_ok_def)
  have w': "mset w' = mset ((now, member) # v) \<and> time_sorted w' \<and> ms' = ?mv"
  proof (cases "v \<noteq> [] \<and> now < fst (last v)")
    case True
    let ?u = "sort_key fst (v @ [(now, member)])"
    have "\<forall>e\<in>set ?u. horizon \<le> fst e" using ge by auto
    then have "w' = ?u" "ms' = ?mv" using res True by (auto simp: insert_window_def evict_none)
    then show ?thesis by simp
  next
    case False
    then have "w' = v @ [(now, member)]" "ms' = ?mv" using res by (auto simp: insert_window_def)
    with False ok time_sorted_snoc [of v now member] show ?thesis by (auto simp: win_ok_def)
  qed
  then show "mset w' = add_mset (now, member) (mset v)" by simp
  have "(t, Some x) \<notin> set v" if "member = Some x" for t x
    using fresh that mirror [of x t] by auto
  then show "win_ok w' ms'"
    using distinct_named_cong [of w' "(now, member) # v"] named_cong_set [of w' "(now, member) # v"]
      w' ok by (cases member) (auto simp: win_ok_def set_named)
qed

lemma hit_window_spec:
  assumes ok: "win_ok w ms" and window: "0 \<le> window"
    and res: "hit_window now (now - window) member w ms = (w', ms')"
  shows "win_ok w' ms'" and "mset w' = recorded now window member (mset w)"
proof -
  let ?h = "now - window"
  obtain v mv where ev: "evict ?h w ms = (v, mv)" by (cases "evict ?h w ms")
  have v: "win_ok v mv" using evict_win_ok [OF ok, of ?h] ev by simp
  have v_eq: "v = filter (\<lambda>e. ?h \<le> fst e) w"
    using evict_filter [of w ?h ms] ok ev by (simp add: win_ok_def)
  then have ge: "\<forall>e\<in>set v. ?h \<le> fst e" by simp
  have sorted_w: "time_sorted w" using ok by (simp add: win_ok_def)
  note rec = recorded_eq [OF sorted_w v_eq]
  show "win_ok w' ms'" "mset w' = recorded now window member (mset w)"
  proof (atomize (full), cases "\<exists>x t. member = Some x \<and> mv x = Some t")
    case True
    then obtain x t where x: "member = Some x" "mv x = Some t" by blast
    with res ev have "refresh_window now ?h x t v mv = (w', ms')" by (simp add: hit_window_def)
    from refresh_window_spec [OF v x(2) ge _ this] window rec(1)
    show "win_ok w' ms' \<and> mset w' = recorded now window member (mset w)" by (simp add: x)
  next
    case False
    with res ev have "insert_window now ?h member v mv = (w', ms')"
      by (auto simp: hit_window_def split: option.splits)
    from insert_window_spec [OF v _ ge _ this] window False
    have "win_ok w' ms'" "mset w' = add_mset (now, member) (mset v)" by auto
    moreover have "member = None \<or> (\<forall>t. (t, member) \<notin> set v)"
      using False v unfolding win_ok_def by (metis option.exhaust)
    ultimately show "win_ok w' ms' \<and> mset w' = recorded now window member (mset w)"
      using rec(2) by simp
  qed
qed

subsection \<open>The counter: invariant and sweep\<close>

text \<open>
  Every window and its mirror agree, every key that holds state has a deadline, and every deadline
  is covered by a heap entry that is not later, so that the sweep finds it.
\<close>

definition window_at :: "'m deque_counter \<Rightarrow> string \<Rightarrow> 'm entry list" where
  "window_at c k = get_default (dc_w c) k []"

definition values_at :: "'m deque_counter \<Rightarrow> string \<Rightarrow> 'm entry list" where
  "values_at c k = get_default (dc_dw c) k []"

definition heap_covers :: "(string \<rightharpoonup> int) \<Rightarrow> (int \<times> string) list \<Rightarrow> bool" where
  "heap_covers deadline heap \<longleftrightarrow> (\<forall>k e. deadline k = Some e \<longrightarrow> (\<exists>d\<le>e. (d, k) \<in> set heap))"

definition dc_ok :: "'m deque_counter \<Rightarrow> bool" where
  "dc_ok c \<longleftrightarrow>
     (\<forall>k. win_ok (window_at c k) (get_default (dc_live c) k Map.empty)) \<and>
     (\<forall>k. time_sorted (values_at c k)) \<and>
     (\<forall>k. dc_exp c k = None \<longrightarrow>
        dc_w c k = None \<and> dc_dw c k = None \<and> dc_live c k = None \<and> dc_last c k = None) \<and>
     sorted (dc_heap c) \<and> heap_covers (dc_exp c) (dc_heap c)"

lemma dc_ok_new: "dc_ok new_counter"
  by (simp add: dc_ok_def new_counter_def window_at_def values_at_def win_ok_def heap_covers_def)

definition expired :: "int \<Rightarrow> 'm deque_counter \<Rightarrow> string \<Rightarrow> bool" where
  "expired now c k \<longleftrightarrow> (\<exists>e. dc_exp c k = Some e \<and> e < now)"

text \<open>All that the counter holds for one key.\<close>

definition view :: "'m deque_counter \<Rightarrow> string \<Rightarrow>
    'm entry list option \<times> 'm entry list option \<times> ('m \<rightharpoonup> int) option \<times> int option \<times> int option" where
  "view c k = (dc_w c k, dc_dw c k, dc_live c k, dc_last c k, dc_exp c k)"

abbreviation no_view :: "'a option \<times> 'b option \<times> 'c option \<times> 'd option \<times> 'e option" where
  "no_view \<equiv> (None, None, None, None, None)"

lemma view_forget: "view (forget c k) k' = (if k' = k then no_view else view c k')"
  by (simp add: view_def forget_def)

lemma view_heap [simp]: "view (c\<lparr>dc_heap := h\<rparr>) k = view c k"
  "view (c\<lparr>dc_hits := n\<rparr>) k = view c k"
  by (simp_all add: view_def)

lemma expired_view: "view c k = view c' k \<Longrightarrow> expired now c k = expired now c' k"
  by (simp add: view_def expired_def)

lemma forget_heap: "forget (c\<lparr>dc_heap := h\<rparr>) k = (forget c k)\<lparr>dc_heap := h\<rparr>"
  by (cases c) (simp add: forget_def)

lemma dc_ok_forget: "dc_ok c \<Longrightarrow> dc_ok (forget c k)"
  by (auto simp: dc_ok_def forget_def window_at_def values_at_def win_ok_def heap_covers_def
      get_default_def split: option.splits)

lemma dc_ok_heap:
  "dc_ok c \<Longrightarrow> sorted h \<Longrightarrow> heap_covers (dc_exp c) h \<Longrightarrow> dc_ok (c\<lparr>dc_heap := h\<rparr>)"
  by (simp add: dc_ok_def window_at_def values_at_def)

lemma dc_ok_hits [simp]: "dc_ok (c\<lparr>dc_hits := n\<rparr>) = dc_ok c"
  by (simp add: dc_ok_def window_at_def values_at_def)

text \<open>The three outcomes of a round keep the invariant up to the popped key.\<close>

lemma dc_ok_pop:
  assumes "dc_ok c" "dc_heap c = (d, k) # h"
  shows "dc_exp c k = None \<Longrightarrow> dc_ok (c\<lparr>dc_heap := h\<rparr>)"
    and "dc_ok (forget (c\<lparr>dc_heap := h\<rparr>) k)"
    and "dc_exp c k = Some cur \<Longrightarrow> dc_ok (c\<lparr>dc_heap := heap_push (cur, k) h\<rparr>)"
proof -
  have h: "sorted h" "heap_covers (dc_exp c) ((d, k) # h)" using assms by (auto simp: dc_ok_def)
  show "dc_ok (c\<lparr>dc_heap := h\<rparr>)" if "dc_exp c k = None"
    using h that by (intro dc_ok_heap [OF assms(1)]) (auto simp: heap_covers_def, force)
  have "heap_covers ((dc_exp c)(k := None)) h" using h(2) by (auto simp: heap_covers_def)
  with dc_ok_heap [OF dc_ok_forget [OF assms(1), of k] h(1)]
  show "dc_ok (forget (c\<lparr>dc_heap := h\<rparr>) k)" unfolding forget_heap by (simp add: forget_def)
  show "dc_ok (c\<lparr>dc_heap := heap_push (cur, k) h\<rparr>)" if "dc_exp c k = Some cur"
    using h that
    by (intro dc_ok_heap [OF assms(1)]) (auto simp: heap_covers_def sorted_insort, force)
qed

lemma sweep_loop_sound:
  "dc_ok c \<Longrightarrow> dc_ok (sweep_loop now c) \<and>
     (\<forall>k. view (sweep_loop now c) k = view c k \<or>
          expired now c k \<and> view (sweep_loop now c) k = no_view) \<and>
     (\<forall>e\<in>set (dc_heap (sweep_loop now c)). now \<le> fst e)"
proof (induction now c rule: sweep_loop.induct)
  case (1 now c)
  show ?case
  proof (cases "dc_heap c = [] \<or> now \<le> fst (hd (dc_heap c))")
    case True
    then have "sweep_loop now c = c" by (subst sweep_loop.simps) (auto split: list.split)
    moreover have "\<forall>e\<in>set (dc_heap c). now \<le> fst e"
      using True "1.prems" by (cases "dc_heap c") (auto simp: dc_ok_def, force simp: less_eq_prod_def)
    ultimately show ?thesis using "1.prems" by simp
  next
    case False
    then obtain d k h where h: "dc_heap c = (d, k) # h" "d < now"
      by (cases "dc_heap c") auto
    let ?c = "c\<lparr>dc_heap := h\<rparr>"
    note pop = dc_ok_pop [OF "1.prems" h(1)]
    consider "dc_exp c k = None" | cur where "dc_exp c k = Some cur" "cur < now"
      | cur where "dc_exp c k = Some cur" "now \<le> cur"
      by (cases "dc_exp c k") force+
    then show ?thesis
    proof cases
      case 1
      then have "sweep_loop now c = sweep_loop now ?c" by (subst sweep_loop.simps) (simp add: h)
      with "1.IH"(1) [OF h(1) refl h(2) refl] 1 pop(1) show ?thesis
        by (simp add: expired_def)
    next
      case 2
      then have step: "sweep_loop now c = sweep_loop now (forget ?c k)"
        by (subst sweep_loop.simps) (simp add: h)
      have ex: "expired now c k" using 2 by (simp add: expired_def)
      have "expired now (forget ?c k) k' \<Longrightarrow> expired now c k'" for k'
        by (auto simp: expired_def forget_def split: if_splits)
      with "1.IH"(2) [OF h(1) refl h(2) refl _ 2(2)] 2 pop(2) ex show ?thesis
        unfolding step by (auto simp: view_forget split: if_splits)
    next
      case 3
      then have "sweep_loop now c = sweep_loop now (?c\<lparr>dc_heap := heap_push (cur, k) h\<rparr>)"
        by (subst sweep_loop.simps) (simp add: h)
      with "1.IH"(3) [OF h(1) refl h(2) refl] 3 pop(3) show ?thesis
        by (simp add: expired_def)
    qed
  qed
qed

lemma dc_ok_expired_none:
  assumes "dc_ok c" "dc_exp c k = None"
  shows "view c k = no_view"
  using assms by (simp add: dc_ok_def view_def)

lemma sweep_loop_view:
  assumes "dc_ok c"
  shows "view (sweep_loop now c) k = (if expired now c k then no_view else view c k)"
proof -
  let ?c = "sweep_loop now c"
  from sweep_loop_sound [OF assms, of now]
  have ok: "dc_ok ?c" and heap: "\<forall>e\<in>set (dc_heap ?c). now \<le> fst e"
    and either: "view ?c k = view c k \<or> expired now c k \<and> view ?c k = no_view" by auto
  have "\<not> expired now ?c k"
  proof
    assume "expired now ?c k"
    then obtain e where e: "dc_exp ?c k = Some e" "e < now" by (auto simp: expired_def)
    with ok obtain d where "d \<le> e" "(d, k) \<in> set (dc_heap ?c)"
      unfolding dc_ok_def heap_covers_def by blast
    with heap e show False by force
  qed
  with either expired_view [of ?c k c now] show ?thesis by auto
qed

lemma dc_ok_sweep: "dc_ok c \<Longrightarrow> dc_ok (sweep c now)"
  using sweep_loop_sound [of "c\<lparr>dc_hits := Suc (dc_hits c)\<rparr>" now] by (simp add: sweep_def Let_def)

lemma sweep_view:
  assumes "dc_ok c"
  shows "view (sweep c now) k =
    (if Suc (dc_hits c) mod sweep_every = 0 \<and> expired now c k then no_view else view c k)"
  using sweep_loop_view [of "c\<lparr>dc_hits := Suc (dc_hits c)\<rparr>" now k] assms
  by (auto simp: sweep_def Let_def expired_def split: if_splits)

lemma view_fields:
  assumes "view c k = view c' k"
  shows "window_at c k = window_at c' k" "values_at c k = values_at c' k" "dc_exp c k = dc_exp c' k"
    "dc_last c k = dc_last c' k"
  using assms by (auto simp: view_def window_at_def values_at_def get_default_def)

lemma no_view_fields:
  assumes "view c k = no_view"
  shows "window_at c k = []" "values_at c k = []"
  using assms by (auto simp: view_def window_at_def values_at_def get_default_def)

subsection \<open>The effect of a hit\<close>

lemma view_touch:
  "view (touch c key now window) k =
     (if k = key
      then (let l = max now (get_default (dc_last c) key now)
            in (dc_w c k, dc_dw c k, dc_live c k, Some l, Some (l + window)))
      else view c k)"
  by (auto simp: view_def touch_def Let_def max_def get_default_def split: option.split)

text \<open>The heap entry that \<open>_touch\<close> queues, or does not need to queue, covers the new deadline.\<close>

lemma heap_covers_push: "heap_covers deadline h \<Longrightarrow> heap_covers (deadline(key \<mapsto> e)) (heap_push (e, key) h)"
  unfolding heap_covers_def by (simp, blast)

lemma heap_covers_grow:
  assumes "heap_covers deadline h" "deadline key = Some prev" "prev \<le> e"
  shows "heap_covers (deadline(key \<mapsto> e)) h"
  unfolding heap_covers_def
proof (intro allI impI)
  fix k d assume k: "(deadline(key \<mapsto> e)) k = Some d"
  obtain d' where "deadline k = Some d'" "d' \<le> d"
    using k assms(2,3) by (cases "k = key") auto
  with assms(1) show "\<exists>d'\<le>d. (d', k) \<in> set h"
    unfolding heap_covers_def by (meson order.trans)
qed

lemma touch_fields [simp]:
  "dc_w (touch c key now window) = dc_w c" "dc_dw (touch c key now window) = dc_dw c"
  "dc_live (touch c key now window) = dc_live c" "dc_hits (touch c key now window) = dc_hits c"
  by (simp_all add: touch_def Let_def)

lemma touch_exp_heap:
  "\<exists>e. dc_exp (touch c key now window) = (dc_exp c)(key \<mapsto> e) \<and>
       dc_heap (touch c key now window) =
         (case dc_exp c key of None \<Rightarrow> heap_push (e, key) (dc_heap c)
          | Some prev \<Rightarrow> if e < prev then heap_push (e, key) (dc_heap c) else dc_heap c)"
  by (rule exI [of _ "(case dc_last c key of None \<Rightarrow> now | Some l \<Rightarrow> if now > l then now else l) + window"])
    (simp add: touch_def Let_def)

lemma dc_ok_touch:
  assumes ok: "dc_ok c"
    and w: "\<And>k. k \<noteq> key \<Longrightarrow> view c' k = view c k" "dc_exp c' = dc_exp c" "dc_heap c' = dc_heap c"
    and key: "win_ok (window_at c' key) (get_default (dc_live c') key Map.empty)"
      "time_sorted (values_at c' key)"
  shows "dc_ok (touch c' key now window)"
proof -
  let ?c = "touch c' key now window"
  obtain e where e: "dc_exp ?c = (dc_exp c)(key \<mapsto> e)"
    "dc_heap ?c = (case dc_exp c key of None \<Rightarrow> heap_push (e, key) (dc_heap c)
                   | Some prev \<Rightarrow> if e < prev then heap_push (e, key) (dc_heap c) else dc_heap c)"
    using touch_exp_heap [of c' key now window] unfolding w(2,3) by blast
  have "heap_covers (dc_exp ?c) (dc_heap ?c)" "sorted (dc_heap ?c)"
    unfolding e using ok
    by (auto simp: dc_ok_def heap_covers_push heap_covers_grow sorted_insort split: option.split)
  moreover have "win_ok (window_at ?c k) (get_default (dc_live ?c) k Map.empty)" for k
    using ok key w(1) [of k] by (cases "k = key") (auto simp: dc_ok_def view_def window_at_def get_default_def)
  moreover have "time_sorted (values_at ?c k)" for k
    using ok key w(1) [of k] by (cases "k = key") (auto simp: dc_ok_def view_def values_at_def get_default_def)
  moreover have "view ?c k = no_view" if "dc_exp ?c k = None" for k
    using that ok w(1) [of k] e(1) dc_ok_expired_none [OF ok, of k]
    by (cases "k = key") (auto simp: view_touch)
  ultimately show ?thesis unfolding dc_ok_def by (simp add: view_def)
qed

text \<open>The counter before the sweep that ends a hit.\<close>

lemma recorded_nonempty [simp]: "recorded now window m W \<noteq> {#}"
  by (simp add: recorded_def)

lemma hit_unswept:
  assumes ok: "dc_ok c" and window: "0 \<le> window" and res: "hit c key now window m = (n, c')"
  obtains c1 where "c' = sweep c1 now" "dc_ok c1" "dc_hits c1 = dc_hits c"
    "mset (window_at c1 key) = recorded now window m (mset (window_at c key))"
    "n = length (window_at c1 key)" "values_at c1 key = values_at c key"
    "\<And>k. k \<noteq> key \<Longrightarrow> view c1 k = view c k"
    "dc_exp c1 key = Some (max now (get_default (dc_last c) key now) + window)"
proof -
  obtain w ms where hw: "hit_window now (now - window) m (window_at c key)
      (get_default (dc_live c) key Map.empty) = (w, ms)" by fastforce
  define c0 where "c0 = c\<lparr>dc_w := (dc_w c)(key \<mapsto> w), dc_live := (dc_live c)(key \<mapsto> ms)\<rparr>"
  have "win_ok (window_at c key) (get_default (dc_live c) key Map.empty)"
    using ok by (simp add: dc_ok_def)
  note spec = hit_window_spec [OF this window hw]
  have "w \<noteq> []" using spec(2) by (metis mset.simps(1) recorded_nonempty)
  then have c': "n = length w" "c' = sweep (touch c0 key now window) now"
    using res hw by (auto simp: hit_def window_at_def Let_def c0_def)
  show thesis
  proof (rule that [OF c'(2)])
    show "dc_ok (touch c0 key now window)"
      using spec(1) ok by (intro dc_ok_touch [OF ok])
        (auto simp: c0_def view_def window_at_def values_at_def dc_ok_def)
  qed (use spec c' in \<open>auto simp: c0_def window_at_def values_at_def view_touch view_def
         touch_def Let_def get_default_def max_def split: option.splits\<close>)
qed

lemma live_not_swept:
  assumes "dc_ok c" "\<And>e. dc_exp c k = Some e \<Longrightarrow> now \<le> e"
  shows "view (sweep c now) k = view c k"
  using sweep_view [OF assms(1), of now k] assms(2) by (auto simp: expired_def)

lemma hit_spec:
  assumes ok: "dc_ok c" and window: "0 \<le> window" and res: "hit c key now window m = (n, c')"
  shows "dc_ok c'"
    and "mset (window_at c' key) = recorded now window m (mset (window_at c key))"
    and "n = size (recorded now window m (mset (window_at c key)))"
    and "values_at c' key = values_at c key"
    and "k \<noteq> key \<Longrightarrow> view c' k = (if Suc (dc_hits c) mod sweep_every = 0 \<and> expired now c k
                              then no_view else view c k)"
proof -
  obtain c1 where c1: "c' = sweep c1 now" "dc_ok c1" "dc_hits c1 = dc_hits c"
    "mset (window_at c1 key) = recorded now window m (mset (window_at c key))"
    "n = length (window_at c1 key)" "values_at c1 key = values_at c key"
    "\<And>k. k \<noteq> key \<Longrightarrow> view c1 k = view c k"
    "dc_exp c1 key = Some (max now (get_default (dc_last c) key now) + window)"
    using hit_unswept [OF ok window res] by metis
  have "view c' key = view c1 key"
    unfolding c1(1) using window c1(8) by (intro live_not_swept [OF c1(2)]) auto
  note same = view_fields [OF this]
  show "dc_ok c'" using c1(1,2) by (simp add: dc_ok_sweep)
  show "mset (window_at c' key) = recorded now window m (mset (window_at c key))"
    using same c1(4) by simp
  then show "n = size (recorded now window m (mset (window_at c key)))"
    using c1(5) same by (metis size_mset)
  show "values_at c' key = values_at c key" using same c1(6) by simp
  show "view c' k = (if Suc (dc_hits c) mod sweep_every = 0 \<and> expired now c k
                     then no_view else view c k)" if "k \<noteq> key"
    using sweep_view [OF c1(2), of now k] c1(1,3) c1(7) [OF that] expired_view [OF c1(7) [OF that]]
    by auto
qed

subsection \<open>The contract of a sliding window\<close>

locale sliding_window =
  fixes record_hit :: "'s \<Rightarrow> string \<Rightarrow> int \<Rightarrow> int \<Rightarrow> 'm option \<Rightarrow> nat \<times> 's"
    and contents :: "'s \<Rightarrow> string \<Rightarrow> 'm entry multiset"
    and live_at :: "'s \<Rightarrow> int \<Rightarrow> string \<Rightarrow> bool"
    and good :: "'s \<Rightarrow> bool"
  assumes good_hit: "good s \<Longrightarrow> 0 \<le> window \<Longrightarrow> good (snd (record_hit s k now window m))"
    and count_hit: "good s \<Longrightarrow> 0 \<le> window \<Longrightarrow>
          fst (record_hit s k now window m) = size (recorded now window m (contents s k))"
    and contents_hit: "good s \<Longrightarrow> 0 \<le> window \<Longrightarrow>
          contents (snd (record_hit s k now window m)) k = recorded now window m (contents s k)"
    and contents_frame: "good s \<Longrightarrow> 0 \<le> window \<Longrightarrow> k' \<noteq> k \<Longrightarrow> live_at s now k' \<Longrightarrow>
          contents (snd (record_hit s k now window m)) k' = contents s k'"
begin

text \<open>Recording the same event again at the same time changes neither the count nor the window.\<close>

lemma redelivery:
  assumes "good s" "0 \<le> window" "record_hit s k now window (Some x) = (n, s')"
    "record_hit s' k now window (Some x) = (n', s'')"
  shows "n' = n" "contents s'' k = contents s' k"
proof -
  let ?W = "contents s k" and ?R = "recorded now window (Some x)"
  have s': "good s'" "contents s' k = ?R ?W" "n = size (?R ?W)"
    using good_hit [OF assms(1,2)] contents_hit [OF assms(1,2)] count_hit [OF assms(1,2)] assms(3)
    by (metis fst_conv snd_conv)+
  have s'': "contents s'' k = ?R (contents s' k)" "n' = size (?R (contents s' k))"
    using contents_hit [OF s'(1) assms(2)] count_hit [OF s'(1) assms(2)] assms(4)
    by (metis fst_conv snd_conv)+
  have "?R (?R ?W) = ?R ?W"
    by (auto simp: recorded_def others_def filter_filter_mset intro!: filter_mset_cong)
  with s' s'' show "n' = n" "contents s'' k = contents s' k" by simp_all
qed

text \<open>A run of hits on one key.\<close>

primrec run :: "'s \<Rightarrow> string \<Rightarrow> int \<Rightarrow> (int \<times> 'm) list \<Rightarrow> 's" where
  "run s k window [] = s"
| "run s k window (e # es) = run (snd (record_hit s k (fst e) window (Some (snd e)))) k window es"

lemma good_run: "good s \<Longrightarrow> 0 \<le> window \<Longrightarrow> good (run s k window es)"
  by (induction es arbitrary: s) (simp_all add: good_hit)

lemma contents_run:
  assumes "good s" "0 \<le> window" "distinct (map snd es)"
    "\<forall>e\<in>set es. \<forall>f\<in>#contents s k. fst e - window \<le> fst f \<and> snd f \<noteq> Some (snd e)"
    "\<forall>e\<in>set es. \<forall>f\<in>set es. fst e - window \<le> fst f"
  shows "contents (run s k window es) k =
           contents s k + mset (map (\<lambda>e. (fst e, Some (snd e))) es)"
  using assms
proof (induction es arbitrary: s)
  case (Cons e es)
  let ?s = "snd (record_hit s k (fst e) window (Some (snd e)))"
  have "filter_mset (others (fst e - window) (Some (snd e))) (contents s k) = contents s k"
    using Cons.prems by (intro filter_mset_all) (auto simp: others_def)
  then have "contents ?s k = add_mset (fst e, Some (snd e)) (contents s k)"
    using contents_hit [OF Cons.prems(1,2)] by (simp add: recorded_def)
  with Cons.IH [of ?s] Cons.prems good_hit [OF Cons.prems(1,2)] show ?case by auto
qed simp

text \<open>The order in which the events of a window arrive does not matter to the count.\<close>

lemma count_run:
  assumes "good s" "0 \<le> window" "contents s k = {#}" "distinct (map snd es)"
    "\<forall>e\<in>set es. \<forall>f\<in>set es. fst e - window \<le> fst f"
  shows "size (contents (run s k window es) k) = length es"
  using contents_run [OF assms(1,2,4) _ assms(5)] assms(3) by simp

end

definition live_key :: "'m deque_counter \<Rightarrow> int \<Rightarrow> string \<Rightarrow> bool" where
  "live_key c now k \<longleftrightarrow> \<not> expired now c k"

interpretation deque: sliding_window hit "\<lambda>c k. mset (window_at c k)" live_key dc_ok
proof
  fix c :: "'m deque_counter" and window now :: int and k k' :: string and m
  assume c: "dc_ok c" "0 \<le> window"
  obtain n c' where h: "hit c k now window m = (n, c')" by fastforce
  note spec = hit_spec [OF c h]
  show "dc_ok (snd (hit c k now window m))"
    "fst (hit c k now window m) = size (recorded now window m (mset (window_at c k)))"
    "mset (window_at (snd (hit c k now window m)) k) = recorded now window m (mset (window_at c k))"
    using spec h by simp_all
  assume "k' \<noteq> k" "live_key c now k'"
  with spec(5) [of k'] have "view c' k' = view c k'" by (simp add: live_key_def)
  from view_fields(1) [OF this] h
  show "mset (window_at (snd (hit c k now window m)) k') = mset (window_at c k')" by simp
qed

subsection \<open>Distinct values\<close>

text \<open>
  Seen from outside, the state of a distinct-value key is the map from each value to its newest
  time, as in a Redis sorted set updated by \<open>ZADD GT\<close>.
\<close>

definition newest :: "'m entry list \<Rightarrow> ('m option \<rightharpoonup> int)" where
  "newest w = od_get (latest_of w)"

definition newest_recorded ::
    "int \<Rightarrow> int \<Rightarrow> 'm option \<Rightarrow> ('m option \<rightharpoonup> int) \<Rightarrow> ('m option \<rightharpoonup> int)" where
  "newest_recorded now window value S =
     (\<lambda>v. case (S(value \<mapsto> max now (get_default S value now))) v of
            None \<Rightarrow> None
          | Some t \<Rightarrow> if now - window \<le> t then Some t else None)"

lemma latest_of_snoc: "latest_of (w @ [(t, v)]) = od_set (latest_of w) v t"
  by (simp add: latest_of_def)

lemma latest_of_Nil [simp]: "latest_of [] = []"
  by (simp add: latest_of_def)

lemma od_wf_latest_of [simp]: "od_wf (latest_of w)"
proof (induction w rule: rev_induct)
  case (snoc e w)
  then show ?case by (cases e) (simp add: latest_of_snoc)
qed simp

lemma newest_iff:
  "time_sorted w \<Longrightarrow>
   newest w v = Some t \<longleftrightarrow> (t, v) \<in> set w \<and> (\<forall>t'. (t', v) \<in> set w \<longrightarrow> t' \<le> t)"
proof (induction w arbitrary: v t rule: rev_induct)
  case Nil
  then show ?case by (simp add: newest_def)
next
  case (snoc e w)
  obtain s u where e: "e = (s, u)" by (cases e)
  have "time_sorted w" "\<forall>x\<in>set w. fst x \<le> s"
    using snoc.prems by (auto simp: sorted_append e)
  with snoc.IH [of v t] show ?case
    by (auto simp: newest_def e latest_of_snoc)
qed

lemma newest_cong_set:
  "time_sorted v \<Longrightarrow> time_sorted w \<Longrightarrow> set v = set w \<Longrightarrow> newest v = newest w"
  by (rule ext) (metis newest_iff not_None_eq)

lemma newest_None: "newest w v = None \<longleftrightarrow> (\<forall>t. (t, v) \<notin> set w)"
proof (induction w rule: rev_induct)
  case (snoc e w)
  then show ?case by (cases e) (auto simp: newest_def latest_of_snoc)
qed (simp add: newest_def)

lemma dom_newest: "dom (newest w) = {v. \<exists>t. (t, v) \<in> set w}"
  by (rule set_eqI) (simp only: domIff newest_None mem_Collect_eq not_all not_not)

lemma newest_eqI:
  assumes "time_sorted w" "\<And>v t. S v = Some t \<longleftrightarrow> (t, v) \<in> set w \<and> (\<forall>t'. (t', v) \<in> set w \<longrightarrow> t' \<le> t)"
  shows "newest w = S"
  by (rule ext) (metis assms newest_iff not_None_eq)

lemma add_sorted_facts:
  assumes "time_sorted w"
  shows "time_sorted (add_sorted now x w)" "set (add_sorted now x w) = insert (now, x) (set w)"
  using assms time_sorted_snoc [of w now x] by (auto simp: add_sorted_def)

lemma newest_add:
  assumes w: "time_sorted w"
  shows "newest (add_sorted now x w) = (newest w)(x \<mapsto> max now (get_default (newest w) x now))"
proof (rule newest_eqI [OF add_sorted_facts(1) [OF w]])
  fix v t
  have now_newest: "newest w v = Some s \<longleftrightarrow>
      (s, v) \<in> set w \<and> (\<forall>t'. (t', v) \<in> set w \<longrightarrow> t' \<le> s)" for s
    by (rule newest_iff [OF w])
  have "t = max now s \<longleftrightarrow> (t = now \<or> (t, x) \<in> set w) \<and> now \<le> t \<and>
      (\<forall>t'. (t', x) \<in> set w \<longrightarrow> t' \<le> t)" if "newest w x = Some s" for s
  proof -
    have s: "(s, x) \<in> set w" "\<And>t'. (t', x) \<in> set w \<Longrightarrow> t' \<le> s"
      using that newest_iff [OF w, of x s] by auto
    then have "t = s" if "(t, x) \<in> set w" "\<forall>t'. (t', x) \<in> set w \<longrightarrow> t' \<le> t"
      using that by (auto intro: order.antisym)
    with s show ?thesis by (auto simp: max_def intro: order.trans) (metis linorder_le_cases order.trans)
  qed
  then show "((newest w)(x \<mapsto> max now (get_default (newest w) x now))) v = Some t \<longleftrightarrow>
      (t, v) \<in> set (add_sorted now x w) \<and> (\<forall>t'. (t', v) \<in> set (add_sorted now x w) \<longrightarrow> t' \<le> t)"
    using now_newest newest_None [of w v]
    by (cases "newest w v"; cases "v = x") (auto simp: add_sorted_facts(2) [OF w])
qed

lemma newest_evicted:
  assumes w: "time_sorted w"
  shows "newest (dropWhile (\<lambda>e. fst e < h) w) =
           (\<lambda>v. case newest w v of None \<Rightarrow> None | Some t \<Rightarrow> if h \<le> t then Some t else None)"
proof -
  let ?w = "filter (\<lambda>e. h \<le> fst e) w"
  have "newest ?w = (\<lambda>v. case newest w v of None \<Rightarrow> None | Some t \<Rightarrow> if h \<le> t then Some t else None)"
  proof (rule newest_eqI [OF time_sorted_filter [OF w]])
    fix v t
    show "(case newest w v of None \<Rightarrow> None | Some t \<Rightarrow> if h \<le> t then Some t else None) = Some t \<longleftrightarrow>
        (t, v) \<in> set ?w \<and> (\<forall>t'. (t', v) \<in> set ?w \<longrightarrow> t' \<le> t)"
    proof (cases "newest w v")
      case None
      then have "(t, v) \<notin> set w" using newest_None [of w v] by blast
      with None show ?thesis by auto
    next
      case (Some s)
      with newest_iff [OF w, of v s] show ?thesis by (auto intro: order.antisym)
    qed
  qed
  then show ?thesis by (simp add: dropWhile_time_sorted [OF w])
qed

lemma newest_compact:
  assumes w: "time_sorted w"
  shows "time_sorted (compact w (latest_of w))" "newest (compact w (latest_of w)) = newest w"
proof -
  let ?u = "sort_key fst (map (\<lambda>(v, t). (t, v)) (latest_of w))"
  have u: "(t, v) \<in> set ?u \<longleftrightarrow> newest w v = Some t" for t v
    by (force simp: newest_def)
  have "newest ?u = newest w"
    by (rule newest_eqI [OF sort_by_time(1)]) (unfold u, auto)
  with w show "time_sorted (compact w (latest_of w))" "newest (compact w (latest_of w)) = newest w"
    by (simp_all add: compact_def)
qed

lemma length_latest_of: "length (latest_of w) = card (dom (newest w))"
proof -
  have "card (dom (newest w)) = card (fst ` set (latest_of w))"
    by (simp add: newest_def dom_map_of_conv_image_fst)
  also have "\<dots> = length (latest_of w)"
    using od_wf_latest_of [of w] distinct_card [of "map fst (latest_of w)"] by simp
  finally show ?thesis by simp
qed

text \<open>Recording a value: the count is the number of values whose newest time is in the window.\<close>

lemma newest_recorded_eq:
  "newest_recorded now window x S =
     (\<lambda>v. case (S(x \<mapsto> max now (get_default S x now))) v of None \<Rightarrow> None
          | Some t \<Rightarrow> if now - window \<le> t then Some t else None)"
  by (simp add: newest_recorded_def)

lemma hit_distinct_unswept:
  assumes ok: "dc_ok c" and window: "0 \<le> window" and res: "hit_distinct c key now window x = (n, c')"
  obtains c1 where "c' = sweep c1 now" "dc_ok c1" "dc_hits c1 = dc_hits c"
    "newest (values_at c1 key) = newest_recorded now window x (newest (values_at c key))"
    "n = card (dom (newest (values_at c1 key)))" "window_at c1 key = window_at c key"
    "\<And>k. k \<noteq> key \<Longrightarrow> view c1 k = view c k"
    "dc_exp c1 key = Some (max now (get_default (dc_last c) key now) + window)"
proof -
  let ?w = "values_at c key"
  define w1 where "w1 = add_sorted now x ?w"
  define w2 where "w2 = dropWhile (\<lambda>e. fst e < now - window) w1"
  define w where "w = compact w2 (latest_of w2)"
  define c0 where "c0 = c\<lparr>dc_dw := (dc_dw c)(key \<mapsto> w)\<rparr>"
  have w0: "time_sorted ?w" using ok by (simp add: dc_ok_def)
  then have w1: "time_sorted w1" by (simp add: w1_def add_sorted_facts)
  then have w2: "time_sorted w2" by (simp add: w2_def dropWhile_time_sorted time_sorted_filter)
  have w: "time_sorted w" "newest w = newest w2"
    unfolding w_def by (rule newest_compact [OF w2])+
  have new: "newest w = newest_recorded now window x (newest ?w)"
    unfolding w(2) w2_def newest_evicted [OF w1] unfolding w1_def newest_add [OF w0] newest_recorded_eq ..
  have "x \<in> dom (newest w)"
    using window by (auto simp: new newest_recorded_def)
  then have "w \<noteq> []" by (auto simp: dom_newest)
  then have c': "n = card (dom (newest w))" "c' = sweep (touch c0 key now window) now"
    using res unfolding w(2) length_latest_of [symmetric]
    by (auto simp: hit_distinct_def values_at_def [symmetric] w1_def [symmetric] w2_def [symmetric]
        w_def [symmetric] Let_def c0_def)
  show thesis
  proof (rule that [OF c'(2)])
    show "dc_ok (touch c0 key now window)"
      using w(1) ok by (intro dc_ok_touch [OF ok])
        (auto simp: c0_def view_def window_at_def values_at_def dc_ok_def)
  qed (use new c' in \<open>auto simp: c0_def window_at_def values_at_def view_touch view_def
         touch_def Let_def get_default_def max_def split: option.splits\<close>)
qed

lemma hit_distinct_spec:
  assumes ok: "dc_ok c" and window: "0 \<le> window" and res: "hit_distinct c key now window x = (n, c')"
  shows "dc_ok c'"
    and "newest (values_at c' key) = newest_recorded now window x (newest (values_at c key))"
    and "n = card (dom (newest_recorded now window x (newest (values_at c key))))"
    and "window_at c' key = window_at c key"
    and "k \<noteq> key \<Longrightarrow> view c' k = (if Suc (dc_hits c) mod sweep_every = 0 \<and> expired now c k
                              then no_view else view c k)"
proof -
  obtain c1 where c1: "c' = sweep c1 now" "dc_ok c1" "dc_hits c1 = dc_hits c"
    "newest (values_at c1 key) = newest_recorded now window x (newest (values_at c key))"
    "n = card (dom (newest (values_at c1 key)))" "window_at c1 key = window_at c key"
    "\<And>k. k \<noteq> key \<Longrightarrow> view c1 k = view c k"
    "dc_exp c1 key = Some (max now (get_default (dc_last c) key now) + window)"
    using hit_distinct_unswept [OF ok window res] by metis
  have "view c' key = view c1 key"
    unfolding c1(1) using window c1(8) by (intro live_not_swept [OF c1(2)]) auto
  note same = view_fields [OF this]
  show "dc_ok c'" using c1(1,2) by (simp add: dc_ok_sweep)
  show "newest (values_at c' key) = newest_recorded now window x (newest (values_at c key))"
    using same c1(4) by simp
  show "n = card (dom (newest_recorded now window x (newest (values_at c key))))"
    using c1(4,5) by simp
  show "window_at c' key = window_at c key" using same c1(6) by simp
  show "view c' k = (if Suc (dc_hits c) mod sweep_every = 0 \<and> expired now c k
                     then no_view else view c k)" if "k \<noteq> key"
    using sweep_view [OF c1(2), of now k] c1(1,3) c1(7) [OF that] expired_view [OF c1(7) [OF that]]
    by auto
qed

text \<open>The compaction bounds the memory of a key by its distinct values.\<close>

lemma compact_length: "length (compact w (latest_of w)) \<le> 2 * card (dom (newest w)) + 64"
  by (simp add: compact_def flip: length_latest_of)

subsection \<open>Properties\<close>

text \<open>C6. A hit implements the sorted-set contract: from a well-formed counter it leaves a
  well-formed counter, the window of its key becomes the multiset of the entries inside the
  horizon, without the previous entry of the same member, plus the new one, and the count returned
  is the size of that multiset, whatever the order in which timestamps arrive.\<close>

theorem hit_recorded:
  assumes "dc_ok c" "0 \<le> window" "hit c key now window m = (n, c')"
  shows "dc_ok c' \<and> mset (window_at c' key) = recorded now window m (mset (window_at c key)) \<and>
         n = length (window_at c' key)"
  using hit_spec(1,2,3) [OF assms] by (metis size_mset)

definition two_hits :: "nat \<times> nat deque_counter" where
  "two_hits = hit (snd (hit new_counter ''k'' 100 60 (Some 1))) ''k'' 70 60 (Some 2)"

lemma dc_ok_one_hit: "dc_ok (snd (hit new_counter ''k'' 100 60 (Some (1::nat))))"
  using deque.good_hit [OF dc_ok_new, of 60] by simp

theorem hit_recorded_witness:
  "dc_ok (snd two_hits) \<and> fst two_hits = 2 \<and> window_at (snd two_hits) ''k'' = [(70, Some 2), (100, Some 1)]"
proof -
  have "window_at (snd two_hits) ''k'' = [(70, Some 2), (100, Some 1)]" by code_simp
  with hit_recorded [OF dc_ok_one_hit, of 60 "''k''" 70 "Some 2" "fst two_hits" "snd two_hits"]
  show ?thesis by (simp add: two_hits_def)
qed

text \<open>C37. A distinct-value hit implements a sorted set updated by ZADD GT: every value keeps its
  newest time, values older than the horizon go, and the count returned is the number of values
  left; the compaction of the deque never changes the answer and bounds the deque by twice the
  number of distinct values plus 64.\<close>

theorem hit_distinct_newest:
  assumes "dc_ok c" "0 \<le> window" "hit_distinct c key now window x = (n, c')"
  shows "dc_ok c' \<and>
         newest (values_at c' key) = newest_recorded now window x (newest (values_at c key)) \<and>
         n = card (dom (newest (values_at c' key)))"
  using hit_distinct_spec(1,2,3) [OF assms] by simp

theorem hit_distinct_newest_witness:
  "\<exists>c'. hit_distinct (new_counter :: nat deque_counter) ''k'' 10 60 (Some 7) = (1, c') \<and>
        newest (values_at c' ''k'') = [Some 7 \<mapsto> 10] \<and> dc_ok c'"
proof -
  let ?r = "hit_distinct (new_counter :: nat deque_counter) ''k'' 10 60 (Some 7)"
  have r: "fst ?r = 1" "values_at (snd ?r) ''k'' = [(10, Some 7)]" by code_simp+
  have "newest [(10, Some (7::nat))] = [Some 7 \<mapsto> 10]"
    by (simp add: newest_def latest_of_def)
  with r hit_distinct_newest [OF dc_ok_new, of 60 "''k''" 10 "Some 7" 1 "snd ?r"]
  show ?thesis by (intro exI [of _ "snd ?r"]) (simp add: prod_eq_iff)
qed

text \<open>A hit on one key leaves every other key exactly as it was, unless this hit is a sweep and
  that key's own deadline (its newest hit plus its own window) has passed: then the key is forgotten
  altogether, windows, mirror and deadlines. In particular noise on a short window never evicts the
  live state of a longer one.\<close>

theorem hit_keeps_other_keys:
  assumes "dc_ok c" "0 \<le> window" "k \<noteq> key"
  shows "view (snd (hit c key now window m)) k =
           (if Suc (dc_hits c) mod sweep_every = 0 \<and> expired now c k then no_view else view c k) \<and>
         view (snd (hit_distinct c key now window x)) k =
           (if Suc (dc_hits c) mod sweep_every = 0 \<and> expired now c k then no_view else view c k)"
  using hit_spec(5) [OF assms(1,2) _ assms(3)] hit_distinct_spec(5) [OF assms(1,2) _ assms(3)]
  by (metis prod.collapse)

theorem hit_keeps_other_keys_witness:
  "view (snd (hit (snd (hit ((new_counter :: nat deque_counter)\<lparr>dc_hits := 254\<rparr>) ''slow'' 0 3600 (Some 1)))
     ''fast'' 100 60 (Some 2))) ''slow'' \<noteq> no_view"
proof -
  let ?c = "snd (hit ((new_counter :: nat deque_counter)\<lparr>dc_hits := 254\<rparr>) ''slow'' 0 3600 (Some 1))"
  have "dc_ok ?c" using deque.good_hit [of "new_counter\<lparr>dc_hits := 254\<rparr>" 3600] by (simp add: dc_ok_new)
  then have "view (snd (hit ?c ''fast'' 100 60 (Some 2))) ''slow'' =
      (if Suc (dc_hits ?c) mod sweep_every = 0 \<and> expired 100 ?c ''slow'' then no_view else view ?c ''slow'')"
    by (rule hit_keeps_other_keys [THEN conjunct1]) simp_all
  moreover have "dc_exp ?c ''slow'' = Some 3600" by code_simp
  ultimately show ?thesis by (simp add: expired_def view_def)
qed

definition hit_all :: "'m deque_counter \<Rightarrow> string \<Rightarrow> int \<Rightarrow> (int \<times> 'm) list \<Rightarrow> 'm deque_counter" where
  "hit_all c key window es = fold (\<lambda>e c. snd (hit c key (fst e) window (Some (snd e)))) es c"

lemma hit_all_run: "hit_all c key window es = deque.run c key window es"
  unfolding hit_all_def by (induction es arbitrary: c) auto

abbreviation entry_of :: "int \<times> 'm \<Rightarrow> 'm entry" where
  "entry_of e \<equiv> (fst e, Some (snd e))"

lemma recorded_present:
  assumes "distinct (map snd es)" "e \<in> set es" "\<forall>f\<in>set es. fst e - window \<le> fst f"
  shows "recorded (fst e) window (Some (snd e)) (mset (map entry_of es)) = mset (map entry_of es)"
proof -
  obtain as bs where es: "es = as @ e # bs" using split_list [OF assms(2)] by blast
  let ?D = "mset (map entry_of (as @ bs))"
  have "filter_mset (others (fst e - window) (Some (snd e))) ?D = ?D"
  proof (intro filter_mset_all ballI)
    fix x assume "x \<in># ?D"
    then obtain f where f: "f \<in> set (as @ bs)" "x = entry_of f" by auto
    then have "snd f \<noteq> snd e" using assms(1) es by (auto simp: image_iff)
    with f assms(3) es show "others (fst e - window) (Some (snd e)) x" by (auto simp: others_def)
  qed
  then show ?thesis by (simp add: recorded_def es others_def)
qed

text \<open>Redelivery and reordering: the events of one window, each recorded once or delivered again
  at its own time, leave the same count in whatever order the bus delivers them.\<close>

theorem arrival_order_irrelevant:
  assumes "dc_ok c" "0 \<le> window" "window_at c key = []" "distinct (map snd es)"
    "\<forall>e\<in>set es. \<forall>f\<in>set es. fst e - window \<le> fst f" "mset es' = mset es" "e \<in> set es"
    "hit (hit_all c key window es') key (fst e) window (Some (snd e)) = (n, c')"
  shows "n = length es \<and> length (window_at (hit_all c key window es') key) = length es"
proof -
  have same: "set es' = set es" "length es' = length es" "distinct (map snd es')"
    using assms(4,6) by (metis set_mset_mset, metis size_mset, metis mset_eq_imp_distinct_iff mset_map)
  let ?c = "hit_all c key window es'"
  have ok: "dc_ok ?c" unfolding hit_all_run by (rule deque.good_run [OF assms(1,2)])
  have all: "mset (window_at ?c key) = mset (map entry_of es')"
    using deque.contents_run [OF assms(1,2) same(3)] assms(3,5) same(1) unfolding hit_all_run by simp
  have "n = size (recorded (fst e) window (Some (snd e)) (mset (window_at ?c key)))"
    using deque.count_hit [OF ok assms(2)] assms(8) by (metis fst_conv)
  also have "\<dots> = length es"
    unfolding all using recorded_present [OF same(3)] assms(5,7) same by simp
  finally show ?thesis using arg_cong [OF all, of size] same(2) by simp
qed

theorem arrival_order_irrelevant_witness:
  "length (window_at (hit_all new_counter ''k'' 60 [(30, 2), (10, 1::nat)]) ''k'') = 2"
proof -
  let ?es = "[(10, 1), (30, 2::nat)]"
  have "window_at new_counter ''k'' = ([] :: nat entry list)" by (simp add: window_at_def new_counter_def)
  from arrival_order_irrelevant [OF dc_ok_new _ this, of 60 ?es "[(30, 2), (10, 1)]" "(10, 1)"]
  show ?thesis by (cases "hit (hit_all new_counter ''k'' 60 [(30, 2), (10, 1)]) ''k'' 10 60 (Some (1::nat))")
      (auto simp: add_mset_commute)
qed

text \<open>One value that cannot be hashed blinds a distinct-value window: while its entry is inside
  the horizon every later hit on the key raises, and leaves the entry in place. The first such hit on
  a fresh key leaves a deque without a deadline, which no sweep ever reclaims.\<close>

theorem unhashable_blinds_window:
  assumes "time_sorted (values_at c key)" "(t, Some v) \<in> set (values_at c key)" "\<not> hashable v"
    "now - window \<le> t" "hit_distinct_checked hashable c key now window x = (r, c')"
  shows "r = None \<and> (t, Some v) \<in> set (values_at c' key) \<and> time_sorted (values_at c' key) \<and>
         dc_exp c' key = dc_exp c key"
proof -
  let ?w = "dropWhile (\<lambda>e. fst e < now - window) (add_sorted now x (values_at c key))"
  note added = add_sorted_facts [OF assms(1), of now x]
  have w: "?w = filter (\<lambda>e. now - window \<le> fst e) (add_sorted now x (values_at c key))"
    by (rule dropWhile_time_sorted [OF added(1)])
  have mem: "(t, Some v) \<in> set ?w" unfolding w using added(2) assms(2,4) by auto
  have "\<exists>e\<in>set ?w. case snd e of None \<Rightarrow> False | Some v \<Rightarrow> \<not> hashable v"
    by (rule bexI [OF _ mem]) (simp add: assms(3))
  then have "r = None" "c' = c\<lparr>dc_dw := (dc_dw c)(key \<mapsto> ?w)\<rparr>"
    using assms(5) by (auto simp: hit_distinct_checked_def values_at_def [symmetric] Let_def)
  moreover have "time_sorted ?w" unfolding w by (rule time_sorted_filter [OF added(1)])
  ultimately show ?thesis using mem by (simp add: values_at_def)
qed

theorem unhashable_blinds_window_witness:
  "let c = snd (hit_distinct_checked (\<lambda>v. v \<noteq> 0) (new_counter :: nat deque_counter) ''k'' 10 60 (Some 0))
   in fst (hit_distinct_checked (\<lambda>v. v \<noteq> 0) c ''k'' 40 60 (Some 5)) = None \<and> dc_exp c ''k'' = None"
proof -
  let ?c = "snd (hit_distinct_checked (\<lambda>v. v \<noteq> 0) (new_counter :: nat deque_counter) ''k'' 10 60 (Some 0))"
  have c: "values_at ?c ''k'' = [(10, Some 0)]" "dc_exp ?c ''k'' = None" by code_simp+
  have "fst (hit_distinct_checked (\<lambda>v. v \<noteq> 0) ?c ''k'' 40 60 (Some 5)) = None"
    using unhashable_blinds_window [where c = ?c and key = "''k''" and t = 10 and v = 0 and now = 40
        and window = 60 and hashable = "\<lambda>v. v \<noteq> 0", OF _ _ _ _ surjective_pairing] c(1) by simp
  with c(2) show ?thesis by (simp only: Let_def simp_thms)
qed

end
