(* ===== verification/Bus.thy ===== *)
theory Bus
  imports Prelude Complex_Main
begin

text \<open>
  The message bus of \<open>src/services/shared/bus.py\<close>: the in-memory backend \<open>_MemoryBus\<close> in full, and
  the trim boundary that the Redis backend computes from the group information the server reports.

  A stream is an append-only list of entries; every consumer group has its own cursor (how many
  entries it has been handed) and its own pending list (PEL) of entries delivered but not yet
  acknowledged. What the bus still \<open>owes\<close> a group is its undelivered suffix and its pending
  entries; that set is the contract (locale \<open>message_bus\<close>) on which the worker loop relies.

  The wire form of a payload is a parameter type, encoded by a partial function because
  \<open>json.dumps\<close> rejects some values. A generator is modelled by the list of what it yields.
\<close>

subsection \<open>Entries and keys\<close>

record 'w stream_entry =
  e_id :: nat
  e_topic :: string
  e_key :: string
  e_wire :: 'w

text \<open>The Python values a producer may pass as a key: the text of a number is its \<open>repr\<close>.\<close>

datatype bus_key = KNone | KStr string | KBytes string | KBool bool | KNum bool string | KOther bool

datatype bus_error = TypeError

fun key_truthy :: "bus_key \<Rightarrow> bool" where
  "key_truthy KNone = False"
| "key_truthy (KStr s) = (s \<noteq> [])"
| "key_truthy (KBytes s) = (s \<noteq> [])"
| "key_truthy (KBool b) = b"
| "key_truthy (KNum nonzero _) = nonzero"
| "key_truthy (KOther b) = b"

definition wire_key :: "bus_key \<Rightarrow> bus_error + string" where
  "wire_key key =
     (if \<not> key_truthy key then Inr []
      else case key of
             KBytes s \<Rightarrow> Inr s
           | KBool _ \<Rightarrow> Inl TypeError
           | KNum _ text \<Rightarrow> Inr text
           | KStr s \<Rightarrow> Inr s
           | _ \<Rightarrow> Inl TypeError)"

text \<open>Stream ids of the Redis backend, \<open>ms-seq\<close> read as a pair of numbers.\<close>

type_synonym stream_id = "nat \<times> nat"

definition stream_id_lt :: "stream_id \<Rightarrow> stream_id \<Rightarrow> bool" where
  "stream_id_lt a b \<longleftrightarrow> fst a < fst b \<or> fst a = fst b \<and> snd a < snd b"

definition next_stream_id :: "stream_id \<Rightarrow> stream_id" where
  "next_stream_id i = (fst i, snd i + 1)"

subsection \<open>The in-memory bus\<close>

type_synonym 'w pending = "(nat, 'w stream_entry \<times> rat \<times> nat) odict"

record 'w memory_bus =
  mb_streams :: "string \<rightharpoonup> 'w stream_entry list"
  mb_seq :: nat
  mb_cursors :: "string \<rightharpoonup> (string, nat) odict"
  mb_pel :: "string \<rightharpoonup> (string \<rightharpoonup> 'w pending)"
  mb_evicted :: "(string \<times> string, nat) odict"

definition new_bus :: "'w memory_bus" where
  "new_bus = \<lparr>mb_streams = Map.empty, mb_seq = 0, mb_cursors = Map.empty, mb_pel = Map.empty,
     mb_evicted = []\<rparr>"

abbreviation stream :: "'w memory_bus \<Rightarrow> string \<Rightarrow> 'w stream_entry list" where
  "stream b topic \<equiv> get_default (mb_streams b) topic []"

abbreviation cursors :: "'w memory_bus \<Rightarrow> string \<Rightarrow> (string, nat) odict" where
  "cursors b topic \<equiv> get_default (mb_cursors b) topic []"

abbreviation cursor :: "'w memory_bus \<Rightarrow> string \<Rightarrow> string \<Rightarrow> nat" where
  "cursor b topic g \<equiv> get_default (od_get (cursors b topic)) g 0"

abbreviation pel :: "'w memory_bus \<Rightarrow> string \<Rightarrow> string \<Rightarrow> 'w pending" where
  "pel b topic g \<equiv> get_default (get_default (mb_pel b) topic Map.empty) g []"

definition group_key :: "string option \<Rightarrow> string" where
  "group_key g = (case g of None \<Rightarrow> ''cg-default'' | Some s \<Rightarrow> if s = [] then ''cg-default'' else s)"

definition set_pel :: "'w memory_bus \<Rightarrow> string \<Rightarrow> string \<Rightarrow> 'w pending \<Rightarrow> 'w memory_bus" where
  "set_pel b topic g p = b\<lparr>mb_pel := (mb_pel b)(topic \<mapsto>
     (get_default (mb_pel b) topic Map.empty)(g \<mapsto> p))\<rparr>"

definition produce ::
    "('p \<Rightarrow> 'w option) \<Rightarrow> 'w memory_bus \<Rightarrow> string \<Rightarrow> bus_key \<Rightarrow> 'p \<Rightarrow> bus_error + 'w memory_bus" where
  "produce dumps b topic key payload =
     (case dumps payload of
        None \<Rightarrow> Inl TypeError
      | Some wire \<Rightarrow>
          (case wire_key key of
             Inl e \<Rightarrow> Inl e
           | Inr k \<Rightarrow>
               (let n = mb_seq b + 1;
                    entry = \<lparr>e_id = n, e_topic = topic, e_key = k, e_wire = wire\<rparr>
                in Inr (b\<lparr>mb_seq := n,
                          mb_streams := (mb_streams b)(topic \<mapsto> stream b topic @ [entry])\<rparr>))))"

text \<open>The oldest-first eviction of a pending list over the cap, and the number evicted.\<close>

fun evict_over_cap :: "nat \<Rightarrow> nat list \<Rightarrow> 'w pending \<Rightarrow> 'w pending \<times> nat" where
  "evict_over_cap cap [] p = (p, 0)"
| "evict_over_cap cap (oldest # evictable) p =
     (if length p > cap
      then (let (p', n) = evict_over_cap cap evictable (od_del p oldest) in (p', Suc n))
      else (p, 0))"

definition pend_batch ::
    "nat \<Rightarrow> rat \<Rightarrow> 'w stream_entry list \<Rightarrow> 'w pending \<Rightarrow> 'w pending \<times> nat" where
  "pend_batch cap now batch p =
     (let p' = fold (\<lambda>m q. od_set q (e_id m) (m, now, 1)) batch p;
          in_flight = set (map e_id batch)
      in if length p' > cap
         then evict_over_cap cap (filter (\<lambda>i. i \<notin> in_flight) (map fst p')) p'
         else (p', 0))"

definition consume ::
    "nat \<Rightarrow> rat \<Rightarrow> 'w memory_bus \<Rightarrow> string \<Rightarrow> string option \<Rightarrow> 'w stream_entry list \<times> 'w memory_bus" where
  "consume cap now b topic grp =
     (let g = group_key grp; q = stream b topic; c = cursor b topic g
      in if c \<ge> length q then ([], b)
         else
           (let batch = drop c q;
                b1 = b\<lparr>mb_cursors := (mb_cursors b)(topic \<mapsto> od_set (cursors b topic) g (length q))\<rparr>;
                (p, n) = pend_batch cap now batch (pel b1 topic g);
                b2 = set_pel b1 topic g p
            in (batch, if n = 0 then b2
                       else b2\<lparr>mb_evicted := od_set (mb_evicted b2) (topic, g)
                                (get_default (od_get (mb_evicted b2)) (topic, g) 0 + n)\<rparr>)))"

definition ack :: "'w memory_bus \<Rightarrow> string \<Rightarrow> nat \<Rightarrow> string option \<Rightarrow> 'w memory_bus" where
  "ack b topic i grp =
     (let g = group_key grp
      in case mb_pel b topic of
           None \<Rightarrow> b
         | Some per_group \<Rightarrow>
             (case per_group g of
                None \<Rightarrow> b
              | Some p \<Rightarrow> b\<lparr>mb_pel := (mb_pel b)(topic \<mapsto> per_group(g \<mapsto> od_del p i))\<rparr>))"

definition ack_batch :: "'w memory_bus \<Rightarrow> (string \<times> nat) list \<Rightarrow> string option \<Rightarrow> 'w memory_bus" where
  "ack_batch b msgs grp = fold (\<lambda>m b. ack b (fst m) (snd m) grp) msgs b"

definition idle :: "rat \<Rightarrow> nat \<Rightarrow> rat \<Rightarrow> bool" where
  "idle now min_idle_ms delivered_at \<longleftrightarrow> rat_of_nat min_idle_ms / 1000 \<le> now - delivered_at"

definition claim_pending ::
    "rat \<Rightarrow> 'w memory_bus \<Rightarrow> string \<Rightarrow> string option \<Rightarrow> nat \<Rightarrow>
     ('w stream_entry \<times> nat) list \<times> 'w memory_bus" where
  "claim_pending now b topic grp min_idle_ms =
     (let g = group_key grp; p = pel b topic g
      in if p = [] then ([], b)
         else
           (let claimed = filter (\<lambda>(i, m, t, n). idle now min_idle_ms t) p;
                p' = map (\<lambda>(i, m, t, n). if idle now min_idle_ms t then (i, m, now, n + 1)
                                          else (i, m, t, n)) p
            in (map (\<lambda>(i, m, t, n). (m, n + 1)) claimed, set_pel b topic g p')))"

definition furthest :: "(string, nat) odict \<Rightarrow> nat" where
  "furthest cs = (if cs = [] then 0 else Max (set (map snd cs)))"

definition drain :: "'w memory_bus \<Rightarrow> string \<Rightarrow> 'w stream_entry list" where
  "drain b topic = drop (furthest (cursors b topic)) (stream b topic)"

definition depth :: "'w memory_bus \<Rightarrow> string \<Rightarrow> nat" where
  "depth b topic = length (stream b topic) - furthest (cursors b topic)"

definition lag :: "'w memory_bus \<Rightarrow> string \<Rightarrow> int" where
  "lag b topic =
     (let qlen = int (length (stream b topic)); cs = cursors b topic
      in if cs = [] then qlen
         else Max (set (map (\<lambda>(g, c). (qlen - int c) + int (length (pel b topic g))) cs)))"

definition pel_evicted :: "'w memory_bus \<Rightarrow> string \<Rightarrow> nat" where
  "pel_evicted b topic = sum_list (map snd (filter (\<lambda>((t, g), n). t = topic) (mb_evicted b)))"

text \<open>The leading entries a group has read and acknowledged, up to a bound.\<close>

fun acked_prefix :: "nat \<Rightarrow> nat set \<Rightarrow> 'w stream_entry list \<Rightarrow> nat" where
  "acked_prefix (Suc n) unacked (e # es) = (if e_id e \<in> unacked then 0 else Suc (acked_prefix n unacked es))"
| "acked_prefix _ _ _ = 0"

definition trim_bound :: "'w memory_bus \<Rightarrow> string \<Rightarrow> nat" where
  "trim_bound b topic =
     (let cs = cursors b topic; q = stream b topic
      in fold (\<lambda>(g, c) k. if k = 0 then k
                         else min k (acked_prefix (min c k) (set (map fst (pel b topic g))) q))
           cs (Min (set (map snd cs))))"

definition trim_acked :: "'w memory_bus \<Rightarrow> string \<Rightarrow> nat \<times> 'w memory_bus" where
  "trim_acked b topic =
     (let q = stream b topic; cs = cursors b topic
      in if q = [] \<or> cs = [] then (0, b)
         else
           (let k = trim_bound b topic
            in if k = 0 then (0, b)
               else (k, b\<lparr>mb_streams := (mb_streams b)(topic \<mapsto> drop k q),
                          mb_cursors := (mb_cursors b)(topic \<mapsto>
                            map (\<lambda>(g, c). (g, c - k)) (filter (\<lambda>(g, c). k < c) cs))\<rparr>)))"

subsection \<open>The Redis trim boundary\<close>

text \<open>
  What \<open>XINFO GROUPS\<close> and \<open>XPENDING\<close> report of one group: \<open>g_pending\<close> is None when the call raised,
  otherwise the pending count and the smallest pending id if the reply holds one.
\<close>

record group_info =
  g_name :: "string option"
  g_pending :: "(nat \<times> stream_id option) option"
  g_last :: "stream_id option"

text \<open>Inl is the early \<open>return 0\<close>: nothing may be trimmed.\<close>

definition lower_boundary :: "stream_id option \<Rightarrow> stream_id \<Rightarrow> stream_id" where
  "lower_boundary safe boundary =
     (case safe of None \<Rightarrow> boundary | Some s \<Rightarrow> if stream_id_lt boundary s then boundary else s)"

fun redis_boundary :: "group_info list \<Rightarrow> stream_id option \<Rightarrow> unit + stream_id option" where
  "redis_boundary [] safe = Inr safe"
| "redis_boundary (g # gs) safe =
     (if g_name g = None \<or> g_name g = Some [] then redis_boundary gs safe
      else case g_pending g of
             None \<Rightarrow> Inl ()
           | Some (n, min_id) \<Rightarrow>
               if n \<noteq> 0
               then (case min_id of None \<Rightarrow> redis_boundary gs safe
                     | Some i \<Rightarrow> redis_boundary gs (Some (lower_boundary safe i)))
               else (case g_last g of None \<Rightarrow> Inl ()
                     | Some l \<Rightarrow> redis_boundary gs (Some (lower_boundary safe (next_stream_id l)))))"

definition redis_trim_boundary :: "group_info list \<Rightarrow> stream_id option" where
  "redis_trim_boundary groups =
     (if groups = [] then None
      else case redis_boundary groups None of Inl _ \<Rightarrow> None | Inr safe \<Rightarrow> safe)"

subsection \<open>Invariant\<close>

text \<open>
  Ids grow along a stream; a cursor lies inside its stream; what a group has pending it has been
  handed, that is, it lies before its cursor.
\<close>

definition topic_ok :: "nat \<Rightarrow> 'w stream_entry list \<Rightarrow> (string, nat) odict \<Rightarrow> (string \<Rightarrow> 'w pending) \<Rightarrow> bool" where
  "topic_ok seq q cs p \<longleftrightarrow>
     sorted_wrt (<) (map e_id q) \<and> (\<forall>e\<in>set q. e_id e \<le> seq) \<and>
     od_wf cs \<and> (\<forall>c\<in>set (map snd cs). 0 < c \<and> c \<le> length q) \<and>
     (\<forall>g. od_wf (p g) \<and>
        (\<forall>(i, m, t, n)\<in>set (p g). e_id m = i \<and> m \<in> set (take (get_default (od_get cs) g 0) q)))"

definition mb_ok :: "'w memory_bus \<Rightarrow> bool" where
  "mb_ok b \<longleftrightarrow> (\<forall>topic. topic_ok (mb_seq b) (stream b topic) (cursors b topic) (pel b topic))"

lemma mb_ok_new: "mb_ok new_bus"
  by (simp add: mb_ok_def new_bus_def topic_ok_def)

lemma cursor_le: "topic_ok seq q cs p \<Longrightarrow> get_default (od_get cs) g 0 \<le> length q"
  by (cases "od_get cs g") (auto simp: topic_ok_def dest!: map_of_SomeD)

lemma topic_ok_ids: "topic_ok seq q cs p \<Longrightarrow> distinct (map e_id q)"
  unfolding topic_ok_def using strict_sorted_iff by blast

text \<open>What a group is still owed: the entries past its cursor and those it has not acknowledged.\<close>

definition undelivered :: "'w memory_bus \<Rightarrow> string \<Rightarrow> string \<Rightarrow> 'w stream_entry list" where
  "undelivered b topic g = drop (cursor b topic g) (stream b topic)"

definition pending_ids :: "'w memory_bus \<Rightarrow> string \<Rightarrow> string \<Rightarrow> nat set" where
  "pending_ids b topic g = set (map fst (pel b topic g))"

definition owed :: "'w memory_bus \<Rightarrow> string \<Rightarrow> string \<Rightarrow> nat set" where
  "owed b topic g = set (map e_id (undelivered b topic g)) \<union> pending_ids b topic g"

subsection \<open>Produce\<close>

lemma produce_cases:
  assumes "produce dumps b topic key payload = Inr b'"
  obtains w k where "dumps payload = Some w" "wire_key key = Inr k"
    "b' = b\<lparr>mb_seq := mb_seq b + 1, mb_streams := (mb_streams b)(topic \<mapsto> stream b topic @
             [\<lparr>e_id = mb_seq b + 1, e_topic = topic, e_key = k, e_wire = w\<rparr>])\<rparr>"
  using assms by (auto simp: produce_def Let_def split: option.splits sum.splits)

lemma topic_ok_seq: "topic_ok seq q cs p \<Longrightarrow> seq \<le> seq' \<Longrightarrow> topic_ok seq' q cs p"
  by (force simp: topic_ok_def)

lemma topic_ok_snoc:
  assumes "topic_ok seq q cs p" "e_id e = seq + 1"
  shows "topic_ok (seq + 1) (q @ [e]) cs p"
proof -
  have "take (get_default (od_get cs) g 0) (q @ [e]) = take (get_default (od_get cs) g 0) q" for g
    using cursor_le [OF assms(1)] by simp
  with assms show ?thesis by (force simp: topic_ok_def sorted_wrt_append)
qed

lemma produce_spec:
  assumes ok: "mb_ok b" and res: "produce dumps b topic key payload = Inr b'"
  shows "mb_ok b'"
    and "owed b' topic g = insert (mb_seq b + 1) (owed b topic g)"
    and "t \<noteq> topic \<Longrightarrow> owed b' t g = owed b t g"
proof -
  obtain w k where b': "b' = b\<lparr>mb_seq := mb_seq b + 1, mb_streams := (mb_streams b)(topic \<mapsto>
      stream b topic @ [\<lparr>e_id = mb_seq b + 1, e_topic = topic, e_key = k, e_wire = w\<rparr>])\<rparr>"
    using produce_cases [OF res] by metis
  have t: "topic_ok (mb_seq b) (stream b t) (cursors b t) (pel b t)" for t
    using ok by (simp add: mb_ok_def)
  show "mb_ok b'"
    unfolding mb_ok_def
  proof
    fix t
    show "topic_ok (mb_seq b') (stream b' t) (cursors b' t) (pel b' t)"
      using topic_ok_snoc [OF t [of topic]] topic_ok_seq [OF t [of t]]
      by (cases "t = topic") (simp_all add: b')
  qed
  show "owed b' topic g = insert (mb_seq b + 1) (owed b topic g)"
    using cursor_le [OF t [of topic], of g] by (simp add: owed_def undelivered_def pending_ids_def b')
  show "t \<noteq> topic \<Longrightarrow> owed b' t g = owed b t g"
    by (simp add: owed_def undelivered_def pending_ids_def b')
qed

subsection \<open>Consume\<close>

lemma evict_over_cap_spec:
  assumes "evict_over_cap cap ev p = (p', n)"
  shows "set p' \<subseteq> set p" "\<And>e. e \<in> set p \<Longrightarrow> fst e \<notin> set ev \<Longrightarrow> e \<in> set p'"
    "od_wf p \<Longrightarrow> od_wf p'" "n \<noteq> 0 \<Longrightarrow> cap < length p"
  using assms
proof (induction ev arbitrary: p p' n)
  case (Cons i ev)
  {
    case 1
    with Cons.IH(1) [of "od_del p i"] show ?case
      by (fastforce simp: od_del_def split: if_splits prod.splits)
  next
    case 2
    with Cons.IH(2) [of _ "od_del p i"] show ?case
      by (fastforce simp: od_del_def split: if_splits prod.splits)
  next
    case 3
    with Cons.IH(3) [of "od_del p i"] show ?case by (auto split: if_splits prod.splits)
  next
    case 4
    then show ?case by (auto split: if_splits)
  }
qed auto

lemma fold_pend_fresh:
  assumes "distinct (map e_id batch)" "set (map e_id batch) \<inter> fst ` set p = {}"
  shows "fold (\<lambda>m q. od_set q (e_id m) (m, now, 1)) batch p = p @ map (\<lambda>m. (e_id m, m, now, 1)) batch"
  using assms
proof (induction batch arbitrary: p)
  case (Cons m batch)
  have "od_set p (e_id m) (m, now, 1) = p @ [(e_id m, m, now, 1)]"
    using Cons.prems by (intro od_set_fresh) auto
  with Cons show ?case by simp
qed simp

lemma pend_batch_spec:
  assumes batch: "distinct (map e_id batch)" "set (map e_id batch) \<inter> fst ` set p = {}"
    and wf: "od_wf p" and res: "pend_batch cap now batch p = (p', n)"
  defines "all \<equiv> p @ map (\<lambda>m. (e_id m, m, now, 1)) batch"
  shows "set p' \<subseteq> set all" "set (map (\<lambda>m. (e_id m, m, now, 1)) batch) \<subseteq> set p'" "od_wf p'"
    "length p + length batch \<le> cap \<Longrightarrow> p' = all \<and> n = 0"
proof -
  let ?ev = "filter (\<lambda>i. i \<notin> set (map e_id batch)) (map fst all)"
  have fold: "fold (\<lambda>m q. od_set q (e_id m) (m, now, 1)) batch p = all"
    unfolding all_def by (rule fold_pend_fresh [OF batch])
  have wf_all: "od_wf all"
    using wf batch by (auto simp: all_def comp_def)
  have len: "length all = length p + length batch" by (simp add: all_def)
  have "(if length all > cap then evict_over_cap cap ?ev all = (p', n) else p' = all \<and> n = 0)"
    using res unfolding pend_batch_def Let_def fold by (auto split: if_splits)
  then consider "length all > cap" "evict_over_cap cap ?ev all = (p', n)"
    | "length all \<le> cap" "p' = all" "n = 0" by (auto split: if_splits)
  then have "set p' \<subseteq> set all \<and> set (map (\<lambda>m. (e_id m, m, now, 1)) batch) \<subseteq> set p' \<and> od_wf p' \<and>
      (length p + length batch \<le> cap \<longrightarrow> p' = all \<and> n = 0)"
  proof cases
    case 1
    note ev = evict_over_cap_spec [OF 1(2)]
    have "set (map (\<lambda>m. (e_id m, m, now, 1)) batch) \<subseteq> set p'"
      using ev(2) by (auto simp: all_def)
    with 1 ev wf_all len show ?thesis by simp
  next
    case 2
    with wf_all show ?thesis by (auto simp: all_def)
  qed
  then show "set p' \<subseteq> set all" "set (map (\<lambda>m. (e_id m, m, now, 1)) batch) \<subseteq> set p'" "od_wf p'"
    "length p + length batch \<le> cap \<Longrightarrow> p' = all \<and> n = 0" by simp_all
qed

lemma set_pel_simps [simp]:
  "mb_streams (set_pel b t g p) = mb_streams b" "mb_seq (set_pel b t g p) = mb_seq b"
  "mb_cursors (set_pel b t g p) = mb_cursors b"
  "pel (set_pel b t g p) t g = p"
  "t' \<noteq> t \<or> g' \<noteq> g \<Longrightarrow> pel (set_pel b t g p) t' g' = pel b t' g'"
  by (auto simp: set_pel_def get_default_def)

text \<open>A delivery to one group, in the terms the invariant needs.\<close>

lemma consume_cases:
  assumes "consume cap now b topic grp = (batch, b')"
  obtains "batch = []" "b' = b" "undelivered b topic (group_key grp) = []"
  | p n where "batch = undelivered b topic (group_key grp)" "batch \<noteq> []"
      "pend_batch cap now batch (pel b topic (group_key grp)) = (p, n)"
      "mb_streams b' = mb_streams b" "mb_seq b' = mb_seq b"
      "cursors b' topic = od_set (cursors b topic) (group_key grp) (length (stream b topic))"
      "\<And>t. t \<noteq> topic \<Longrightarrow> cursors b' t = cursors b t"
      "pel b' topic (group_key grp) = p"
      "\<And>t g. t \<noteq> topic \<or> g \<noteq> group_key grp \<Longrightarrow> pel b' t g = pel b t g"
proof (cases "cursor b topic (group_key grp) \<ge> length (stream b topic)")
  case True
  with assms that(1) show thesis by (simp add: consume_def undelivered_def Let_def)
next
  case False
  let ?g = "group_key grp"
  let ?b1 = "b\<lparr>mb_cursors := (mb_cursors b)(topic \<mapsto> od_set (cursors b topic) ?g (length (stream b topic)))\<rparr>"
  obtain p n where p: "pend_batch cap now (undelivered b topic ?g) (pel b topic ?g) = (p, n)" by fastforce
  have b': "batch = undelivered b topic ?g" "b' = (if n = 0 then set_pel ?b1 topic ?g p
      else set_pel ?b1 topic ?g p\<lparr>mb_evicted := od_set (mb_evicted (set_pel ?b1 topic ?g p)) (topic, ?g)
             (get_default (od_get (mb_evicted (set_pel ?b1 topic ?g p))) (topic, ?g) 0 + n)\<rparr>)"
    using assms False p by (auto simp: consume_def undelivered_def Let_def)
  have ne: "batch \<noteq> []" using False b'(1) by (simp add: undelivered_def)
  show thesis
    by (rule that(2) [OF b'(1) ne]) (use p b' in auto)
qed

lemma topic_ok_consume:
  assumes ok: "topic_ok seq q cs p" and q: "q \<noteq> []"
    and res: "pend_batch cap now (drop (get_default (od_get cs) g 0) q) (p g) = (p', n)"
  shows "topic_ok seq q (od_set cs g (length q)) (p(g := p'))"
    and "set (map e_id (drop (get_default (od_get cs) g 0) q)) \<inter> fst ` set (p g) = {}"
proof -
  let ?c = "get_default (od_get cs) g 0"
  have dist: "distinct (map e_id q)" using ok by (rule topic_ok_ids)
  have split: "map e_id (take ?c q) @ map e_id (drop ?c q) = map e_id q"
    by (simp flip: map_append)
  have pg: "od_wf (p g)" "\<forall>(i, m, t, n)\<in>set (p g). e_id m = i \<and> m \<in> set (take ?c q)"
    using ok by (auto simp: topic_ok_def)
  have "fst ` set (p g) \<subseteq> set (map e_id (take ?c q))" using pg(2) by force
  moreover have "set (map e_id (take ?c q)) \<inter> set (map e_id (drop ?c q)) = {}"
    using dist split by (metis distinct_append)
  ultimately show disj: "set (map e_id (drop ?c q)) \<inter> fst ` set (p g) = {}" by blast
  have "distinct (map e_id (drop ?c q))" using dist split by (metis distinct_append)
  note spec = pend_batch_spec [OF this disj pg(1) res]
  have new: "\<forall>(i, m, t, n)\<in>set p'. e_id m = i \<and> m \<in> set q"
  proof (clarify, intro conjI)
    fix i m t k assume "(i, m, t, k) \<in> set p'"
    with spec(1) consider "(i, m, t, k) \<in> set (p g)" | "i = e_id m" "m \<in> set (drop ?c q)" by auto
    then show "e_id m = i" "m \<in> set q" by (cases; use pg(2) in \<open>auto dest: in_set_takeD in_set_dropD\<close>)+
  qed
  have cs: "od_wf (od_set cs g (length q))" "\<forall>c\<in>set (map snd (od_set cs g (length q))). 0 < c \<and> c \<le> length q"
  proof -
    show wf: "od_wf (od_set cs g (length q))" using ok by (simp add: topic_ok_def)
    show "\<forall>c\<in>set (map snd (od_set cs g (length q))). 0 < c \<and> c \<le> length q"
    proof
      fix c assume "c \<in> set (map snd (od_set cs g (length q)))"
      then obtain h where "(h, c) \<in> set (od_set cs g (length q))" by auto
      with wf have "od_get (od_set cs g (length q)) h = Some c" by (rule map_of_is_SomeI)
      then have "c = length q \<or> od_get cs h = Some c" by (auto split: if_splits)
      with ok q show "0 < c \<and> c \<le> length q" by (auto simp: topic_ok_def dest!: map_of_SomeD)
    qed
  qed
  have ph: "od_wf ((p(g := p')) h) \<and>
      (\<forall>(i, m, t, n)\<in>set ((p(g := p')) h). e_id m = i \<and>
         m \<in> set (take (get_default (od_get (od_set cs g (length q))) h 0) q))" for h
    using ok spec(3) new by (cases "h = g") (auto simp: topic_ok_def)
  show "topic_ok seq q (od_set cs g (length q)) (p(g := p'))"
    unfolding topic_ok_def using ok cs ph by (simp add: topic_ok_def)
qed

lemma consume_spec:
  assumes ok: "mb_ok b" and res: "consume cap now b topic grp = (batch, b')"
  defines "g \<equiv> group_key grp"
  shows "mb_ok b'"
    and "batch = undelivered b topic g"
    and "undelivered b' topic g = []"
    and "set (map e_id batch) \<subseteq> pending_ids b' topic g"
    and "owed b' topic g \<subseteq> owed b topic g"
    and "length (pel b topic g) + length batch \<le> cap \<Longrightarrow> owed b' topic g = owed b topic g"
    and "t \<noteq> topic \<or> h \<noteq> g \<Longrightarrow> undelivered b' t h = undelivered b t h \<and> pel b' t h = pel b t h"
proof -
  have t_ok: "topic_ok (mb_seq b) (stream b t) (cursors b t) (pel b t)" for t
    using ok by (simp add: mb_ok_def)
  have "mb_ok b' \<and> batch = undelivered b topic g \<and> undelivered b' topic g = [] \<and>
    set (map e_id batch) \<subseteq> pending_ids b' topic g \<and> owed b' topic g \<subseteq> owed b topic g \<and>
    (length (pel b topic g) + length batch \<le> cap \<longrightarrow> owed b' topic g = owed b topic g) \<and>
    (t \<noteq> topic \<or> h \<noteq> g \<longrightarrow> undelivered b' t h = undelivered b t h \<and> pel b' t h = pel b t h)"
    using res
  proof (cases rule: consume_cases)
    case 1
    with ok show ?thesis by (simp add: g_def)
  next
    case (2 p n)
    note c = 2 [folded g_def]
    have q: "stream b topic \<noteq> []" using c(1,2) by (auto simp: undelivered_def)
    have pb: "pend_batch cap now (drop (get_default (od_get (cursors b topic)) g 0) (stream b topic))
        (pel b topic g) = (p, n)" using c(1,3) by (simp add: undelivered_def)
    note t' = topic_ok_consume [OF t_ok q pb]
    have pel': "pel b' topic = (pel b topic)(g := p)" using c(8,9) by auto
    have "mb_ok b'"
      unfolding mb_ok_def
    proof
      fix u
      show "topic_ok (mb_seq b') (stream b' u) (cursors b' u) (pel b' u)"
        using t'(1) t_ok [of u] c(4-7,9) pel' by (cases "u = topic") (simp_all add: ext)
    qed
    moreover have "undelivered b' topic g = []"
      using c(4,6) by (simp add: undelivered_def)
    moreover have "undelivered b' t h = undelivered b t h \<and> pel b' t h = pel b t h" if "t \<noteq> topic \<or> h \<noteq> g"
      using c(4,6,7,9) that by (cases "t = topic") (simp_all add: undelivered_def get_default_def)
    moreover have ids: "set (map e_id batch) \<inter> fst ` set (pel b topic g) = {}"
      using t'(2) c(1) by (simp add: undelivered_def)
    have "distinct (map e_id (take (cursor b topic g) (stream b topic) @ batch))"
      using topic_ok_ids [OF t_ok [of topic]] c(1) by (simp add: undelivered_def)
    then have "distinct (map e_id batch)" by simp
    note spec = pend_batch_spec [OF this ids _ c(3)]
    have wf: "od_wf (pel b topic g)" using t_ok [of topic] by (simp add: topic_ok_def)
    have pend': "pending_ids b' topic g = fst ` set p" using c(8) by (simp add: pending_ids_def)
    have "set (map e_id batch) \<subseteq> fst ` set p" using spec(2) [OF wf] by force
    moreover have "fst ` set p \<subseteq> pending_ids b topic g \<union> set (map e_id batch)"
      using spec(1) [OF wf] by (force simp: pending_ids_def)
    moreover have "fst ` set p = pending_ids b topic g \<union> set (map e_id batch)"
      if "length (pel b topic g) + length batch \<le> cap"
      using spec(4) [OF wf that] by (force simp: pending_ids_def)
    ultimately show ?thesis
      using c(1) pend' by (auto simp: owed_def)
  qed
  then show "mb_ok b'" "batch = undelivered b topic g" "undelivered b' topic g = []"
    "set (map e_id batch) \<subseteq> pending_ids b' topic g" "owed b' topic g \<subseteq> owed b topic g"
    "length (pel b topic g) + length batch \<le> cap \<Longrightarrow> owed b' topic g = owed b topic g"
    "t \<noteq> topic \<or> h \<noteq> g \<Longrightarrow> undelivered b' t h = undelivered b t h \<and> pel b' t h = pel b t h"
    by blast+
qed

subsection \<open>Acknowledge and claim\<close>

lemma ack_view:
  "pel (ack b topic i grp) t h = (if t = topic \<and> h = group_key grp then od_del (pel b t h) i else pel b t h)"
  "mb_streams (ack b topic i grp) = mb_streams b" "mb_cursors (ack b topic i grp) = mb_cursors b"
  "mb_seq (ack b topic i grp) = mb_seq b"
proof -
  show "pel (ack b topic i grp) t h = (if t = topic \<and> h = group_key grp then od_del (pel b t h) i else pel b t h)"
  proof (cases "mb_pel b topic")
    case (Some per_group)
    then show ?thesis by (cases "per_group (group_key grp)") (simp_all add: ack_def Let_def)
  qed (simp add: ack_def Let_def)
qed (simp_all add: ack_def Let_def split: option.split)

lemma topic_ok_pel:
  assumes ok: "topic_ok seq q cs p" and wf: "od_wf r"
    and sub: "\<forall>(i, m, t, n)\<in>set r. \<exists>t n. (i, m, t, n) \<in> set (p g)"
  shows "topic_ok seq q cs (p(g := r))"
proof -
  have "e_id m = i \<and> m \<in> set (take (get_default (od_get cs) g 0) q)" if r: "(i, m, t, n) \<in> set r" for i m t n
  proof -
    obtain t' n' where "(i, m, t', n') \<in> set (p g)" using r sub by blast
    moreover have "\<forall>(i, m, t, n)\<in>set (p g). e_id m = i \<and> m \<in> set (take (get_default (od_get cs) g 0) q)"
      using ok by (simp add: topic_ok_def)
    ultimately show ?thesis by blast
  qed
  then have "\<forall>(i, m, t, n)\<in>set r. e_id m = i \<and> m \<in> set (take (get_default (od_get cs) g 0) q)"
    by blast
  with ok wf show ?thesis by (simp add: topic_ok_def)
qed

lemma ack_spec:
  assumes "mb_ok b"
  shows "mb_ok (ack b topic i grp)"
    and "undelivered (ack b topic i grp) t h = undelivered b t h"
    and "pending_ids (ack b topic i grp) t h =
           (if t = topic \<and> h = group_key grp then pending_ids b t h - {i} else pending_ids b t h)"
proof -
  show "mb_ok (ack b topic i grp)"
    unfolding mb_ok_def
  proof
    fix t
    have ok: "topic_ok (mb_seq b) (stream b t) (cursors b t) (pel b t)" using assms by (simp add: mb_ok_def)
    let ?p = "(pel b t)(group_key grp := od_del (pel b t (group_key grp)) i)"
    have "topic_ok (mb_seq b) (stream b t) (cursors b t) ?p"
      using ok by (intro topic_ok_pel [OF ok] od_wf_del) (auto simp: topic_ok_def od_del_def)
    moreover have "pel (ack b topic i grp) t = (if t = topic then ?p else pel b t)"
      by (rule ext) (simp add: ack_view(1))
    ultimately show "topic_ok (mb_seq (ack b topic i grp)) (stream (ack b topic i grp) t)
        (cursors (ack b topic i grp) t) (pel (ack b topic i grp) t)"
      unfolding ack_view(2,3,4) using ok by (cases "t = topic") auto
  qed
  show "undelivered (ack b topic i grp) t h = undelivered b t h"
    by (simp add: undelivered_def ack_view)
  show "pending_ids (ack b topic i grp) t h =
      (if t = topic \<and> h = group_key grp then pending_ids b t h - {i} else pending_ids b t h)"
    by (auto simp: pending_ids_def ack_view od_del_def)
qed

lemma claim_spec:
  assumes ok: "mb_ok b" and res: "claim_pending now b topic grp min_idle = (claimed, b')"
  shows "mb_ok b'"
    and "undelivered b' t h = undelivered b t h"
    and "pending_ids b' t h = pending_ids b t h"
    and "(m, n) \<in> set claimed \<Longrightarrow> e_id m \<in> pending_ids b topic (group_key grp)"
proof -
  let ?g = "group_key grp"
  let ?r = "map (\<lambda>(i, m, t, n). if idle now min_idle t then (i, m, now, n + 1) else (i, m, t, n)) (pel b topic ?g)"
  have b': "b' = (if pel b topic ?g = [] then b else set_pel b topic ?g ?r)"
    "claimed = map (\<lambda>(i, m, t, n). (m, n + 1)) (filter (\<lambda>(i, m, t, n). idle now min_idle t) (pel b topic ?g))"
    using res by (auto simp: claim_pending_def Let_def split: if_splits)
  have t_ok: "topic_ok (mb_seq b) (stream b t) (cursors b t) (pel b t)" for t
    using ok by (simp add: mb_ok_def)
  have keys: "map fst ?r = map fst (pel b topic ?g)" by (auto simp: split_def)
  have "topic_ok (mb_seq b) (stream b topic) (cursors b topic) ((pel b topic)(?g := ?r))"
  proof (rule topic_ok_pel [OF t_ok])
    show "od_wf ?r" unfolding keys using t_ok [of topic] by (simp add: topic_ok_def)
    show "\<forall>(i, m, t, n)\<in>set ?r. \<exists>t n. (i, m, t, n) \<in> set (pel b topic ?g)"
      by (fastforce split: if_splits)
  qed
  moreover have "pel (set_pel b topic ?g ?r) topic = (pel b topic)(?g := ?r)"
    by (rule ext) (simp add: set_pel_def)
  ultimately have "topic_ok (mb_seq b') (stream b' t) (cursors b' t) (pel b' t)" for t
    using t_ok [of t] unfolding b'(1) by (cases "t = topic") (simp_all add: set_pel_def)
  then show "mb_ok b'" by (simp add: mb_ok_def)
  show "undelivered b' t h = undelivered b t h" unfolding b'(1) by (simp add: undelivered_def)
  have "map fst (pel b' t h) = map fst (pel b t h)"
  proof (cases "pel b topic ?g \<noteq> [] \<and> t = topic \<and> h = ?g")
    case True
    then show ?thesis unfolding b'(1) by (simp only: set_pel_simps(4) keys if_False not_False_eq_True simp_thms)
  next
    case False
    then show ?thesis unfolding b'(1) by auto
  qed
  then show "pending_ids b' t h = pending_ids b t h" by (simp only: pending_ids_def)
  show "e_id m \<in> pending_ids b topic ?g" if c: "(m, n) \<in> set claimed"
  proof -
    obtain i t k where i: "(i, m, t, k) \<in> set (pel b topic ?g)" using c unfolding b'(2) by auto
    with t_ok [of topic] have "e_id m = i" unfolding topic_ok_def by blast
    with i show ?thesis by (force simp: pending_ids_def)
  qed
qed

subsection \<open>Trim\<close>

lemma acked_prefix_spec:
  "acked_prefix n unacked q \<le> n \<and> acked_prefix n unacked q \<le> length q \<and>
   (\<forall>e\<in>set (take (acked_prefix n unacked q) q). e_id e \<notin> unacked)"
  by (induction n unacked q rule: acked_prefix.induct) auto

lemma take_subset_le: "k \<le> l \<Longrightarrow> set (take k q) \<subseteq> set (take l q)"
  by (rule set_take_subset_set_take)

lemma trim_fold_spec:
  fixes q :: "'w stream_entry list" and S :: "string \<Rightarrow> nat set"
  defines "f \<equiv> \<lambda>(g, c) k. if k = 0 then k else min k (acked_prefix (min c k) (S g) q)"
  shows "fold f cs k \<le> k \<and>
         (\<forall>(g, c)\<in>set cs. \<forall>e\<in>set (take (fold f cs k) q). e_id e \<notin> S g)"
proof (induction cs arbitrary: k)
  case (Cons gc cs)
  obtain g c where gc: "gc = (g, c)" by (cases gc)
  let ?k = "f (g, c) k" and ?r = "fold f cs (f (g, c) k)"
  have "\<forall>e\<in>set (take ?k q). e_id e \<notin> S g"
  proof (cases "k = 0")
    case False
    then have "?k \<le> acked_prefix (min c k) (S g) q" by (simp add: f_def)
    from take_subset_le [OF this, of q] acked_prefix_spec [of "min c k" "S g" q]
    show ?thesis by (meson subsetD)
  qed (simp add: f_def)
  moreover have "?k \<le> k" by (simp add: f_def)
  moreover have r: "?r \<le> ?k" "\<forall>(g, c)\<in>set cs. \<forall>e\<in>set (take ?r q). e_id e \<notin> S g"
    using Cons.IH [of ?k] by blast+
  moreover have "set (take ?r q) \<subseteq> set (take ?k q)" by (rule take_subset_le [OF r(1)])
  ultimately have "?r \<le> k" "\<forall>e\<in>set (take ?r q). e_id e \<notin> S g" by (blast intro: order.trans)+
  moreover have "fold f (gc # cs) k = ?r" by (simp add: gc)
  ultimately show ?case using r(2) by (simp add: gc)
qed simp

lemma trim_bound_spec:
  assumes "(g, c) \<in> set (cursors b topic)"
  shows "trim_bound b topic \<le> c"
    and "\<forall>e\<in>set (take (trim_bound b topic) (stream b topic)). e_id e \<notin> pending_ids b topic g"
proof -
  let ?cs = "cursors b topic"
  let ?f = "\<lambda>(g, c) k. if k = 0 then k
      else min k (acked_prefix (min c k) (pending_ids b topic g) (stream b topic))"
  have eq: "trim_bound b topic = fold ?f ?cs (Min (set (map snd ?cs)))"
    unfolding trim_bound_def pending_ids_def Let_def ..
  note fold = trim_fold_spec [of "pending_ids b topic" "stream b topic" ?cs "Min (set (map snd ?cs))"]
  have "Min (set (map snd ?cs)) \<le> c" using assms by (force intro: Min_le)
  with fold show "trim_bound b topic \<le> c" unfolding eq by linarith
  show "\<forall>e\<in>set (take (trim_bound b topic) (stream b topic)). e_id e \<notin> pending_ids b topic g"
    using fold assms unfolding eq by blast
qed

lemma od_get_trim:
  "od_wf cs \<Longrightarrow> get_default (od_get (map (\<lambda>(g, c). (g, c - k)) (filter (\<lambda>(g, c). k < c) cs))) g 0
     = get_default (od_get cs) g 0 - (k :: nat)"
proof (induction cs)
  case (Cons gc cs)
  obtain h c where gc: "gc = (h, c)" by (cases gc)
  show ?case
  proof (cases "g = h")
    case True
    have "od_get (map (\<lambda>(g, c). (g, c - k)) (filter (\<lambda>(g, c). k < c) cs)) h = None"
      using Cons.prems gc by (auto simp: map_of_eq_None_iff image_iff split_def)
    with True gc show ?thesis by (auto simp: get_default_def)
  next
    case False
    with Cons gc show ?thesis by (auto simp: get_default_def)
  qed
qed simp

lemma topic_ok_trim:
  assumes ok: "topic_ok seq q cs p" and cs: "cs \<noteq> []"
    and k: "\<And>g c. (g, c) \<in> set cs \<Longrightarrow> k \<le> c"
    and acked: "\<And>g c e. (g, c) \<in> set cs \<Longrightarrow> e \<in> set (take k q) \<Longrightarrow> e_id e \<notin> set (map fst (p g))"
  shows "topic_ok seq (drop k q) (map (\<lambda>(g, c). (g, c - k)) (filter (\<lambda>(g, c). k < c) cs)) p"
proof -
  let ?cs = "map (\<lambda>(g, c). (g, c - k)) (filter (\<lambda>(g, c). k < c) cs)"
  have wf: "od_wf cs" using ok by (simp add: topic_ok_def)
  have "map fst ?cs = map fst (filter (\<lambda>(g, c). k < c) cs)" by auto
  then have wf': "od_wf ?cs" using wf by (metis distinct_map_filter)
  have range: "\<forall>c\<in>set (map snd ?cs). 0 < c \<and> c \<le> length (drop k q)"
    using ok by (force simp: topic_ok_def)
  have sorted: "sorted_wrt (<) (map e_id (drop k q))"
    using ok unfolding topic_ok_def drop_map [symmetric] by (simp add: sorted_wrt_drop)
  have p: "\<forall>(i, m, t, n)\<in>set (p g). e_id m = i \<and> m \<in> set (take (get_default (od_get ?cs) g 0) (drop k q))" for g
  proof clarify
    fix i m t n assume that: "(i, m, t, n) \<in> set (p g)"
    have "\<forall>(i, m, t, n)\<in>set (p g). e_id m = i \<and> m \<in> set (take (get_default (od_get cs) g 0) q)"
      using ok by (simp add: topic_ok_def)
    with that have i: "e_id m = i" "m \<in> set (take (get_default (od_get cs) g 0) q)" by blast+
    then obtain c where c: "od_get cs g = Some c" by (cases "od_get cs g") auto
    have "m \<notin> set (take k q)"
      using acked [OF map_of_SomeD [OF c], of m] that i(1) by force
    moreover have "take c q = take k q @ take (c - k) (drop k q)"
      using k [OF map_of_SomeD [OF c]] by (metis le_add_diff_inverse take_add)
    ultimately have "m \<in> set (take (c - k) (drop k q))" using i(2) c by auto
    then show "e_id m = i \<and> m \<in> set (take (get_default (od_get ?cs) g 0) (drop k q))"
      using i(1) c by (simp add: od_get_trim [OF wf])
  qed
  have le: "\<forall>e\<in>set (drop k q). e_id e \<le> seq" using ok by (auto simp: topic_ok_def dest: in_set_dropD)
  have "od_wf (p g)" for g using ok by (simp add: topic_ok_def)
  with sorted wf' range p le show ?thesis unfolding topic_ok_def by (intro conjI allI)
qed

lemma trim_cases:
  assumes "trim_acked b topic = (k, b')"
  shows "k = 0 \<and> b' = b \<or> k \<noteq> 0 \<and> k = trim_bound b topic \<and> cursors b topic \<noteq> [] \<and>
    b' = b\<lparr>mb_streams := (mb_streams b)(topic \<mapsto> drop k (stream b topic)),
        mb_cursors := (mb_cursors b)(topic \<mapsto>
          map (\<lambda>(g, c). (g, c - k)) (filter (\<lambda>(g, c). k < c) (cursors b topic)))\<rparr>"
proof (cases "stream b topic = [] \<or> cursors b topic = []")
  case True
  with assms show ?thesis by (simp add: trim_acked_def Let_def)
next
  case False
  with assms show ?thesis by (cases "trim_bound b topic = 0") (simp_all add: trim_acked_def Let_def, force)
qed

lemma trim_spec:
  assumes ok: "mb_ok b" and res: "trim_acked b topic = (k, b')"
  shows "mb_ok b'"
    and "pel b' t h = pel b t h"
    and "t \<noteq> topic \<Longrightarrow> undelivered b' t h = undelivered b t h"
    and "h \<in> fst ` set (cursors b topic) \<Longrightarrow> undelivered b' topic h = undelivered b topic h"
    and "stream b' topic = drop k (stream b topic)"
    and "h \<in> fst ` set (cursors b topic) \<Longrightarrow> k \<le> cursor b topic h \<and>
           (\<forall>e\<in>set (take k (stream b topic)). e_id e \<notin> pending_ids b topic h)"
proof -
  let ?cs = "cursors b topic" and ?q = "stream b topic"
  let ?cs' = "map (\<lambda>(g, c). (g, c - k)) (filter (\<lambda>(g, c). k < c) ?cs)"
  have t_ok: "topic_ok (mb_seq b) (stream b t) (cursors b t) (pel b t)" for t
    using ok by (simp add: mb_ok_def)
  then have wf: "od_wf ?cs" by (simp add: topic_ok_def)
  have bound: "k \<le> c \<and> (\<forall>e\<in>set (take k ?q). e_id e \<notin> pending_ids b topic g)"
    if "(g, c) \<in> set ?cs" for g c
    using trim_bound_spec [OF that] trim_cases [OF res] by auto
  note cases = trim_cases [OF res]
  show "pel b' t h = pel b t h" using cases by auto
  show "stream b' topic = drop k ?q" using cases by auto
  show "t \<noteq> topic \<Longrightarrow> undelivered b' t h = undelivered b t h"
    using cases by (auto simp: undelivered_def)
  show "mb_ok b'"
    using cases
  proof
    assume 2: "k \<noteq> 0 \<and> k = trim_bound b topic \<and> ?cs \<noteq> [] \<and>
      b' = b\<lparr>mb_streams := (mb_streams b)(topic \<mapsto> drop k ?q), mb_cursors := (mb_cursors b)(topic \<mapsto> ?cs')\<rparr>"
    have "topic_ok (mb_seq b) (drop k ?q) ?cs' (pel b topic)"
      using bound 2 by (intro topic_ok_trim [OF t_ok]) (auto simp: pending_ids_def)
    with t_ok 2 show ?thesis by (simp add: mb_ok_def)
  qed (use ok in simp)
  assume "h \<in> fst ` set ?cs"
  then obtain c where "(h, c) \<in> set ?cs" by force
  with bound [OF this] wf
  show k: "k \<le> cursor b topic h \<and> (\<forall>e\<in>set (take k ?q). e_id e \<notin> pending_ids b topic h)"
    by simp
  show "undelivered b' topic h = undelivered b topic h"
    using cases k by (auto simp: undelivered_def od_get_trim [OF wf])
qed

subsection \<open>Runs of the bus\<close>

text \<open>The operations of producers, consumer groups and the reaper, in the order they take effect.\<close>

datatype 'p bus_op =
    Produce string bus_key 'p
  | Consume rat string "string option"
  | Ack string nat "string option"
  | Claim rat string "string option" nat
  | Trim string

definition bus_step :: "('p \<Rightarrow> 'w option) \<Rightarrow> nat \<Rightarrow> 'w memory_bus \<Rightarrow> 'p bus_op \<Rightarrow> 'w memory_bus" where
  "bus_step dumps cap b opr =
     (case opr of
        Produce t k p \<Rightarrow> (case produce dumps b t k p of Inl _ \<Rightarrow> b | Inr b' \<Rightarrow> b')
      | Consume now t g \<Rightarrow> snd (consume cap now b t g)
      | Ack t i g \<Rightarrow> ack b t i g
      | Claim now t g min_idle \<Rightarrow> snd (claim_pending now b t g min_idle)
      | Trim t \<Rightarrow> snd (trim_acked b t))"

definition bus_run :: "('p \<Rightarrow> 'w option) \<Rightarrow> nat \<Rightarrow> 'w memory_bus \<Rightarrow> 'p bus_op list \<Rightarrow> 'w memory_bus" where
  "bus_run dumps cap b ops = fold (\<lambda>opr b. bus_step dumps cap b opr) ops b"

lemma mb_ok_step [inv_intros]:
  assumes "mb_ok b"
  shows "mb_ok (bus_step dumps cap b opr)"
proof (cases opr)
  case (Produce t k p)
  with assms produce_spec(1) [OF assms, of dumps t k p] show ?thesis
    by (simp add: bus_step_def split: sum.split)
qed (use assms in \<open>simp_all add: bus_step_def ack_spec(1) consume_spec(1) [OF _ surjective_pairing]
       claim_spec(1) [OF _ surjective_pairing] trim_spec(1) [OF _ surjective_pairing]\<close>)

lemma mb_ok_run: "mb_ok b \<Longrightarrow> mb_ok (bus_run dumps cap b ops)"
  unfolding bus_run_def by (induction ops arbitrary: b) (simp_all add: mb_ok_step)


text \<open>A group never has more pending and undelivered entries than the stream holds.\<close>

lemma owed_size:
  assumes "mb_ok b"
  shows "length (pel b t g) + length (undelivered b t g) \<le> length (stream b t)"
proof -
  have ok: "topic_ok (mb_seq b) (stream b t) (cursors b t) (pel b t)" using assms by (simp add: mb_ok_def)
  let ?c = "cursor b t g"
  have wf: "od_wf (pel b t g)"
    and "\<forall>(i, m, u, n)\<in>set (pel b t g). e_id m = i \<and> m \<in> set (take ?c (stream b t))"
    using ok by (simp_all add: topic_ok_def)
  then have "set (map fst (pel b t g)) \<subseteq> set (map e_id (take ?c (stream b t)))" by force
  then have "card (set (map fst (pel b t g))) \<le> card (set (map e_id (take ?c (stream b t))))"
    by (simp add: card_mono)
  also have "\<dots> \<le> ?c" by (rule order.trans [OF card_length]) simp
  finally have "length (pel b t g) \<le> ?c" using distinct_card [OF wf] by simp
  then show ?thesis using cursor_le [OF ok, of g] by (simp add: undelivered_def)
qed






subsection \<open>The contract the worker loop relies on\<close>

text \<open>
  The bus as one worker sees it, for a fixed topic and group: operations that may raise (None), the
  ids still owed to the group, and the states (\<open>good\<close>) in which a read evicts nothing.
\<close>

locale worker_bus =
  fixes claim :: "'b \<Rightarrow> (('m \<times> nat) list \<times> 'b) option"
    and read :: "'b \<Rightarrow> ('m list \<times> 'b) option"
    and ack_all :: "'b \<Rightarrow> 'm list \<Rightarrow> 'b option"
    and dead_letter :: "'b \<Rightarrow> 'm \<Rightarrow> nat \<Rightarrow> 'b option"
    and mid :: "'m \<Rightarrow> nat"
    and owes :: "'b \<Rightarrow> nat set"
    and good :: "'b \<Rightarrow> bool"
  assumes good_claim: "good b \<Longrightarrow> claim b = Some (es, b') \<Longrightarrow> good b'"
    and good_read: "good b \<Longrightarrow> read b = Some (ms, b') \<Longrightarrow> good b'"
    and good_ack: "good b \<Longrightarrow> ack_all b ms = Some b' \<Longrightarrow> good b'"
    and good_dead: "good b \<Longrightarrow> dead_letter b m n = Some b' \<Longrightarrow> good b'"
    and owes_claim: "good b \<Longrightarrow> claim b = Some (es, b') \<Longrightarrow> owes b' = owes b"
    and owes_read: "good b \<Longrightarrow> read b = Some (ms, b') \<Longrightarrow> owes b' = owes b"
    and owes_ack: "good b \<Longrightarrow> ack_all b ms = Some b' \<Longrightarrow> owes b - mid ` set ms \<subseteq> owes b'"
    and owes_dead: "good b \<Longrightarrow> dead_letter b m n = Some b' \<Longrightarrow> owes b' = owes b"

subsection \<open>Properties\<close>


definition one_message :: "nat memory_bus" where
  "one_message = bus_run Some 5 new_bus [Produce ''t'' KNone 7]"


text \<open>A read hands the group exactly its undelivered suffix, once and in stream order, and puts
  every entry handed out in that group's pending list (the cap never evicts what is in flight);
  cursors and pending lists of every other group and topic do not move (fan-out).\<close>

theorem consume_delivers:
  assumes "mb_ok b" "consume cap now b topic grp = (batch, b')"
  shows "batch = undelivered b topic (group_key grp) \<and> undelivered b' topic (group_key grp) = [] \<and>
         set (map e_id batch) \<subseteq> pending_ids b' topic (group_key grp) \<and>
         (\<forall>t h. t \<noteq> topic \<or> h \<noteq> group_key grp \<longrightarrow>
            undelivered b' t h = undelivered b t h \<and> pel b' t h = pel b t h)"
  using consume_spec(2,3,4,7) [OF assms] by blast

theorem consume_delivers_witness:
  "map e_id (fst (consume 5 0 one_message ''t'' None)) = [1] \<and>
   undelivered (snd (consume 5 0 one_message ''t'' None)) ''t'' ''cg-default'' = []"
proof -
  have "mb_ok one_message" unfolding one_message_def by (rule mb_ok_run [OF mb_ok_new])
  from consume_delivers [OF this surjective_pairing, of 5 0 "''t''" None]
  have "undelivered (snd (consume 5 0 one_message ''t'' None)) ''t'' ''cg-default'' = []"
    by (simp add: group_key_def)
  moreover have "map e_id (fst (consume 5 0 one_message ''t'' None)) = [1]" by code_simp
  ultimately show ?thesis by simp
qed

text \<open>One trim of the acked front is safe: it removes only leading entries that every group
  with a cursor has read and acknowledged, so what those groups are still owed, and the pending
  lists, are unchanged.\<close>

theorem trim_safe:
  assumes "mb_ok b" "trim_acked b topic = (k, b')" "h \<in> fst ` set (cursors b topic)"
  shows "stream b' topic = drop k (stream b topic) \<and> k \<le> cursor b topic h \<and>
         (\<forall>e\<in>set (take k (stream b topic)). e_id e \<notin> owed b topic h) \<and>
         owed b' topic h = owed b topic h \<and> mb_ok b'"
proof -
  note spec = trim_spec [OF assms(1,2)]
  have ok: "topic_ok (mb_seq b) (stream b topic) (cursors b topic) (pel b topic)"
    using assms(1) by (simp add: mb_ok_def)
  have k: "k \<le> cursor b topic h"
    "\<forall>e\<in>set (take k (stream b topic)). e_id e \<notin> pending_ids b topic h"
    using spec(6) [OF assms(3)] by blast+
  let ?c = "cursor b topic h"
  have "distinct (map e_id (take ?c (stream b topic)) @ map e_id (undelivered b topic h))"
    using topic_ok_ids [OF ok] by (simp add: undelivered_def flip: map_append)
  then have "e_id e \<notin> set (map e_id (undelivered b topic h))" if "e \<in> set (take k (stream b topic))" for e
    using that subsetD [OF take_subset_le [OF k(1)]] by fastforce
  with k spec(1,2,4,5) assms(3) show ?thesis by (auto simp: owed_def pending_ids_def)
qed

definition acked_bus :: "nat memory_bus" where
  "acked_bus = bus_run Some 5 new_bus
     [Produce ''t'' KNone 1, Produce ''t'' KNone 2, Produce ''t'' KNone 3,
      Consume 0 ''t'' (Some ''a''),
      Produce ''t'' KNone 4, Produce ''t'' KNone 5,
      Consume 0 ''t'' (Some ''b''),
      Ack ''t'' 1 (Some ''a''), Ack ''t'' 2 (Some ''a''), Ack ''t'' 3 (Some ''a''),
      Ack ''t'' 1 (Some ''b''), Ack ''t'' 2 (Some ''b''), Ack ''t'' 3 (Some ''b''),
      Ack ''t'' 4 (Some ''b''), Ack ''t'' 5 (Some ''b'')]"

theorem trim_safe_witness:
  "fst (trim_acked acked_bus ''t'') = 3 \<and> owed (snd (trim_acked acked_bus ''t'')) ''t'' ''a'' = {4, 5}"
proof -
  have ok: "mb_ok acked_bus" unfolding acked_bus_def by (rule mb_ok_run [OF mb_ok_new])
  have "''a'' \<in> fst ` set (cursors acked_bus ''t'')" by code_simp
  from trim_safe [OF ok surjective_pairing this]
  have "owed (snd (trim_acked acked_bus ''t'')) ''t'' ''a'' = owed acked_bus ''t'' ''a''" by simp
  moreover have "owed acked_bus ''t'' ''a'' = {4, 5}" by code_simp
  moreover have "fst (trim_acked acked_bus ''t'') = 3" by code_simp
  ultimately show ?thesis by simp
qed

text \<open>Two trims in a row are not safe. The first trim removes the cursor of a group whose whole
  prefix is gone, which unregisters the group; the second trim then no longer sees it and removes
  entries it was never given. Group a has read and acknowledged entries 1 to 3 of five, group b all
  five; after two trims the stream is empty and entries 4 and 5 never reach a.\<close>

theorem trim_twice_loses:
  "mb_ok acked_bus \<and> owed acked_bus ''t'' ''a'' = {4, 5} \<and>
   (let b = snd (trim_acked (snd (trim_acked acked_bus ''t'')) ''t'')
    in owed b ''t'' ''a'' = {} \<and> fst (consume 5 1 b ''t'' (Some ''a'')) = [])"
proof -
  let ?b = "snd (trim_acked (snd (trim_acked acked_bus ''t'')) ''t'')"
  have "mb_ok acked_bus" unfolding acked_bus_def by (rule mb_ok_run [OF mb_ok_new])
  moreover have "owed acked_bus ''t'' ''a'' = {4, 5}" by code_simp
  moreover have "owed ?b ''t'' ''a'' = {}" by code_simp
  moreover have "fst (consume 5 1 ?b ''t'' (Some ''a'')) = []" by code_simp
  ultimately show ?thesis by (simp only: Let_def)
qed

text \<open>A boundary only moves down while the groups are folded into it.\<close>

abbreviation id_le :: "stream_id \<Rightarrow> stream_id \<Rightarrow> bool" where
  "id_le a b \<equiv> \<not> stream_id_lt b a"

definition group_done_at :: "stream_id \<Rightarrow> group_info \<Rightarrow> bool" where
  "group_done_at s g \<longleftrightarrow>
     (case g_pending g of
        None \<Rightarrow> False
      | Some (n, min_id) \<Rightarrow>
          if n \<noteq> 0 then (\<forall>i. min_id = Some i \<longrightarrow> id_le s i)
          else (\<exists>l. g_last g = Some l \<and> (\<forall>i. stream_id_lt i s \<longrightarrow> id_le i l)))"

lemma id_le_trans: "id_le a b \<Longrightarrow> id_le b c \<Longrightarrow> id_le a c"
  by (auto simp: stream_id_lt_def)

lemma lt_next_le: "stream_id_lt i s \<Longrightarrow> id_le s (next_stream_id l) \<Longrightarrow> id_le i l"
  by (auto simp: stream_id_lt_def next_stream_id_def)

lemma lower_boundary_le:
  "id_le (lower_boundary safe b) b" "safe = Some s' \<Longrightarrow> id_le (lower_boundary safe b) s'"
  by (auto simp: lower_boundary_def stream_id_lt_def split: option.split)

lemma redis_boundary_spec:
  assumes "redis_boundary gs safe = Inr (Some s)"
  shows "(\<forall>s'. safe = Some s' \<longrightarrow> id_le s s') \<and>
         (\<forall>g\<in>set gs. g_name g \<noteq> None \<and> g_name g \<noteq> Some [] \<longrightarrow> group_done_at s g)"
  using assms
proof (induction gs arbitrary: safe)
  case Nil
  then show ?case by (simp add: stream_id_lt_def)
next
  case (Cons g gs)
  have lower: "(\<forall>s'. safe = Some s' \<longrightarrow> id_le s s') \<and> id_le s i \<and>
      (\<forall>g\<in>set gs. g_name g \<noteq> None \<and> g_name g \<noteq> Some [] \<longrightarrow> group_done_at s g)"
    if "redis_boundary gs (Some (lower_boundary safe i)) = Inr (Some s)" for i
  proof -
    have "id_le s (lower_boundary safe i)"
      "\<forall>g\<in>set gs. g_name g \<noteq> None \<and> g_name g \<noteq> Some [] \<longrightarrow> group_done_at s g"
      using Cons.IH [OF that] by blast+
    then show ?thesis using lower_boundary_le id_le_trans by blast
  qed
  show ?case
  proof (cases "g_name g = None \<or> g_name g = Some []")
    case True
    with Cons show ?thesis by auto
  next
    case False
    obtain n m where p: "g_pending g = Some (n, m)"
      using Cons.prems False by (cases "g_pending g") auto
    show ?thesis
    proof (cases "n = 0")
      case True
      then obtain l where l: "g_last g = Some l"
        using Cons.prems False p by (cases "g_last g") auto
      with Cons.prems False p True
      have "redis_boundary gs (Some (lower_boundary safe (next_stream_id l))) = Inr (Some s)" by simp
      note low = lower [OF this]
      have "\<forall>i. stream_id_lt i s \<longrightarrow> id_le i l" using low lt_next_le by blast
      then have "group_done_at s g" by (simp add: group_done_at_def p l True)
      with low show ?thesis by simp
    next
      case n: False
      show ?thesis
      proof (cases m)
        case None
        with Cons.prems False p n have "redis_boundary gs safe = Inr (Some s)" by simp
        note low = Cons.IH [OF this]
        have "group_done_at s g" by (simp add: group_done_at_def p n None)
        with low show ?thesis by simp
      next
        case (Some i)
        with Cons.prems False p n
        have "redis_boundary gs (Some (lower_boundary safe i)) = Inr (Some s)" by simp
        note low = lower [OF this]
        then have "group_done_at s g" by (simp add: group_done_at_def p n Some)
        with low show ?thesis by simp
      qed
    qed
  qed
qed

text \<open>The id the Redis backend trims below is safe for every named group the server reports: it
  is not above the smallest pending id of a group that has pending entries, and everything below it
  was delivered to a group that has none. If the pending list of one group cannot be read, or its
  last id is missing, nothing is trimmed.\<close>

theorem redis_trim_safe:
  assumes "redis_trim_boundary gs = Some s" "g \<in> set gs" "g_name g \<noteq> None" "g_name g \<noteq> Some []"
  shows "group_done_at s g"
proof -
  have "redis_boundary gs None = Inr (Some s)"
    using assms(1) by (auto simp: redis_trim_boundary_def split: if_splits sum.splits)
  from redis_boundary_spec [OF this] assms show ?thesis by blast
qed

theorem redis_trim_safe_witness:
  "redis_trim_boundary [\<lparr>g_name = Some ''a'', g_pending = Some (2, Some (5, 0)), g_last = Some (9, 1)\<rparr>,
     \<lparr>g_name = Some ''b'', g_pending = Some (0, None), g_last = Some (7, 3)\<rparr>] = Some (5, 0) \<and>
   group_done_at (5, 0) \<lparr>g_name = Some ''b'', g_pending = Some (0, None), g_last = Some (7, 3)\<rparr>"
  (is "redis_trim_boundary ?gs = _ \<and> group_done_at _ ?g")
proof -
  have "redis_trim_boundary ?gs = Some (5, 0)" by code_simp
  from redis_trim_safe [OF this, of ?g] this show ?thesis by simp
qed

subsection \<open>The memory bus keeps the contract\<close>

definition mem_dead_letter ::
    "(string \<Rightarrow> 'w stream_entry \<Rightarrow> nat \<Rightarrow> 'w) \<Rightarrow> string \<Rightarrow> 'w memory_bus \<Rightarrow> 'w stream_entry \<Rightarrow> nat \<Rightarrow>
     'w memory_bus option" where
  "mem_dead_letter wrap topic b m n =
     (case produce Some b (topic @ ''.deadletter'') (KStr (e_key m)) (wrap topic m n) of
        Inl _ \<Rightarrow> None | Inr b' \<Rightarrow> Some b')"

lemma ack_batch_spec:
  "mb_ok b \<Longrightarrow> mb_ok (ack_batch b ms grp) \<and> undelivered (ack_batch b ms grp) t h = undelivered b t h \<and>
     pending_ids (ack_batch b ms grp) t h =
       (if h = group_key grp then pending_ids b t h - {i. (t, i) \<in> set ms} else pending_ids b t h)"
  unfolding ack_batch_def
proof (induction ms arbitrary: b)
  case (Cons m ms)
  from Cons.IH [OF ack_spec(1) [OF Cons.prems]] ack_spec(2,3) [OF Cons.prems] show ?case
    by (cases m) auto
qed simp

definition mem_good :: "nat \<Rightarrow> string \<Rightarrow> 'w memory_bus \<Rightarrow> bool" where
  "mem_good cap topic b \<longleftrightarrow> mb_ok b \<and> length (stream b topic) \<le> cap"

interpretation mem: worker_bus
  "\<lambda>b. Some (claim_pending now b topic grp min_idle)" "\<lambda>b. Some (consume cap now' b topic grp)"
  "\<lambda>b ms. Some (ack_batch b (map (\<lambda>m. (topic, e_id m)) ms) grp)" "mem_dead_letter wrap topic" e_id
  "\<lambda>b. owed b topic (group_key grp)" "mem_good cap topic"
  for now now' :: rat and topic :: string and grp :: "string option" and min_idle cap :: nat
    and wrap :: "string \<Rightarrow> 'w stream_entry \<Rightarrow> nat \<Rightarrow> 'w"
proof
  fix b b' :: "'w memory_bus" and es ms m n
  assume good: "mem_good cap topic b"
  then have ok: "mb_ok b" and room: "length (stream b topic) \<le> cap" by (simp_all add: mem_good_def)
  show "mem_good cap topic b'" if "Some (claim_pending now b topic grp min_idle) = Some (es, b')"
  proof -
    have c: "claim_pending now b topic grp min_idle = (es, b')" using that by simp
    then have "mb_streams b' = mb_streams b" by (auto simp: claim_pending_def Let_def split: if_splits)
    with claim_spec(1) [OF ok c] room show ?thesis by (simp add: mem_good_def)
  qed
  show "owed b' topic (group_key grp) = owed b topic (group_key grp)"
    if "Some (claim_pending now b topic grp min_idle) = Some (es, b')"
    using claim_spec(2,3) [OF ok] that by (simp add: owed_def)
  show "mem_good cap topic b'" "owed b' topic (group_key grp) = owed b topic (group_key grp)"
    if "Some (consume cap now' b topic grp) = Some (ms, b')"
  proof -
    from that have c: "consume cap now' b topic grp = (ms, b')" by simp
    then have "mb_streams b' = mb_streams b" by (cases rule: consume_cases) simp_all
    with consume_spec(1) [OF ok c] room show "mem_good cap topic b'" by (simp add: mem_good_def)
    show "owed b' topic (group_key grp) = owed b topic (group_key grp)"
      using consume_spec(2,6) [OF ok c] owed_size [OF ok, of topic "group_key grp"] room by simp
  qed
  show "mem_good cap topic b'" if "Some (ack_batch b (map (\<lambda>m. (topic, e_id m)) ms) grp) = Some b'"
  proof -
    have "mb_streams (ack_batch b l grp) = mb_streams b" for l
      unfolding ack_batch_def by (induction l arbitrary: b) (simp_all add: ack_view)
    with ack_batch_spec [OF ok] that room show ?thesis by (auto simp: mem_good_def)
  qed
  show "owed b topic (group_key grp) - e_id ` set ms \<subseteq> owed b' topic (group_key grp)"
    if "Some (ack_batch b (map (\<lambda>m. (topic, e_id m)) ms) grp) = Some b'"
    using ack_batch_spec [OF ok] that by (auto simp: owed_def)
  assume "mem_dead_letter wrap topic b m n = Some b'"
  then have p: "produce Some b (topic @ ''.deadletter'') (KStr (e_key m)) (wrap topic m n) = Inr b'"
    by (auto simp: mem_dead_letter_def split: sum.splits)
  have "stream b' topic = stream b topic" using p by (cases rule: produce_cases) simp
  with produce_spec(1) [OF ok p] room show "mem_good cap topic b'" by (simp add: mem_good_def)
  show "owed b' topic (group_key grp) = owed b topic (group_key grp)"
    by (rule produce_spec(3) [OF ok p]) simp
qed

end
