(* ===== verification/Fairness.thy ===== *)
theory Fairness
  imports Prelude
begin

text \<open>
  The fair consume wrapper of \<open>src/services/shared/fairness.py\<close>: one read pass is bucketed by
  tenant and yielded again round robin, in first-seen order of the tenants. The tenant of a message
  is a parameter \<open>tenant_key\<close>; None is the case where it raises on a malformed payload.
\<close>

definition default_block_ms :: int where
  "default_block_ms = 1000"

definition effective_block_ms :: "int \<Rightarrow> int" where
  "effective_block_ms block_ms = (if block_ms > 0 then block_ms else default_block_ms)"

definition tenant_of :: "('m \<Rightarrow> string option) \<Rightarrow> 'm \<Rightarrow> string" where
  "tenant_of tenant_key m =
     (case tenant_key m of None \<Rightarrow> ''default'' | Some t \<Rightarrow> if t = [] then ''default'' else t)"

type_synonym 'm buckets = "string \<Rightarrow> 'm list"

definition bucket_msg :: "('m \<Rightarrow> string) \<Rightarrow> 'm \<Rightarrow> string list \<times> 'm buckets \<Rightarrow> string list \<times> 'm buckets" where
  "bucket_msg tenant m s =
     (let (order, buckets) = s; t = tenant m
      in (if t \<in> set order then order else order @ [t], buckets(t := buckets t @ [m])))"

definition bucket_batch :: "('m \<Rightarrow> string) \<Rightarrow> 'm list \<Rightarrow> string list \<times> 'm buckets" where
  "bucket_batch tenant msgs = fold (bucket_msg tenant) msgs ([], \<lambda>_. [])"

text \<open>One round: what it yields, the tenants of the next round, the buckets left.\<close>

fun fair_round :: "string list \<Rightarrow> 'm buckets \<Rightarrow> 'm list \<times> string list \<times> 'm buckets" where
  "fair_round [] b = ([], [], b)"
| "fair_round (t # ts) b =
     (case b t of
        [] \<Rightarrow> fair_round ts b
      | m # q \<Rightarrow>
          (let (out, next_round, b') = fair_round ts (b(t := q))
           in (m # out, if q \<noteq> [] then t # next_round else next_round, b')))"

abbreviation load :: "string list \<Rightarrow> 'm buckets \<Rightarrow> nat" where
  "load order b \<equiv> sum_list (map (\<lambda>t. Suc (length (b t))) order)"

lemma fair_round_load:
  "fair_round order b = (out, next_round, b') \<Longrightarrow>
   (\<forall>t. length (b' t) \<le> length (b t)) \<and> load next_round b' \<le> load order b \<and>
   (order \<noteq> [] \<longrightarrow> load next_round b' < load order b)"
proof (induction order b arbitrary: out next_round b' rule: fair_round.induct)
  case (2 t ts b)
  show ?case
  proof (cases "b t")
    case Nil
    with "2.IH"(1) [OF Nil, of out next_round b'] "2.prems" show ?thesis by simp
  next
    case (Cons m q)
    obtain out1 nr b1 where r: "fair_round ts (b(t := q)) = (out1, nr, b1)"
      by (cases "fair_round ts (b(t := q))")
    note IH = "2.IH"(2) [OF Cons r]
    have le: "length (b1 u) \<le> length (b u)" for u
      using IH Cons by (metis fun_upd_apply le_SucI length_Cons)
    have sub: "load ts (b(t := q)) \<le> load ts b"
      using Cons by (intro sum_list_mono) auto
    have "length (b1 t) \<le> length q" using IH by (metis fun_upd_same)
    with IH sub le Cons r "2.prems" show ?thesis by (auto simp: less_Suc_eq_le)
  qed
qed simp

function round_robin :: "string list \<Rightarrow> 'm buckets \<Rightarrow> 'm list" where
  "round_robin order b =
     (if order = [] then []
      else (let (out, next_round, b') = fair_round order b in out @ round_robin next_round b'))"
  by pat_completeness auto
termination
  by (relation "measure (\<lambda>(order, b). load order b)") (auto dest: fair_round_load [OF sym])

declare round_robin.simps [simp del]

definition fair_consume :: "('m \<Rightarrow> string) \<Rightarrow> 'm list \<Rightarrow> 'm list" where
  "fair_consume tenant msgs = (let (order, buckets) = bucket_batch tenant msgs in round_robin order buckets)"

subsection \<open>Buckets\<close>

text \<open>Each listed tenant has its own messages, in arrival order, and at least one.\<close>

definition buckets_ok :: "('m \<Rightarrow> string) \<Rightarrow> string list \<Rightarrow> 'm buckets \<Rightarrow> bool" where
  "buckets_ok tenant order b \<longleftrightarrow>
     distinct order \<and> (\<forall>t\<in>set order. b t \<noteq> []) \<and> (\<forall>t. \<forall>m\<in>set (b t). tenant m = t)"

lemma bucket_batch_spec:
  assumes "bucket_batch tenant msgs = (order, b)"
  shows "buckets_ok tenant order b" "\<And>t. b t = filter (\<lambda>m. tenant m = t) msgs"
    "set order = tenant ` set msgs"
proof -
  have "buckets_ok tenant order b \<and> (\<forall>t. b t = filter (\<lambda>m. tenant m = t) msgs) \<and>
      set order = tenant ` set msgs"
    using assms
  proof (induction msgs arbitrary: order b rule: rev_induct)
    case Nil
    then show ?case by (auto simp: bucket_batch_def buckets_ok_def)
  next
    case (snoc m msgs)
    obtain o1 b1 where r: "bucket_batch tenant msgs = (o1, b1)" by fastforce
    note IH = snoc.IH [OF r]
    have eq: "order = (if tenant m \<in> set o1 then o1 else o1 @ [tenant m])"
      "b = b1(tenant m := b1 (tenant m) @ [m])"
      using snoc.prems r by (auto simp: bucket_batch_def bucket_msg_def Let_def)
    have o1: "distinct o1" "set o1 = tenant ` set msgs" using IH unfolding buckets_ok_def by blast+
    have each: "\<forall>t. b t = filter (\<lambda>m. tenant m = t) (msgs @ [m])"
    proof -
      have "\<forall>t. b1 t = filter (\<lambda>m. tenant m = t) msgs" using IH by blast
      then show ?thesis unfolding eq by simp
    qed
    have order: "distinct order" "set order = tenant ` set (msgs @ [m])"
      using o1 unfolding eq by auto
    have "b t \<noteq> []" if "t \<in> set order" for t
      using that unfolding order(2) each [rule_format] filter_empty_conv by blast
    moreover have "\<forall>t. \<forall>m\<in>set (b t). tenant m = t" unfolding each [rule_format] by simp
    moreover note each order
    ultimately show ?case unfolding buckets_ok_def by blast
  qed
  then show "buckets_ok tenant order b" "\<And>t. b t = filter (\<lambda>m. tenant m = t) msgs"
    "set order = tenant ` set msgs" by blast+
qed

lemma fair_round_eq:
  "distinct order \<Longrightarrow> \<forall>t\<in>set order. b t \<noteq> [] \<Longrightarrow>
   fair_round order b = (map (\<lambda>t. hd (b t)) order, filter (\<lambda>t. tl (b t) \<noteq> []) order,
                         \<lambda>t. if t \<in> set order then tl (b t) else b t)"
proof (induction order arbitrary: b)
  case (Cons t ts)
  obtain m q where bt: "b t = m # q" using Cons.prems by (cases "b t") auto
  have eq: "map (\<lambda>u. hd ((b(t := q)) u)) ts = map (\<lambda>u. hd (b u)) ts"
    "filter (\<lambda>u. tl ((b(t := q)) u) \<noteq> []) ts = filter (\<lambda>u. tl (b u) \<noteq> []) ts"
    using Cons.prems by (auto intro!: filter_cong)
  have "fair_round ts (b(t := q)) = (map (\<lambda>u. hd (b u)) ts, filter (\<lambda>u. tl (b u) \<noteq> []) ts,
      \<lambda>u. if u \<in> set ts then tl ((b(t := q)) u) else (b(t := q)) u)"
  proof -
    have "\<forall>u\<in>set ts. (b(t := q)) u \<noteq> []" "distinct ts" using Cons.prems by auto
    from Cons.IH [OF this(2,1)] show ?thesis unfolding eq .
  qed
  moreover have "(\<lambda>u. if u \<in> set ts then tl ((b(t := q)) u) else (b(t := q)) u) =
      (\<lambda>u. if u \<in> set (t # ts) then tl (b u) else b u)"
    using Cons.prems bt by (auto simp: fun_eq_iff)
  ultimately show ?case by (simp add: bt)
qed simp

lemma buckets_ok_next:
  "buckets_ok tenant order b \<Longrightarrow>
   buckets_ok tenant (filter (\<lambda>t. tl (b t) \<noteq> []) order) (\<lambda>t. if t \<in> set order then tl (b t) else b t)"
  by (auto simp: buckets_ok_def dest: list.set_sel(2))

text \<open>Induction over the rounds of well-formed buckets.\<close>

lemma round_robin_step:
  assumes "buckets_ok tenant order b" "order \<noteq> []"
  shows "round_robin order b = map (\<lambda>t. hd (b t)) order @
    round_robin (filter (\<lambda>t. tl (b t) \<noteq> []) order) (\<lambda>t. if t \<in> set order then tl (b t) else b t)"
  using assms by (subst round_robin.simps) (simp add: fair_round_eq buckets_ok_def)

lemma round_robin_induct [consumes 1, case_names Nil Round]:
  assumes "buckets_ok tenant order b"
    and "\<And>b. P [] b"
    and "\<And>order b. buckets_ok tenant order b \<Longrightarrow> order \<noteq> [] \<Longrightarrow>
           P (filter (\<lambda>t. tl (b t) \<noteq> []) order) (\<lambda>t. if t \<in> set order then tl (b t) else b t) \<Longrightarrow>
           P order b"
  shows "P order b"
  using assms(1)
proof (induction order b rule: round_robin.induct)
  case (1 order b)
  show ?case
  proof (cases "order = []")
    case False
    have r: "fair_round order b = (map (\<lambda>t. hd (b t)) order, filter (\<lambda>t. tl (b t) \<noteq> []) order,
        \<lambda>t. if t \<in> set order then tl (b t) else b t)"
      using 1(2) by (intro fair_round_eq) (auto simp: buckets_ok_def)
    show ?thesis
      using 1(1) [OF False r [symmetric] refl refl buckets_ok_next [OF 1(2)]] assms(3) [OF 1(2) False]
      by blast
  qed (simp add: assms(2))
qed

subsection \<open>What the reordering keeps and what it bounds\<close>

lemma heads_of_tenant:
  assumes "buckets_ok tenant order b"
  shows "filter (\<lambda>m. tenant m = t) (map (\<lambda>u. hd (b u)) order) = (if t \<in> set order then [hd (b t)] else [])"
proof -
  have "tenant (hd (b u)) = u" if "u \<in> set order" for u
    using assms that by (auto simp: buckets_ok_def)
  then have "filter (\<lambda>u. tenant (hd (b u)) = t) order = filter (\<lambda>u. u = t) order"
    by (intro filter_cong) auto
  moreover have "filter (\<lambda>u. u = t) us = (if t \<in> set us then [t] else [])" if "distinct us" for us
    using that by (induction us) auto
  moreover have "distinct order" using assms by (simp add: buckets_ok_def)
  ultimately show ?thesis by (simp add: filter_map comp_def)
qed

lemma round_robin_tenant:
  assumes "buckets_ok tenant order b"
  shows "filter (\<lambda>m. tenant m = t) (round_robin order b) = (if t \<in> set order then b t else [])"
  using assms
proof (induction order b rule: round_robin_induct)
  case (Nil b)
  then show ?case by (simp add: round_robin.simps)
next
  case (Round order b)
  have "[hd (b t)] @ (if tl (b t) = [] then [] else tl (b t)) = b t" if "t \<in> set order"
    using Round.hyps(1) that by (auto simp: buckets_ok_def)
  then show ?case
    using Round.IH by (simp add: round_robin_step [OF Round.hyps] heads_of_tenant [OF Round.hyps(1)] split: if_splits)
qed

text \<open>Within a batch every message overtakes or waits for at most its share of each round.\<close>

lemma round_robin_bound:
  assumes "buckets_ok tenant order b" "round_robin order b = xs @ m # ys" "length order \<le> n"
  shows "length (filter (\<lambda>x. tenant x \<noteq> tenant m) xs) \<le>
         (length (filter (\<lambda>x. tenant x = tenant m) xs) + 1) * (n - 1)"
  using assms
proof (induction order b arbitrary: xs rule: round_robin_induct)
  case (Nil b)
  then show ?case by (simp add: round_robin.simps)
next
  case (Round order b)
  let ?out = "map (\<lambda>t. hd (b t)) order"
  let ?order = "filter (\<lambda>t. tl (b t) \<noteq> []) order"
  let ?b = "\<lambda>t. if t \<in> set order then tl (b t) else b t"
  have eq: "?out @ round_robin ?order ?b = xs @ m # ys"
    using Round.prems(1) by (simp only: round_robin_step [OF Round.hyps])
  show ?case
  proof (cases "length xs < length ?out")
    case True
    then have "length xs \<le> n - 1" using Round.prems(2) by simp
    then have "length (filter (\<lambda>x. tenant x \<noteq> tenant m) xs) \<le> n - 1"
      using length_filter_le order.trans by blast
    then show ?thesis by (rule order.trans) simp
  next
    case False
    have "?out = take (length ?out) (?out @ round_robin ?order ?b)" by simp
    also have "\<dots> = take (length ?out) xs" unfolding eq using False by simp
    finally obtain xs' where xs': "xs = ?out @ xs'" by (metis append_take_drop_id)
    with eq have "round_robin ?order ?b = xs' @ m # ys" by simp
    note xs = xs' this
    have "m \<in> set (filter (\<lambda>x. tenant x = tenant m) (round_robin ?order ?b))" using xs(2) by simp
    then have "tenant m \<in> set ?order"
      unfolding round_robin_tenant [OF buckets_ok_next [OF Round.hyps(1)]] by (auto split: if_splits)
    then have one: "length (filter (\<lambda>x. tenant x = tenant m) ?out) = 1"
      unfolding heads_of_tenant [OF Round.hyps(1)] by simp
    have "length (filter (\<lambda>x. tenant x \<noteq> tenant m) ?out) = length ?out - 1"
      using sum_length_filter_compl [of "\<lambda>x. tenant x = tenant m" ?out] one by simp
    then have "length (filter (\<lambda>x. tenant x \<noteq> tenant m) ?out) \<le> n - 1" using Round.prems(2) by simp
    moreover have "length ?order \<le> n" using Round.prems(2) length_filter_le order.trans by blast
    ultimately show ?thesis using Round.IH [OF xs(2)] one unfolding xs(1) by simp
  qed
qed

lemma card_order: "buckets_ok tenant order b \<Longrightarrow> length order = card (set order)"
  by (simp add: buckets_ok_def distinct_card)

subsection \<open>Properties\<close>

text \<open>C39. Fair consumption loses, duplicates and rewrites nothing: for every tenant the messages come
  out exactly in the order they were read, and the whole batch is a permutation of what was read.\<close>

theorem fair_consume_per_tenant_fifo:
  "filter (\<lambda>m. tenant m = t) (fair_consume tenant msgs) = filter (\<lambda>m. tenant m = t) msgs \<and>
   mset (fair_consume tenant msgs) = mset msgs"
proof -
  obtain order b where r: "bucket_batch tenant msgs = (order, b)" by fastforce
  note spec = bucket_batch_spec [OF r]
  have fifo: "filter (\<lambda>m. tenant m = t) (fair_consume tenant msgs) = filter (\<lambda>m. tenant m = t) msgs" for t
  proof -
    have "t \<notin> set order \<Longrightarrow> filter (\<lambda>m. tenant m = t) msgs = []"
      unfolding spec(3) by (auto simp: filter_empty_conv)
    then show ?thesis
      using round_robin_tenant [OF spec(1), of t] spec(2) [of t] by (simp add: fair_consume_def r split: if_splits)
  qed
  have "count (mset (fair_consume tenant msgs)) m = count (mset msgs) m" for m
  proof -
    have "count (mset ms) m = count (mset (filter (\<lambda>x. tenant x = tenant m) ms)) m" for ms
      by simp
    then show ?thesis using fifo by metis
  qed
  then show ?thesis using fifo by (simp add: multiset_eq_iff)
qed

text \<open>Fairness: a message with k earlier messages of its own tenant in the batch waits for at most
  (k + 1) * (n - 1) messages of the other tenants, n being the number of tenants in the batch.\<close>

theorem fair_consume_bounded_wait:
  assumes "fair_consume tenant msgs = xs @ m # ys"
  shows "length (filter (\<lambda>x. tenant x \<noteq> tenant m) xs) \<le>
         (length (filter (\<lambda>x. tenant x = tenant m) xs) + 1) * (card (tenant ` set msgs) - 1)"
proof -
  obtain order b where r: "bucket_batch tenant msgs = (order, b)" by fastforce
  note spec = bucket_batch_spec [OF r]
  show ?thesis
    using round_robin_bound [OF spec(1), of xs m ys "length order"] assms r card_order [OF spec(1)] spec(3)
    by (simp add: fair_consume_def)
qed

text \<open>The bound n - 1 for any message, whatever its position in its own tenant's queue, does not hold.\<close>

lemma fair_batch_two_tenants:
  "fair_consume fst [(''a'', 1), (''a'', 2), (''b'', 3), (''b'', 4 :: nat)] =
     [(''a'', 1), (''b'', 3), (''a'', 2)] @ (''b'', 4) # []"
  by code_simp

theorem fair_consume_bounded_wait_witness:
  "length (filter (\<lambda>x. fst x \<noteq> ''b'') [(''a'', 1), (''b'', 3), (''a'', 2 :: nat)]) \<le> 2 \<and>
   length (filter (\<lambda>x. fst x \<noteq> ''b'') [(''a'', 1), (''b'', 3), (''a'', 2 :: nat)]) > 2 - 1"
  using fair_consume_bounded_wait [OF fair_batch_two_tenants] by simp

end
