(* ===== verification/Runner.thy ===== *)
theory Runner
  imports Bus
begin

text \<open>
  The worker loop of \<open>src/services/shared/runner.py\<close>: the decision on one delivery
  (\<open>_process_message\<close>), its batch twin, one pass of \<open>_topic_worker\<close> (redeliveries, then new
  messages, with acknowledgements deferred to one flush), the liveness flag, the counters and the
  throttle of tracebacks.

  The bus is the parameter of the loop, as in the code (\<open>bus_factory\<close>): its operations may raise,
  which is None. The handler is a function of its own state; False is an exception. The proofs are
  made once in the context of \<open>worker_bus\<close> and reach the memory bus through its interpretation.
\<close>

subsection \<open>Counters, liveness and the throttle\<close>

datatype outcome = Acked | Failed | Deadlettered

type_synonym metrics = "string \<times> string \<Rightarrow> nat"

definition incr :: "metrics \<Rightarrow> string \<Rightarrow> string \<Rightarrow> metrics" where
  "incr m topic result = m((topic, result) := m (topic, result) + 1)"

record health =
  bus_ok :: bool
  last_error :: string

definition mark_ok :: "health \<Rightarrow> health" where
  "mark_ok s = s\<lparr>bus_ok := True, last_error := []\<rparr>"

definition mark_error :: "string \<Rightarrow> health \<Rightarrow> health" where
  "mark_error err s = s\<lparr>bus_ok := False, last_error := err\<rparr>"

text \<open>
  The throttle keeps, per topic and exception type, when it last printed and how many it has
  suppressed since. A Python \<open>min\<close> over a dictionary takes the first key of least value.
\<close>

type_synonym throttle = "(string \<times> string, rat \<times> nat) odict"

definition throttle_window :: rat where
  "throttle_window = 30"

definition throttle_state_max :: nat where
  "throttle_state_max = 256"

fun oldest_key :: "throttle \<Rightarrow> string \<times> string" where
  "oldest_key [] = ([], [])"
| "oldest_key [(k, s)] = k"
| "oldest_key ((k, s) # (k', s') # d) =
     (let r = oldest_key ((k', s') # d)
      in if fst s \<le> fst (the (od_get ((k', s') # d) r)) then k else r)"

text \<open>Emits Some n when a traceback is printed, n being the number suppressed before it.\<close>

definition throttled_print :: "rat \<Rightarrow> string \<Rightarrow> string \<Rightarrow> throttle \<Rightarrow> nat option \<times> throttle" where
  "throttled_print now topic exc st =
     (let key = (topic, exc)
      in case od_get st key of
           Some (emitted, suppressed) \<Rightarrow>
             if throttle_window \<le> now - emitted then (Some suppressed, od_set st key (now, 0))
             else (None, od_set st key (emitted, suppressed + 1))
         | None \<Rightarrow>
             (let st' = (if throttle_state_max \<le> length st then od_del st (oldest_key st) else st)
              in (Some 0, od_set st' key (now, 0))))"

text \<open>The state of the throttle never outgrows its bound.\<close>

lemma oldest_key_in: "st \<noteq> [] \<Longrightarrow> oldest_key st \<in> fst ` set st"
  by (induction st rule: oldest_key.induct) (auto simp: Let_def)

lemma throttle_bounded:
  assumes "od_wf st" "length st \<le> throttle_state_max"
  shows "od_wf (snd (throttled_print now topic exc st))"
    and "length (snd (throttled_print now topic exc st)) \<le> throttle_state_max"
proof -
  let ?key = "(topic, exc)"
  show "od_wf (snd (throttled_print now topic exc st))"
    using assms(1) by (auto simp: throttled_print_def Let_def split: option.split)
  show "length (snd (throttled_print now topic exc st)) \<le> throttle_state_max"
  proof (cases "od_get st ?key")
    case None
    have "length (od_del st (oldest_key st)) < length st" if "st \<noteq> []"
      using oldest_key_in [OF that] unfolding od_del_def by (force intro: length_filter_less)
    with assms(2) show ?thesis
      by (cases "st = []") (auto simp: throttled_print_def None length_od_set throttle_state_max_def)
  next
    case (Some v)
    then have "?key \<in> fst ` set st" by (force dest: map_of_SomeD)
    with Some assms(2) show ?thesis
      by (cases v) (auto simp: throttled_print_def length_od_set Let_def)
  qed
qed

subsection \<open>One delivery\<close>

record ('b, 'm, 'h) worker =
  wk_bus :: 'b
  wk_handler :: 'h
  wk_metrics :: metrics
  wk_acks :: "'m list"

text \<open>\<open>do_ack\<close> is the acknowledgement the caller passes: at once, or deferred to the end of the pass.\<close>

definition defer_ack :: "('b, 'm, 'h) worker \<Rightarrow> 'm \<Rightarrow> ('b, 'm, 'h) worker option" where
  "defer_ack w m = Some (w\<lparr>wk_acks := wk_acks w @ [m]\<rparr>)"

definition ack_now :: "('b \<Rightarrow> 'm list \<Rightarrow> 'b option) \<Rightarrow> ('b, 'm, 'h) worker \<Rightarrow> 'm \<Rightarrow> ('b, 'm, 'h) worker option" where
  "ack_now ack_all w m = (case ack_all (wk_bus w) [m] of None \<Rightarrow> None | Some b \<Rightarrow> Some (w\<lparr>wk_bus := b\<rparr>))"

definition count_result :: "string \<Rightarrow> string \<Rightarrow> ('b, 'm, 'h) worker \<Rightarrow> ('b, 'm, 'h) worker" where
  "count_result topic result w = w\<lparr>wk_metrics := incr (wk_metrics w) topic result\<rparr>"

text \<open>None as the outcome is an exception of the bus; the changes made before it stay.\<close>

definition process_message ::
    "('b \<Rightarrow> 'm \<Rightarrow> nat \<Rightarrow> 'b option) \<Rightarrow> ('h \<Rightarrow> 'm \<Rightarrow> bool \<times> 'h) \<Rightarrow>
     (('b, 'm, 'h) worker \<Rightarrow> 'm \<Rightarrow> ('b, 'm, 'h) worker option) \<Rightarrow> nat \<Rightarrow> string \<Rightarrow>
     ('b, 'm, 'h) worker \<Rightarrow> 'm \<times> nat \<Rightarrow> outcome option \<times> ('b, 'm, 'h) worker" where
  "process_message dead handler do_ack max_redeliveries topic w entry =
     (let (m, delivered) = entry
      in if delivered > max_redeliveries then
           (case dead (wk_bus w) m delivered of
              None \<Rightarrow> (None, w)
            | Some b \<Rightarrow>
                (let w' = w\<lparr>wk_bus := b\<rparr>
                 in case do_ack w' m of
                      None \<Rightarrow> (None, w')
                    | Some w'' \<Rightarrow> (Some Deadlettered, count_result topic ''deadlettered'' w'')))
         else
           (let (ok, h) = handler (wk_handler w) m; w' = w\<lparr>wk_handler := h\<rparr>
            in if \<not> ok then (Some Failed, count_result topic ''failed'' w')
               else case do_ack w' m of
                      None \<Rightarrow> (None, w')
                    | Some w'' \<Rightarrow> (Some Acked, count_result topic ''acked'' w'')))"

subsection \<open>A batch\<close>

text \<open>The first loop: entries over the cap go to the dead-letter topic, the others are kept.\<close>

fun split_dead ::
    "('b \<Rightarrow> 'm \<Rightarrow> nat \<Rightarrow> 'b option) \<Rightarrow> (('b, 'm, 'h) worker \<Rightarrow> 'm \<Rightarrow> ('b, 'm, 'h) worker option) \<Rightarrow> nat \<Rightarrow>
     string \<Rightarrow> ('m \<times> nat) list \<Rightarrow> ('b, 'm, 'h) worker \<Rightarrow> 'm list option \<times> ('b, 'm, 'h) worker" where
  "split_dead dead do_ack max_redeliveries topic [] w = (Some [], w)"
| "split_dead dead do_ack max_redeliveries topic ((m, delivered) # es) w =
     (if delivered > max_redeliveries then
        (case dead (wk_bus w) m delivered of
           None \<Rightarrow> (None, w)
         | Some b \<Rightarrow>
             (let w' = w\<lparr>wk_bus := b\<rparr>
              in case do_ack w' m of
                   None \<Rightarrow> (None, w')
                 | Some w'' \<Rightarrow>
                     split_dead dead do_ack max_redeliveries topic es (count_result topic ''deadlettered'' w'')))
      else
        (case split_dead dead do_ack max_redeliveries topic es w of
           (None, w') \<Rightarrow> (None, w')
         | (Some live, w') \<Rightarrow> (Some (m # live), w')))"

text \<open>The second loop, over the per-message results of the handler.\<close>

fun settle ::
    "(('b, 'm, 'h) worker \<Rightarrow> 'm \<Rightarrow> ('b, 'm, 'h) worker option) \<Rightarrow> string \<Rightarrow> ('m \<times> bool) list \<Rightarrow>
     ('b, 'm, 'h) worker \<Rightarrow> bool \<times> ('b, 'm, 'h) worker" where
  "settle do_ack topic [] w = (True, w)"
| "settle do_ack topic ((m, ok) # rs) w =
     (if ok then (case do_ack w m of
                    None \<Rightarrow> (False, w)
                  | Some w' \<Rightarrow> settle do_ack topic rs (count_result topic ''acked'' w'))
      else settle do_ack topic rs (count_result topic ''failed'' w))"

definition process_batch ::
    "('b \<Rightarrow> 'm \<Rightarrow> nat \<Rightarrow> 'b option) \<Rightarrow> ('h \<Rightarrow> 'm list \<Rightarrow> bool list option \<times> 'h) \<Rightarrow>
     (('b, 'm, 'h) worker \<Rightarrow> 'm \<Rightarrow> ('b, 'm, 'h) worker option) \<Rightarrow> nat \<Rightarrow> string \<Rightarrow>
     ('m \<times> nat) list \<Rightarrow> ('b, 'm, 'h) worker \<Rightarrow> bool \<times> ('b, 'm, 'h) worker" where
  "process_batch dead handle_batch do_ack max_redeliveries topic es w =
     (case split_dead dead do_ack max_redeliveries topic es w of
        (None, w') \<Rightarrow> (False, w')
      | (Some live, w') \<Rightarrow>
          if live = [] then (True, w')
          else
            (let (res, h) = handle_batch (wk_handler w') live;
                 results = (case res of None \<Rightarrow> replicate (length live) False
                            | Some rs \<Rightarrow> if length rs \<noteq> length live then replicate (length live) False
                                        else rs)
             in settle do_ack topic (zip live results) (w'\<lparr>wk_handler := h\<rparr>)))"

subsection \<open>One pass of the worker\<close>

datatype ('h, 'm) handler =
    Single "'h \<Rightarrow> 'm \<Rightarrow> bool \<times> 'h"
  | Batched nat "'h \<Rightarrow> 'm list \<Rightarrow> bool list option \<times> 'h"

text \<open>What a worker is created with; \<open>shutdown j\<close> tells whether the flag is set after the j-th message.\<close>

record ('b, 'm, 'h) worker_config =
  cf_dead :: "'b \<Rightarrow> 'm \<Rightarrow> nat \<Rightarrow> 'b option"
  cf_ack_all :: "'b \<Rightarrow> 'm list \<Rightarrow> 'b option"
  cf_handler :: "('h, 'm) handler"
  cf_max :: nat
  cf_topic :: string

definition batch_of ::
    "('b, 'm, 'h) worker_config \<Rightarrow> ('m \<times> nat) list \<Rightarrow> ('b, 'm, 'h) worker \<Rightarrow> bool \<times> ('b, 'm, 'h) worker" where
  "batch_of cf es w =
     (case cf_handler cf of
        Single _ \<Rightarrow> (True, w)
      | Batched _ f \<Rightarrow> process_batch (cf_dead cf) f defer_ack (cf_max cf) (cf_topic cf) es w)"

text \<open>The for loop over the messages of a pass; the gathered entries are part of its result.\<close>

fun drive ::
    "('b, 'm, 'h) worker_config \<Rightarrow> (nat \<Rightarrow> bool) \<Rightarrow> nat \<Rightarrow> ('m \<times> nat) list \<Rightarrow> ('m \<times> nat) list \<Rightarrow>
     ('b, 'm, 'h) worker \<Rightarrow> bool \<times> ('m \<times> nat) list \<times> ('b, 'm, 'h) worker" where
  "drive cf shutdown j [] gathered w = (True, gathered, w)"
| "drive cf shutdown j (e # es) gathered w =
     (case cf_handler cf of
        Batched batch_max f \<Rightarrow>
          if length (gathered @ [e]) \<ge> max 1 batch_max then
            (case batch_of cf (gathered @ [e]) w of
               (False, w') \<Rightarrow> (False, gathered @ [e], w')
             | (True, w') \<Rightarrow> if shutdown j then (True, [], w') else drive cf shutdown (j + 1) es [] w')
          else if shutdown j then (True, gathered @ [e], w)
          else drive cf shutdown (j + 1) es (gathered @ [e]) w
      | Single f \<Rightarrow>
          (case process_message (cf_dead cf) f defer_ack (cf_max cf) (cf_topic cf) w e of
             (None, w') \<Rightarrow> (False, gathered, w')
           | (Some _, w') \<Rightarrow> if shutdown j then (True, gathered, w')
                             else drive cf shutdown (j + 1) es gathered w'))"

definition flush_acks :: "('b, 'm, 'h) worker_config \<Rightarrow> ('b, 'm, 'h) worker \<Rightarrow> bool \<times> ('b, 'm, 'h) worker" where
  "flush_acks cf w =
     (if wk_acks w = [] then (True, w)
      else case cf_ack_all cf (wk_bus w) (wk_acks w) of
             None \<Rightarrow> (False, w)
           | Some b \<Rightarrow> (True, w\<lparr>wk_bus := b\<rparr>))"

text \<open>After a bus error: what was gathered is processed now, and acknowledged if possible.\<close>

definition flush_gathered ::
    "('b, 'm, 'h) worker_config \<Rightarrow> ('m \<times> nat) list \<Rightarrow> ('b, 'm, 'h) worker \<Rightarrow> ('b, 'm, 'h) worker" where
  "flush_gathered cf gathered w =
     (if gathered = [] then w
      else case batch_of cf gathered w of
             (False, w') \<Rightarrow> w'
           | (True, w') \<Rightarrow> snd (flush_acks cf w'))"

text \<open>One try block: True when no exception was raised. The entries are None when the read raised.\<close>

definition run_pass ::
    "('b, 'm, 'h) worker_config \<Rightarrow> (nat \<Rightarrow> bool) \<Rightarrow> ('m \<times> nat) list option \<Rightarrow> ('b, 'm, 'h) worker \<Rightarrow>
     bool \<times> ('b, 'm, 'h) worker" where
  "run_pass cf shutdown entries w =
     (let w0 = w\<lparr>wk_acks := []\<rparr>
      in case entries of
           None \<Rightarrow> (False, w0)
         | Some es \<Rightarrow>
             (let (ok, gathered, w1) = drive cf shutdown 0 es [] w0;
                  (ok2, w2) = (if ok \<and> gathered \<noteq> [] then batch_of cf gathered w1 else (ok, w1));
                  (ok3, w3) = (if ok2 then flush_acks cf w2 else (False, w2))
              in if ok3 then (True, w3) else (False, flush_gathered cf gathered w3)))"

text \<open>One round of the loop: redeliveries, then new messages, then the liveness flag and counter.\<close>

definition worker_round ::
    "('b, 'm, 'h) worker_config \<Rightarrow> ('b \<Rightarrow> (('m \<times> nat) list \<times> 'b) option) \<Rightarrow> ('b \<Rightarrow> ('m list \<times> 'b) option) \<Rightarrow>
     (nat \<Rightarrow> bool) \<Rightarrow> (nat \<Rightarrow> bool) \<Rightarrow> string \<Rightarrow> ('b, 'm, 'h) worker \<times> health \<Rightarrow> ('b, 'm, 'h) worker \<times> health" where
  "worker_round cf claim read stop1 stop2 err s =
     (let (w, st) = s;
          (es, w) = (case claim (wk_bus w) of None \<Rightarrow> (None, w) | Some (es, b) \<Rightarrow> (Some es, w\<lparr>wk_bus := b\<rparr>));
          (ok1, w) = run_pass cf stop1 es w;
          st = (if ok1 then mark_ok st else mark_error err st);
          (ms, w) = (case read (wk_bus w) of None \<Rightarrow> (None, w)
                     | Some (ms, b) \<Rightarrow> (Some (map (\<lambda>m. (m, 1)) ms), w\<lparr>wk_bus := b\<rparr>));
          (ok2, w) = run_pass cf stop2 ms w;
          st = (if ok2 then mark_ok st else mark_error err st)
      in (if ok1 \<and> ok2 then w else count_result (cf_topic cf) ''bus_error'' w, st))"

text \<open>\<open>run_once\<close> on one topic: a single read, each message acknowledged at once.\<close>

fun drain_once ::
    "('b \<Rightarrow> 'm \<Rightarrow> nat \<Rightarrow> 'b option) \<Rightarrow> ('h \<Rightarrow> 'm \<Rightarrow> bool \<times> 'h) \<Rightarrow> ('b \<Rightarrow> 'm list \<Rightarrow> 'b option) \<Rightarrow> nat \<Rightarrow>
     string \<Rightarrow> 'm list \<Rightarrow> ('b, 'm, 'h) worker \<Rightarrow> outcome list option \<times> ('b, 'm, 'h) worker" where
  "drain_once dead handler ack_all max_redeliveries topic [] w = (Some [], w)"
| "drain_once dead handler ack_all max_redeliveries topic (m # ms) w =
     (case process_message dead handler (ack_now ack_all) max_redeliveries topic w (m, 1) of
        (None, w') \<Rightarrow> (None, w')
      | (Some r, w') \<Rightarrow>
          (case drain_once dead handler ack_all max_redeliveries topic ms w' of
             (None, w'') \<Rightarrow> (None, w'')
           | (Some rs, w'') \<Rightarrow> (Some (r # rs), w'')))"

subsection \<open>No loss, once for every bus\<close>

text \<open>The handler never reports success on the message with id \<open>i\<close>; the entries of it are under the cap.\<close>

definition never_handles :: "('m \<Rightarrow> nat) \<Rightarrow> nat \<Rightarrow> ('h, 'm) handler \<Rightarrow> bool" where
  "never_handles ident i hdl =
     (case hdl of
        Single f \<Rightarrow> (\<forall>h m. ident m = i \<longrightarrow> \<not> fst (f h m))
      | Batched _ f \<Rightarrow> (\<forall>h ms rs h'. f h ms = (Some rs, h') \<longrightarrow> length rs = length ms \<longrightarrow>
                          (\<forall>(m, ok)\<in>set (zip ms rs). ident m = i \<longrightarrow> \<not> ok)))"

definition under_cap :: "('m \<Rightarrow> nat) \<Rightarrow> nat \<Rightarrow> nat \<Rightarrow> ('m \<times> nat) list \<Rightarrow> bool" where
  "under_cap ident i cap es \<longleftrightarrow> (\<forall>(m, n)\<in>set es. ident m = i \<longrightarrow> n \<le> cap)"

lemma under_cap_simps [simp]:
  "under_cap ident i cap []"
  "under_cap ident i cap (e # es) \<longleftrightarrow> (ident (fst e) = i \<longrightarrow> snd e \<le> cap) \<and> under_cap ident i cap es"
  "under_cap ident i cap (es @ es') \<longleftrightarrow> under_cap ident i cap es \<and> under_cap ident i cap es'"
  by (auto simp: under_cap_def split_def)

lemma count_result_fields [simp]:
  "wk_bus (count_result t r w) = wk_bus w" "wk_acks (count_result t r w) = wk_acks w"
  by (simp_all add: count_result_def)

context worker_bus
begin

definition kept :: "nat \<Rightarrow> ('b, 'm, 'h) worker \<Rightarrow> bool" where
  "kept i w \<longleftrightarrow> good (wk_bus w) \<and> i \<in> owes (wk_bus w) \<and> i \<notin> mid ` set (wk_acks w)"

lemma kept_count [simp]: "kept i (count_result t r w) = kept i w"
  by (simp add: kept_def)

lemma kept_handler [simp]: "kept i (w\<lparr>wk_handler := h\<rparr>) = kept i w"
  by (simp add: kept_def)

lemma kept_ack: "kept i w \<Longrightarrow> mid m \<noteq> i \<Longrightarrow> kept i (w\<lparr>wk_acks := wk_acks w @ [m]\<rparr>)"
  by (auto simp: kept_def)

lemma kept_dead:
  assumes "kept i w" "dead_letter (wk_bus w) m n = Some b"
  shows "kept i (w\<lparr>wk_bus := b\<rparr>)"
proof -
  have "good b" "owes b = owes (wk_bus w)"
    using assms good_dead owes_dead unfolding kept_def by blast+
  with assms(1) show ?thesis by (simp add: kept_def)
qed

lemma kept_process_message:
  assumes kept: "kept i w" and never: "never_handles mid i (Single f)" and cap: "under_cap mid i cap [e]"
  shows "kept i (snd (process_message dead_letter f defer_ack cap topic w e))"
proof -
  obtain m n where e: "e = (m, n)" by (cases e)
  show ?thesis
  proof (cases "n > cap")
    case True
    with cap e have m: "mid m \<noteq> i" by auto
    show ?thesis
    proof (cases "dead_letter (wk_bus w) m n")
      case (Some b)
      from kept_ack [OF kept_dead [OF kept Some] m] Some True show ?thesis
        by (simp add: process_message_def e defer_ack_def)
    qed (use kept True in \<open>simp add: process_message_def e\<close>)
  next
    case False
    obtain ok h where f: "f (wk_handler w) m = (ok, h)" by fastforce
    have "mid m = i \<longrightarrow> \<not> fst (f (wk_handler w) m)" using never by (simp add: never_handles_def)
    with f have m: "ok \<Longrightarrow> mid m \<noteq> i" by auto
    have "kept i (w\<lparr>wk_handler := h\<rparr>)" using kept by simp
    from kept_ack [OF this] m this False f show ?thesis
      by (cases ok) (simp_all add: process_message_def e defer_ack_def del: kept_handler)
  qed
qed

lemma kept_split_dead:
  "kept i w \<Longrightarrow> under_cap mid i cap es \<Longrightarrow>
   kept i (snd (split_dead dead_letter defer_ack cap topic es w))"
proof (induction es arbitrary: w)
  case (Cons e es)
  obtain m n where e: "e = (m, n)" by (cases e)
  show ?case
  proof (cases "n > cap")
    case True
    with Cons.prems e have m: "mid m \<noteq> i" by auto
    show ?thesis
    proof (cases "dead_letter (wk_bus w) m n")
      case (Some b)
      let ?w = "count_result topic ''deadlettered'' (w\<lparr>wk_bus := b, wk_acks := wk_acks w @ [m]\<rparr>)"
      have "kept i ?w" using kept_ack [OF kept_dead [OF Cons.prems(1) Some] m] by simp
      from Cons.IH [OF this] Cons.prems(2) True Some e show ?thesis by (simp add: defer_ack_def)
    qed (use Cons.prems True e in simp)
  next
    case False
    from Cons.IH [OF Cons.prems(1)] Cons.prems(2) False e show ?thesis
      by (auto split: prod.split option.split)
  qed
qed simp

lemma kept_settle:
  "kept i w \<Longrightarrow> \<forall>(m, ok)\<in>set rs. mid m = i \<longrightarrow> \<not> ok \<Longrightarrow> kept i (snd (settle defer_ack topic rs w))"
proof (induction rs arbitrary: w)
  case (Cons r rs)
  obtain m ok where r: "r = (m, ok)" by (cases r)
  have rest: "\<forall>(m, ok)\<in>set rs. mid m = i \<longrightarrow> \<not> ok" using Cons.prems(2) by simp
  show ?case
  proof (cases ok)
    case True
    with Cons.prems r have "mid m \<noteq> i" by auto
    from kept_ack [OF Cons.prems(1) this] Cons.IH [OF _ rest] True r show ?thesis
      by (simp add: defer_ack_def)
  next
    case False
    with Cons.IH [OF _ rest] Cons.prems(1) r show ?thesis by simp
  qed
qed simp

lemma kept_process_batch:
  assumes kept: "kept i w" and never: "never_handles mid i (Batched k f)" and cap: "under_cap mid i cap es"
  shows "kept i (snd (process_batch dead_letter f defer_ack cap topic es w))"
proof -
  obtain l w' where s: "split_dead dead_letter defer_ack cap topic es w = (l, w')" by fastforce
  with kept_split_dead [OF kept cap, of topic] have w': "kept i w'" by simp
  show ?thesis
  proof (cases "l = None \<or> l = Some []")
    case True
    with w' s show ?thesis by (auto simp: process_batch_def)
  next
    case False
    then obtain live where l: "l = Some live" "live \<noteq> []" by auto
    obtain res h where f: "f (wk_handler w') live = (res, h)" by fastforce
    define results where "results = (case res of None \<Rightarrow> replicate (length live) False
        | Some rs \<Rightarrow> if length rs \<noteq> length live then replicate (length live) False else rs)"
    have "\<forall>(m, ok)\<in>set (zip live results). mid m = i \<longrightarrow> \<not> ok"
    proof (cases "\<exists>rs. res = Some rs \<and> length rs = length live")
      case True
      then obtain rs where rs: "res = Some rs" "length rs = length live" by blast
      with f never have "\<forall>(m, ok)\<in>set (zip live rs). mid m = i \<longrightarrow> \<not> ok"
        unfolding never_handles_def by (simp only: handler.simps) blast
      with rs show ?thesis by (simp add: results_def)
    next
      case False
      then have "results = replicate (length live) False"
        by (auto simp: results_def split: option.split)
      then show ?thesis by (auto simp: set_zip)
    qed
    with kept_settle [of i "w'\<lparr>wk_handler := h\<rparr>" "zip live results" topic] w' s l f show ?thesis
      by (simp add: process_batch_def results_def Let_def)
  qed
qed

definition wired :: "('b, 'm, 'h) worker_config \<Rightarrow> bool" where
  "wired cf \<longleftrightarrow> cf_dead cf = dead_letter \<and> cf_ack_all cf = ack_all"

lemma kept_batch_of:
  assumes "wired cf" "kept i w" "never_handles mid i (cf_handler cf)" "under_cap mid i (cf_max cf) es"
  shows "kept i (snd (batch_of cf es w))"
proof (cases "cf_handler cf")
  case (Batched k f)
  with kept_process_batch [OF assms(2) _ assms(4)] assms(1,3) show ?thesis
    by (simp add: batch_of_def wired_def)
qed (simp add: batch_of_def assms(2))

lemma kept_drive:
  assumes "wired cf" "never_handles mid i (cf_handler cf)"
  shows "kept i w \<Longrightarrow> under_cap mid i (cf_max cf) es \<Longrightarrow> under_cap mid i (cf_max cf) gathered \<Longrightarrow>
    kept i (snd (snd (drive cf shutdown j es gathered w))) \<and>
    under_cap mid i (cf_max cf) (fst (snd (drive cf shutdown j es gathered w)))"
proof (induction es arbitrary: j gathered w)
  case (Cons e es)
  have es: "under_cap mid i (cf_max cf) es" and e: "under_cap mid i (cf_max cf) [e]"
    and g: "under_cap mid i (cf_max cf) (gathered @ [e])"
    using Cons.prems(2,3) by auto
  show ?case
  proof (cases "cf_handler cf")
    case (Single f)
    obtain r w' where r: "process_message (cf_dead cf) f defer_ack (cf_max cf) (cf_topic cf) w e = (r, w')"
      by fastforce
    have "kept i w'"
      using kept_process_message [OF Cons.prems(1) _ e, of f "cf_topic cf"] assms Single r
      by (simp add: wired_def)
    with Cons.IH [OF _ es Cons.prems(3)] Cons.prems(3) Single r show ?thesis
      by (cases r) simp_all
  next
    case (Batched batch_max f)
    obtain ok w' where r: "batch_of cf (gathered @ [e]) w = (ok, w')" by fastforce
    have w': "kept i w'" using kept_batch_of [OF assms(1) Cons.prems(1) assms(2) g] r by simp
    have nil: "under_cap mid i (cf_max cf) []" by simp
    note IH = Cons.IH [OF w' es nil] Cons.IH [OF Cons.prems(1) es g]
    show ?thesis
    proof (cases "length (gathered @ [e]) \<ge> max 1 batch_max")
      case True
      then show ?thesis using r w' g IH(1) Batched by (cases ok) simp_all
    next
      case False
      then show ?thesis using g IH(2) Batched Cons.prems(1) by simp
    qed
  qed
qed simp

lemma kept_flush:
  assumes "wired cf" "kept i w"
  shows "good (wk_bus (snd (flush_acks cf w)))" "i \<in> owes (wk_bus (snd (flush_acks cf w)))"
    "\<not> fst (flush_acks cf w) \<Longrightarrow> kept i (snd (flush_acks cf w))"
proof -
  have w: "good (wk_bus w)" "i \<in> owes (wk_bus w)" "i \<notin> mid ` set (wk_acks w)"
    using assms(2) by (auto simp: kept_def)
  show "good (wk_bus (snd (flush_acks cf w)))" "i \<in> owes (wk_bus (snd (flush_acks cf w)))"
    using w good_ack [OF w(1), of "wk_acks w"] owes_ack [OF w(1), of "wk_acks w"] assms(1)
    by (auto simp: flush_acks_def wired_def split: option.split)
  show "\<not> fst (flush_acks cf w) \<Longrightarrow> kept i (snd (flush_acks cf w))"
    using assms(2) by (simp add: flush_acks_def split: if_splits option.splits)
qed

text \<open>What is owed and not handled is still owed after a pass, however the pass ends.\<close>

lemma run_pass_keeps:
  assumes cf: "wired cf" and never: "never_handles mid i (cf_handler cf)"
    and w: "good (wk_bus w)" "i \<in> owes (wk_bus w)"
    and cap: "\<And>es. entries = Some es \<Longrightarrow> under_cap mid i (cf_max cf) es"
  shows "good (wk_bus (snd (run_pass cf shutdown entries w))) \<and>
         i \<in> owes (wk_bus (snd (run_pass cf shutdown entries w)))"
proof (cases entries)
  case None
  with w show ?thesis by (simp add: run_pass_def)
next
  case (Some es)
  let ?w0 = "w\<lparr>wk_acks := []\<rparr>"
  have w0: "kept i ?w0" using w by (simp add: kept_def)
  obtain ok g w1 where d: "drive cf shutdown 0 es [] ?w0 = (ok, g, w1)" by (metis surj_pair)
  have w1: "kept i w1" "under_cap mid i (cf_max cf) g"
    using kept_drive [OF cf never w0 cap [OF Some], of "[]" shutdown 0] d by simp_all
  obtain ok2 w2 where b: "(if ok \<and> g \<noteq> [] then batch_of cf g w1 else (ok, w1)) = (ok2, w2)" by fastforce
  have w2: "kept i w2"
    using b w1 kept_batch_of [OF cf w1(1) never w1(2)] by (auto split: if_splits)
  obtain ok3 w3 where f: "(if ok2 then flush_acks cf w2 else (False, w2)) = (ok3, w3)" by fastforce
  have w3: "good (wk_bus w3)" "i \<in> owes (wk_bus w3)" "\<not> ok3 \<Longrightarrow> kept i w3"
    using f w2 kept_flush [OF cf w2] by (auto simp: kept_def split: if_splits)
  have "good (wk_bus (flush_gathered cf g w3)) \<and> i \<in> owes (wk_bus (flush_gathered cf g w3))" if "\<not> ok3"
  proof -
    obtain okb wb where r: "batch_of cf g w3 = (okb, wb)" by fastforce
    have "kept i wb" using kept_batch_of [OF cf w3(3) [OF that] never w1(2)] r by simp
    from kept_flush(1,2) [OF cf this] this r w3(1,2) show ?thesis
      by (cases okb) (simp_all add: flush_gathered_def kept_def)
  qed
  with w3 show ?thesis using d b f Some by (simp add: run_pass_def Let_def)
qed

lemma worker_round_keeps:
  assumes cf: "wired cf" and never: "never_handles mid i (cf_handler cf)" and first: "1 \<le> cf_max cf"
    and w: "good (wk_bus w)" "i \<in> owes (wk_bus w)"
    and cap: "\<And>es b. claim (wk_bus w) = Some (es, b) \<Longrightarrow> under_cap mid i (cf_max cf) es"
  shows "i \<in> owes (wk_bus (fst (worker_round cf claim read stop1 stop2 err (w, st))))"
proof -
  obtain es w1 where c: "(case claim (wk_bus w) of None \<Rightarrow> (None, w)
      | Some (es, b) \<Rightarrow> (Some es, w\<lparr>wk_bus := b\<rparr>)) = (es, w1)" by fastforce
  have w1: "good (wk_bus w1)" "i \<in> owes (wk_bus w1)" "\<And>l. es = Some l \<Longrightarrow> under_cap mid i (cf_max cf) l"
    using c w good_claim [OF w(1)] owes_claim [OF w(1)] cap by (auto split: option.splits)
  obtain ok1 w2 where p1: "run_pass cf stop1 es w1 = (ok1, w2)" by fastforce
  have w2: "good (wk_bus w2)" "i \<in> owes (wk_bus w2)"
    using run_pass_keeps [OF cf never w1(1,2), of es stop1] w1(3) p1 by simp_all
  obtain ms w3 where r: "(case read (wk_bus w2) of None \<Rightarrow> (None, w2)
      | Some (ms, b) \<Rightarrow> (Some (map (\<lambda>m. (m, 1::nat)) ms), w2\<lparr>wk_bus := b\<rparr>)) = (ms, w3)" by fastforce
  have w3: "good (wk_bus w3)" "i \<in> owes (wk_bus w3)" "\<And>l. ms = Some l \<Longrightarrow> under_cap mid i (cf_max cf) l"
    using r w2 good_read [OF w2(1)] owes_read [OF w2(1)] first
    by (auto simp: under_cap_def split: option.splits)
  obtain ok2 w4 where p2: "run_pass cf stop2 ms w3 = (ok2, w4)" by fastforce
  have "i \<in> owes (wk_bus w4)" using run_pass_keeps [OF cf never w3(1,2), of ms stop2] w3(3) p2 by simp
  then show ?thesis using c p1 r p2 by (simp add: worker_round_def)
qed

end

subsection \<open>The worker on the memory bus\<close>

definition mem_config ::
    "(string \<Rightarrow> 'w stream_entry \<Rightarrow> nat \<Rightarrow> 'w) \<Rightarrow> ('h, 'w stream_entry) handler \<Rightarrow> nat \<Rightarrow> string \<Rightarrow> string option \<Rightarrow>
     ('w memory_bus, 'w stream_entry, 'h) worker_config" where
  "mem_config wrap hdl max_redeliveries topic grp =
     \<lparr>cf_dead = mem_dead_letter wrap topic,
      cf_ack_all = (\<lambda>b ms. Some (ack_batch b (map (\<lambda>m. (topic, e_id m)) ms) grp)),
      cf_handler = hdl, cf_max = max_redeliveries, cf_topic = topic\<rparr>"

definition mem_round ::
    "(string \<Rightarrow> 'w stream_entry \<Rightarrow> nat \<Rightarrow> 'w) \<Rightarrow> ('h, 'w stream_entry) handler \<Rightarrow> nat \<Rightarrow> string \<Rightarrow> string option \<Rightarrow>
     nat \<Rightarrow> rat \<Rightarrow> rat \<Rightarrow> nat \<Rightarrow> (nat \<Rightarrow> bool) \<Rightarrow> (nat \<Rightarrow> bool) \<Rightarrow>
     ('w memory_bus, 'w stream_entry, 'h) worker \<times> health \<Rightarrow>
     ('w memory_bus, 'w stream_entry, 'h) worker \<times> health" where
  "mem_round wrap hdl max_redeliveries topic grp cap now now' min_idle stop1 stop2 =
     worker_round (mem_config wrap hdl max_redeliveries topic grp)
       (\<lambda>b. Some (claim_pending now b topic grp min_idle)) (\<lambda>b. Some (consume cap now' b topic grp))
       stop1 stop2 []"

text \<open>C13. The worker loses nothing: one round of the loop (reclaim, process, acknowledge, read,
  process, acknowledge) on the memory bus, with a single or a batch handler, whatever the order,
  the shutdown flag and the failures, leaves owed every message on which the handler did not
  succeed and whose deliveries are not exhausted.\<close>

theorem unhandled_stays_owed:
  assumes "mb_ok (wk_bus w)" "length (stream (wk_bus w) topic) \<le> cap"
    and "i \<in> owed (wk_bus w) topic (group_key grp)"
    and "never_handles e_id i hdl" "1 \<le> max_redeliveries"
    and "\<forall>(m, n)\<in>set (fst (claim_pending now (wk_bus w) topic grp min_idle)). e_id m = i \<longrightarrow> n \<le> max_redeliveries"
  shows "i \<in> owed (wk_bus (fst (mem_round wrap hdl max_redeliveries topic grp cap now now' min_idle
                     stop1 stop2 (w, st)))) topic (group_key grp)"
  unfolding mem_round_def
proof (rule mem.worker_round_keeps [where wrap = wrap and cap = cap])
  show "mem_good cap topic (wk_bus w)" using assms(1,2) by (simp add: mem_good_def)
qed (use assms in \<open>auto simp: mem.wired_def mem_config_def under_cap_def\<close>)

definition failing_worker :: "(nat memory_bus, nat stream_entry, nat) worker" where
  "failing_worker = \<lparr>wk_bus = bus_run Some 5 new_bus [Produce ''t'' KNone 7, Produce ''t'' KNone 8],
     wk_handler = 0, wk_metrics = (\<lambda>_. 0), wk_acks = []\<rparr>"

definition odd_handler :: "nat \<Rightarrow> nat stream_entry \<Rightarrow> bool \<times> nat" where
  "odd_handler h m = (odd (e_id m), h + 1)"

theorem unhandled_stays_owed_witness:
  "2 \<in> owed (wk_bus (fst (mem_round (\<lambda>t m n. 0) (Single odd_handler) 3 ''t'' None 5 0 0 1000
     (\<lambda>_. False) (\<lambda>_. False) (failing_worker, \<lparr>bus_ok = True, last_error = []\<rparr>)))) ''t'' ''cg-default'' \<and>
   1 \<notin> owed (wk_bus (fst (mem_round (\<lambda>t m n. 0) (Single odd_handler) 3 ''t'' None 5 0 0 1000
     (\<lambda>_. False) (\<lambda>_. False) (failing_worker, \<lparr>bus_ok = True, last_error = []\<rparr>)))) ''t'' ''cg-default''"
  (is "?two \<and> ?one")
proof
  have "mb_ok (wk_bus failing_worker)" by (simp add: failing_worker_def mb_ok_run mb_ok_new)
  moreover have "length (stream (wk_bus failing_worker) ''t'') \<le> 5" by code_simp
  moreover have "2 \<in> owed (wk_bus failing_worker) ''t'' (group_key None)" by code_simp
  moreover have "never_handles e_id 2 (Single odd_handler)" by (simp add: never_handles_def odd_handler_def)
  moreover have "fst (claim_pending 0 (wk_bus failing_worker) ''t'' None 1000) = []" by code_simp
  ultimately show ?two
    using unhandled_stays_owed [of failing_worker "''t''" 5 2 None "Single odd_handler" 3 0 1000]
    by (simp add: group_key_def)
  show ?one by code_simp
qed

text \<open>A poison message cannot loop for ever: a delivery over the cap does not reach the handler;
  its entry is appended to the dead-letter topic and acknowledged, so it leaves the pending list of
  the group, and it is counted as dead-lettered.\<close>

theorem exhausted_is_deadlettered:
  assumes "mb_ok (wk_bus w)" "delivered > max_redeliveries"
  shows "\<exists>b. process_message (mem_dead_letter wrap topic) f
               (ack_now (\<lambda>b ms. Some (ack_batch b (map (\<lambda>m. (topic, e_id m)) ms) grp)))
               max_redeliveries topic w (m, delivered) =
             (Some Deadlettered, w\<lparr>wk_bus := b, wk_metrics := incr (wk_metrics w) topic ''deadlettered''\<rparr>) \<and>
           e_id m \<notin> pending_ids b topic (group_key grp) \<and>
           (\<exists>e. stream b (topic @ ''.deadletter'') = stream (wk_bus w) (topic @ ''.deadletter'') @ [e] \<and>
                e_wire e = wrap topic m delivered \<and> e_key e = e_key m)"
proof -
  let ?dl = "topic @ ''.deadletter''"
  have "\<exists>b e. produce Some (wk_bus w) ?dl (KStr (e_key m)) (wrap topic m delivered) = Inr b \<and>
      stream b ?dl = stream (wk_bus w) ?dl @ [e] \<and> e_wire e = wrap topic m delivered \<and> e_key e = e_key m"
    by (cases "e_key m = []") (simp_all add: produce_def wire_key_def Let_def)
  then obtain b e where p: "produce Some (wk_bus w) ?dl (KStr (e_key m)) (wrap topic m delivered) = Inr b"
    and e: "stream b ?dl = stream (wk_bus w) ?dl @ [e]" "e_wire e = wrap topic m delivered" "e_key e = e_key m"
    by blast
  let ?b = "ack b topic (e_id m) grp"
  have "mem_dead_letter wrap topic (wk_bus w) m delivered = Some b" using p by (simp add: mem_dead_letter_def)
  then have "process_message (mem_dead_letter wrap topic) f
      (ack_now (\<lambda>b ms. Some (ack_batch b (map (\<lambda>m. (topic, e_id m)) ms) grp)))
      max_redeliveries topic w (m, delivered) =
      (Some Deadlettered, w\<lparr>wk_bus := ?b, wk_metrics := incr (wk_metrics w) topic ''deadlettered''\<rparr>)"
    using assms(2) by (simp add: process_message_def ack_now_def ack_batch_def count_result_def)
  moreover have "e_id m \<notin> pending_ids ?b topic (group_key grp)"
    using ack_spec(3) [OF produce_spec(1) [OF assms(1) p]] by simp
  moreover have "stream ?b ?dl = stream b ?dl" by (simp add: ack_view)
  ultimately show ?thesis using e by (intro exI [of _ ?b]) auto
qed

theorem exhausted_is_deadlettered_witness:
  "\<exists>b. process_message (mem_dead_letter (\<lambda>t m n. n) ''t'') odd_handler
         (ack_now (\<lambda>b ms. Some (ack_batch b (map (\<lambda>m. (''t'', e_id m)) ms) None))) 3 ''t'' failing_worker
         (\<lparr>e_id = 1, e_topic = ''t'', e_key = [], e_wire = 7\<rparr>, 4) =
       (Some Deadlettered, failing_worker\<lparr>wk_bus := b,
          wk_metrics := incr (wk_metrics failing_worker) ''t'' ''deadlettered''\<rparr>)"
proof -
  have "mb_ok (wk_bus failing_worker)" by (simp add: failing_worker_def mb_ok_run mb_ok_new)
  from exhausted_is_deadlettered [OF this, of 3 4] show ?thesis by (simp, blast)
qed

text \<open>A batch handler that treats its messages one after the other.\<close>

fun map_handler :: "('h \<Rightarrow> 'm \<Rightarrow> bool \<times> 'h) \<Rightarrow> 'h \<Rightarrow> 'm list \<Rightarrow> bool list \<times> 'h" where
  "map_handler f h [] = ([], h)"
| "map_handler f h (m # ms) = (let (ok, h1) = f h m; (oks, h2) = map_handler f h1 ms in (ok # oks, h2))"

lemma length_map_handler [simp]: "length (fst (map_handler f h ms)) = length ms"
  by (induction ms arbitrary: h) (simp_all add: Let_def split_def)

lemma split_dead_under:
  "\<forall>(m, n)\<in>set es. n \<le> k \<Longrightarrow> split_dead dead do_ack k topic es w = (Some (map fst es), w)"
  by (induction es) auto

lemma settle_defer:
  "settle defer_ack topic ((m, True) # rs) w =
     settle defer_ack topic rs (count_result topic ''acked'' (w\<lparr>wk_acks := wk_acks w @ [m]\<rparr>))"
  "settle defer_ack topic ((m, False) # rs) w = settle defer_ack topic rs (count_result topic ''failed'' w)"
  by (simp_all add: defer_ack_def)

lemma count_result_handler: "count_result topic r (w\<lparr>wk_handler := x\<rparr>) = (count_result topic r w)\<lparr>wk_handler := x\<rparr>"
  by (cases w) (simp add: count_result_def)

lemma acks_handler: "(w\<lparr>wk_handler := x\<rparr>)\<lparr>wk_acks := l\<rparr> = (w\<lparr>wk_acks := l\<rparr>)\<lparr>wk_handler := x\<rparr>"
  for w :: "('b, 'm, 'h) worker"
  by (cases w) simp

lemma settle_map_handler:
  assumes "\<forall>(m, n)\<in>set es. n \<le> k"
  shows "settle defer_ack topic (zip (map fst es) (fst (map_handler f (wk_handler w) (map fst es))))
           (w\<lparr>wk_handler := snd (map_handler f (wk_handler w) (map fst es))\<rparr>) =
         (True, fold (\<lambda>e w. snd (process_message dead f defer_ack k topic w e)) es w)"
  using assms
proof (induction es arbitrary: w)
  case (Cons e es)
  obtain m n where e: "e = (m, n)" by (cases e)
  obtain ok h where f: "f (wk_handler w) m = (ok, h)" by fastforce
  let ?w = "if ok then count_result topic ''acked'' (w\<lparr>wk_handler := h, wk_acks := wk_acks w @ [m]\<rparr>)
            else count_result topic ''failed'' (w\<lparr>wk_handler := h\<rparr>)"
  have step: "snd (process_message dead f defer_ack k topic w e) = ?w"
    using Cons.prems e f by (simp add: process_message_def defer_ack_def)
  have h: "wk_handler ?w = h" by (simp add: count_result_def)
  have "\<forall>(m, n)\<in>set es. n \<le> k" using Cons.prems by simp
  note IH = Cons.IH [OF this, of ?w, unfolded h]
  then show ?case
    using e f step by (cases ok) (simp_all add: Let_def split_def settle_defer count_result_handler acks_handler del: settle.simps)
qed simp

text \<open>Batching is only an optimisation: on deliveries that are not exhausted, handing the messages
  to a batch handler that treats them in order leaves the same worker (acknowledgements, counters,
  handler state, bus) as processing them one at a time.\<close>

theorem batch_is_sequential:
  assumes "\<forall>(m, n)\<in>set es. n \<le> max_redeliveries"
  shows "process_batch dead (\<lambda>h ms. (Some (fst (map_handler f h ms)), snd (map_handler f h ms)))
           defer_ack max_redeliveries topic es w =
         (True, fold (\<lambda>e w. snd (process_message dead f defer_ack max_redeliveries topic w e)) es w)"
proof (cases "es = []")
  case False
  with settle_map_handler [OF assms, where dead = dead and f = f and topic = topic and w = w]
  show ?thesis by (simp add: process_batch_def split_dead_under [OF assms] Let_def)
qed (simp add: process_batch_def)

theorem batch_is_sequential_witness:
  "wk_acks (snd (process_batch (mem_dead_letter (\<lambda>t m n. n) ''t'')
     (\<lambda>h ms. (Some (fst (map_handler odd_handler h ms)), snd (map_handler odd_handler h ms))) defer_ack 3 ''t''
     (map (\<lambda>m. (m, 1)) (stream (wk_bus failing_worker) ''t'')) failing_worker)) =
   [hd (stream (wk_bus failing_worker) ''t'')]"
proof -
  let ?es = "map (\<lambda>m. (m, 1::nat)) (stream (wk_bus failing_worker) ''t'')"
  have "\<forall>(m, n)\<in>set ?es. n \<le> 3" by auto
  note seq = batch_is_sequential [OF this]
  show ?thesis unfolding seq by code_simp
qed

end
