(* ===== verification/PyVal.thy ===== *)
theory PyVal
  imports Prelude Complex_Main
begin

text \<open>
  The Python values an event or a rule carries: what \<open>json.loads\<close> and \<open>yaml.safe_load\<close> build. A float
  is an exact rational or one of the IEEE specials (rounding is not modelled: the code only compares
  floats it was given, and truncates them). Dictionaries keep their insertion order and have string
  keys. Case folding and the digit classes are those of ASCII.

  Operations that raise in Python return the exception in a sum.
\<close>

subsection \<open>Values\<close>

datatype pyfloat = Fin rat | PosInf | NegInf | NaN

datatype pyval =
    PNone
  | PBool bool
  | PInt int
  | PFloat pyfloat
  | PStr string
  | PList "pyval list"
  | PDict "(string \<times> pyval) list"

type_synonym event = "(string, pyval) odict"

datatype py_exn = TypeError | ValueError | OverflowError | AttributeError | KeyError | RecursionError

type_synonym 'a py = "py_exn + 'a"

definition py_bind :: "'a py \<Rightarrow> ('a \<Rightarrow> 'b py) \<Rightarrow> 'b py" where
  "py_bind r f = (case r of Inl e \<Rightarrow> Inl e | Inr x \<Rightarrow> f x)"

lemma py_bind_simps [simp]: "py_bind (Inl e) f = Inl e" "py_bind (Inr x) f = f x"
  by (simp_all add: py_bind_def)

lemma py_bind_Inr: "py_bind r f = Inr y \<longleftrightarrow> (\<exists>x. r = Inr x \<and> f x = Inr y)"
  by (cases r) auto

fun truthy :: "pyval \<Rightarrow> bool" where
  "truthy PNone = False"
| "truthy (PBool b) = b"
| "truthy (PInt i) = (i \<noteq> 0)"
| "truthy (PFloat (Fin q)) = (q \<noteq> 0)"
| "truthy (PFloat _) = True"
| "truthy (PStr s) = (s \<noteq> [])"
| "truthy (PList xs) = (xs \<noteq> [])"
| "truthy (PDict d) = (d \<noteq> [])"

fun is_bool :: "pyval \<Rightarrow> bool" where
  "is_bool (PBool _) = True" | "is_bool _ = False"

fun is_str :: "pyval \<Rightarrow> bool" where
  "is_str (PStr _) = True" | "is_str _ = False"

fun is_dict :: "pyval \<Rightarrow> bool" where
  "is_dict (PDict _) = True" | "is_dict _ = False"

text \<open>\<open>isinstance(v, (int, float))\<close> holds of booleans too, as \<open>bool\<close> is a subtype of \<open>int\<close>.\<close>

fun num :: "pyval \<Rightarrow> pyfloat option" where
  "num (PBool b) = Some (Fin (if b then 1 else 0))"
| "num (PInt i) = Some (Fin (rat_of_int i))"
| "num (PFloat f) = Some f"
| "num _ = None"

fun float_eq :: "pyfloat \<Rightarrow> pyfloat \<Rightarrow> bool" where
  "float_eq (Fin p) (Fin q) = (p = q)"
| "float_eq PosInf PosInf = True"
| "float_eq NegInf NegInf = True"
| "float_eq _ _ = False"

fun float_lt :: "pyfloat \<Rightarrow> pyfloat \<Rightarrow> bool" where
  "float_lt (Fin p) (Fin q) = (p < q)"
| "float_lt (Fin _) PosInf = True"
| "float_lt NegInf (Fin _) = True"
| "float_lt NegInf PosInf = True"
| "float_lt _ _ = False"

lemma dict_value_size: "(k, v) \<in> set d \<Longrightarrow> size v \<le> size_list (size_prod (\<lambda>x. 0) size) (d :: event)"
  by (induction d) auto

text \<open>Python's \<open>==\<close>: numbers compare across types, containers element by element.\<close>

function py_eq :: "pyval \<Rightarrow> pyval \<Rightarrow> bool" where
  "py_eq a b =
     (case (num a, num b) of
        (Some x, Some y) \<Rightarrow> float_eq x y
      | _ \<Rightarrow>
        (case (a, b) of
           (PNone, PNone) \<Rightarrow> True
         | (PStr s, PStr t) \<Rightarrow> s = t
         | (PList xs, PList ys) \<Rightarrow>
             length xs = length ys \<and> (\<forall>p\<in>set (zip xs ys). py_eq (fst p) (snd p))
         | (PDict d, PDict e) \<Rightarrow>
             length d = length e \<and>
             (\<forall>p\<in>set d. case od_get e (fst p) of None \<Rightarrow> False | Some w \<Rightarrow> py_eq (snd p) w)
         | _ \<Rightarrow> False))"
  by pat_completeness auto
termination
  by (relation "measure (\<lambda>(a, b). size a)")
     (auto simp: less_Suc_eq_le dest!: set_zip_leftD intro: size_list_estimation' dict_value_size)

declare py_eq.simps [simp del]

subsection \<open>Paths\<close>

fun split_on :: "char \<Rightarrow> string \<Rightarrow> string list" where
  "split_on c [] = [[]]"
| "split_on c (x # xs) =
     (case split_on c xs of
        [] \<Rightarrow> [[x]]
      | y # ys \<Rightarrow> if x = c then [] # y # ys else (x # y) # ys)"

text \<open>\<open>_get_path_parts\<close>: PNone when a step is missing or the node is not a dictionary.\<close>

fun get_path_parts :: "pyval \<Rightarrow> string list \<Rightarrow> pyval" where
  "get_path_parts node [] = node"
| "get_path_parts (PDict d) (part # parts) =
     (case od_get d part of None \<Rightarrow> PNone | Some v \<Rightarrow> get_path_parts v parts)"
| "get_path_parts _ (part # parts) = PNone"

definition get_path :: "event \<Rightarrow> string \<Rightarrow> pyval" where
  "get_path doc dotted = get_path_parts (PDict doc) (split_on (CHR ''.'') dotted)"

text \<open>\<open>d.get(k)\<close>, \<open>d.get(k, default)\<close>, and \<open>x.get(k)\<close> on a value that may not be a dictionary.\<close>

definition dget :: "event \<Rightarrow> string \<Rightarrow> pyval" where
  "dget d k = get_default (od_get d) k PNone"

fun py_get :: "pyval \<Rightarrow> string \<Rightarrow> pyval py" where
  "py_get (PDict d) k = Inr (dget d k)"
| "py_get _ k = Inl AttributeError"

text \<open>\<open>a or b\<close>.\<close>

definition py_or :: "pyval \<Rightarrow> pyval \<Rightarrow> pyval" where
  "py_or a b = (if truthy a then a else b)"

subsection \<open>Text\<close>

definition ord :: "char \<Rightarrow> nat" where
  "ord c = of_char c"

definition is_digit :: "char \<Rightarrow> bool" where
  "is_digit c \<longleftrightarrow> 48 \<le> ord c \<and> ord c \<le> 57"

definition is_upper :: "char \<Rightarrow> bool" where
  "is_upper c \<longleftrightarrow> 65 \<le> ord c \<and> ord c \<le> 90"

definition is_lower :: "char \<Rightarrow> bool" where
  "is_lower c \<longleftrightarrow> 97 \<le> ord c \<and> ord c \<le> 122"

definition is_alnum :: "char \<Rightarrow> bool" where
  "is_alnum c \<longleftrightarrow> is_digit c \<or> is_upper c \<or> is_lower c"

definition is_word :: "char \<Rightarrow> bool" where
  "is_word c \<longleftrightarrow> is_alnum c \<or> c = CHR ''_''"

definition is_space :: "char \<Rightarrow> bool" where
  "is_space c \<longleftrightarrow> ord c = 32 \<or> 9 \<le> ord c \<and> ord c \<le> 13 \<or> 28 \<le> ord c \<and> ord c \<le> 31"

definition lower_char :: "char \<Rightarrow> char" where
  "lower_char c = (if is_upper c then char_of (ord c + 32) else c)"

definition lower :: "string \<Rightarrow> string" where
  "lower s = map lower_char s"

definition strip :: "string \<Rightarrow> string" where
  "strip s = rev (dropWhile is_space (rev (dropWhile is_space s)))"

text \<open>The decimal digits of a number, as \<open>str\<close> prints it.\<close>

fun nat_digits :: "nat \<Rightarrow> string" where
  "nat_digits n = (if n < 10 then [char_of (48 + n)] else nat_digits (n div 10) @ [char_of (48 + n mod 10)])"

declare nat_digits.simps [simp del]

definition int_str :: "int \<Rightarrow> string" where
  "int_str i = (if i < 0 then CHR ''-'' # nat_digits (nat (- i)) else nat_digits (nat i))"

text \<open>The same over the integers, for evaluation by the simplifier.\<close>

function int_digits :: "int \<Rightarrow> string" where
  "int_digits i = (if i < 10 then [char_of (48 + i)] else int_digits (i div 10) @ [char_of (48 + i mod 10)])"
  by pat_completeness auto
termination by (relation "measure nat") auto

declare int_digits.simps [simp del]

lemma int_digits_nat: "0 \<le> i \<Longrightarrow> int_digits i = nat_digits (nat i)"
proof (induction i rule: int_digits.induct)
  case (1 i)
  have c: "char_of (48 + j) = (char_of (48 + nat j) :: char)" if "0 \<le> j" for j :: int
  proof -
    have "char_of (int (48 + nat j)) = char_of (48 + nat j)"
      by (simp only: char_of_def bit_of_nat_iff_bit)
    with that show ?thesis by simp
  qed
  have "nat (i div 10) = nat i div 10" "nat (i mod 10) = nat i mod 10"
    using 1(2) by (simp_all add: nat_div_distrib nat_mod_distrib)
  moreover have "0 \<le> i div 10" using 1(2) by simp
  ultimately
  show ?case using 1
    by (subst int_digits.simps, subst nat_digits.simps) (auto simp: c)
qed

lemma int_str_code [code]: "int_str i = (if i < 0 then CHR ''-'' # int_digits (- i) else int_digits i)"
  by (simp add: int_str_def int_digits_nat)

definition digits_value :: "string \<Rightarrow> nat" where
  "digits_value s = foldl (\<lambda>n c. 10 * n + (ord c - 48)) 0 s"

lemma lower_char_idem [simp]: "lower_char (lower_char c) = lower_char c"
  by (auto simp: lower_char_def is_upper_def ord_def)

lemma lower_idem [simp]: "lower (lower s) = lower s"
  by (simp add: lower_def comp_def)

lemma ord_digit: "d < 10 \<Longrightarrow> ord (char_of (48 + d)) = 48 + d"
  by (simp add: ord_def)

lemma digits_value_snoc: "digits_value (s @ [c]) = 10 * digits_value s + (ord c - 48)"
  by (simp add: digits_value_def)

text \<open>Reading back the printed digits gives the number, and they are digits only.\<close>

lemma nat_digits_spec: "digits_value (nat_digits n) = n" "\<forall>c\<in>set (nat_digits n). is_digit c"
proof -
  have "digits_value (nat_digits n) = n \<and> (\<forall>c\<in>set (nat_digits n). is_digit c)"
  proof (induction n rule: nat_digits.induct)
    case (1 n)
    show ?case
    proof (cases "n < 10")
      case True
      then show ?thesis
        by (subst (1 2) nat_digits.simps) (simp add: digits_value_def is_digit_def ord_digit)
    next
      case False
      have "ord (char_of (48 + n mod 10)) = 48 + n mod 10" by (rule ord_digit) simp
      with 1 [OF False] False show ?thesis
        by (subst (1 2) nat_digits.simps) (auto simp: digits_value_snoc is_digit_def)
    qed
  qed
  then show "digits_value (nat_digits n) = n" "\<forall>c\<in>set (nat_digits n). is_digit c" by blast+
qed

lemma nat_digits_inject [simp]: "nat_digits m = nat_digits n \<longleftrightarrow> m = n"
  by (metis nat_digits_spec(1))

end
