(* ===== verification/Condition.thy ===== *)
theory Condition
  imports PyVal
begin

text \<open>
  Rule conditions of \<open>src/services/ws4-detection/engine.py\<close>: the tokenizer (the regular expression
  \<open>_CONDITION_TOKEN_RE\<close>) and the recursive-descent evaluator \<open>_parse_or\<close>, \<open>_parse_and\<close>, \<open>_parse_not\<close>,
  \<open>_parse_atom\<close>.

  A position in the token list is the rest of the list. Python's recursion limit is the first
  argument: the number of frames left, and RecursionError when there is none. The while loops carry a
  bound on their rounds, the length of the rest at their start, which they never exhaust. The grammar
  is an inductive relation between an expression and the tokens that spell it; the evaluator accepts
  exactly the grammar and computes its value.
\<close>

subsection \<open>Tokens\<close>

definition keywords_of_condition :: "string list" where
  "keywords_of_condition = [''and'', ''or'', ''not'']"

text \<open>
  A keyword matches up to a word boundary. The boundary before it always holds, since a run of word
  characters is taken whole.
\<close>

definition keyword_at :: "string \<Rightarrow> string option" where
  "keyword_at s =
     find (\<lambda>k. take (length k) s = k \<and>
               (case drop (length k) s of [] \<Rightarrow> True | c # _ \<Rightarrow> \<not> is_word c)) keywords_of_condition"

abbreviation name_char :: "char \<Rightarrow> bool" where
  "name_char c \<equiv> is_word c \<or> c = CHR ''.''"

lemma keyword_at_length: "keyword_at s = Some k \<Longrightarrow> k \<noteq> []"
  by (auto simp: keyword_at_def keywords_of_condition_def split: if_splits)

lemma drop_keyword: "keyword_at (c # cs) = Some k \<Longrightarrow> length (drop (length k) (c # cs)) < length (c # cs)"
  using keyword_at_length [of "c # cs" k] by (cases k) auto

function tokenize :: "string \<Rightarrow> string list" where
  "tokenize [] = []"
| "tokenize (c # cs) =
     (if c = CHR ''('' then ''('' # tokenize cs
      else if c = CHR '')'' then '')'' # tokenize cs
      else case keyword_at (c # cs) of
             Some k \<Rightarrow> k # tokenize (drop (length k) (c # cs))
           | None \<Rightarrow>
               if name_char c then takeWhile name_char (c # cs) # tokenize (dropWhile name_char (c # cs))
               else tokenize cs)"
  by pat_completeness auto
termination
  by (relation "measure length")
     (use drop_keyword in \<open>auto simp: length_dropWhile_le less_Suc_eq_le\<close>)

declare tokenize.simps [simp del]

subsection \<open>The evaluator\<close>

type_synonym env = "string \<Rightarrow> bool"

text \<open>The two while loops: operators of one precedence, folded to the left.\<close>

fun operand_loop ::
    "string \<Rightarrow> (bool \<Rightarrow> bool \<Rightarrow> bool) \<Rightarrow> (string list \<Rightarrow> (bool \<times> string list) py) \<Rightarrow> nat \<Rightarrow> bool \<Rightarrow>
     string list \<Rightarrow> (bool \<times> string list) py" where
  "operand_loop keyword join operand (Suc n) val (t # r) =
     (if t = keyword
      then py_bind (operand r) (\<lambda>(rhs, r). operand_loop keyword join operand n (join val rhs) r)
      else Inr (val, t # r))"
| "operand_loop keyword join operand _ val ts = Inr (val, ts)"

datatype production = Or_expr | And_expr | Not_expr | Atom_expr

primrec parse :: "env \<Rightarrow> nat \<Rightarrow> production \<Rightarrow> string list \<Rightarrow> (bool \<times> string list) py" where
  "parse env 0 nt ts = Inl RecursionError"
| "parse env (Suc d) nt ts =
     (case nt of
        Or_expr \<Rightarrow>
          py_bind (parse env d And_expr ts)
            (\<lambda>(val, ts). operand_loop ''or'' (\<or>) (parse env d And_expr) (length ts) val ts)
      | And_expr \<Rightarrow>
          py_bind (parse env d Not_expr ts)
            (\<lambda>(val, ts). operand_loop ''and'' (\<and>) (parse env d Not_expr) (length ts) val ts)
      | Not_expr \<Rightarrow>
          (if ts \<noteq> [] \<and> hd ts = ''not''
           then py_bind (parse env d Not_expr (tl ts)) (\<lambda>(val, r). Inr (\<not> val, r))
           else parse env d Atom_expr ts)
      | Atom_expr \<Rightarrow>
          (case ts of
             [] \<Rightarrow> Inl ValueError
           | t # r \<Rightarrow>
               if t = ''('' then
                 py_bind (parse env d Or_expr r)
                   (\<lambda>(val, r). if r = [] \<or> hd r \<noteq> '')'' then Inl ValueError else Inr (val, tl r))
               else if t \<in> {''and'', ''or'', ''not'', '')''} then Inl ValueError
               else Inr (env t, r)))"

abbreviation parse_or :: "env \<Rightarrow> nat \<Rightarrow> string list \<Rightarrow> (bool \<times> string list) py" where
  "parse_or env d \<equiv> parse env d Or_expr"

text \<open>
  \<open>_eval_condition\<close> after the selections are evaluated: every error, and every token left over, is
  no match.
\<close>

definition eval_tokens :: "nat \<Rightarrow> env \<Rightarrow> string list \<Rightarrow> bool" where
  "eval_tokens frames env ts =
     (case parse_or env frames ts of
        Inl _ \<Rightarrow> False
      | Inr (val, rest) \<Rightarrow> if rest \<noteq> [] then False else val)"

subsection \<open>The grammar\<close>

datatype cond = Sel string | Not_c cond | And_c cond cond | Or_c cond cond

primrec cond_value :: "env \<Rightarrow> cond \<Rightarrow> bool" where
  "cond_value env (Sel s) = env s"
| "cond_value env (Not_c c) = (\<not> cond_value env c)"
| "cond_value env (And_c a b) = (cond_value env a \<and> cond_value env b)"
| "cond_value env (Or_c a b) = (cond_value env a \<or> cond_value env b)"

definition reserved :: "string set" where
  "reserved = {''and'', ''or'', ''not'', ''('', '')''}"

inductive derives :: "production \<Rightarrow> cond \<Rightarrow> string list \<Rightarrow> bool" where
  or_one: "derives And_expr c ts \<Longrightarrow> derives Or_expr c ts"
| or_more: "derives Or_expr a ts \<Longrightarrow> derives And_expr b us \<Longrightarrow> derives Or_expr (Or_c a b) (ts @ ''or'' # us)"
| and_one: "derives Not_expr c ts \<Longrightarrow> derives And_expr c ts"
| and_more: "derives And_expr a ts \<Longrightarrow> derives Not_expr b us \<Longrightarrow> derives And_expr (And_c a b) (ts @ ''and'' # us)"
| not_one: "derives Atom_expr c ts \<Longrightarrow> derives Not_expr c ts"
| not_more: "derives Not_expr c ts \<Longrightarrow> derives Not_expr (Not_c c) (''not'' # ts)"
| atom_sel: "s \<notin> reserved \<Longrightarrow> derives Atom_expr (Sel s) [s]"
| atom_par: "derives Or_expr c ts \<Longrightarrow> derives Atom_expr c (''('' # ts @ [ '')'' ])"

inductive_cases derives_atomE: "derives Atom_expr c ts"
inductive_cases derives_notE: "derives Not_expr c ts"

text \<open>Soundness: what the evaluator consumed is derived by the grammar, with the value it returned.\<close>

lemma loop_sound:
  assumes operand: "\<And>ts v r. operand ts = Inr (v, r) \<Longrightarrow> \<exists>c p. ts = p @ r \<and> derives sub c p \<and> v = cond_value env c"
    and more: "\<And>a ts b us. derives nt a ts \<Longrightarrow> derives sub b us \<Longrightarrow> derives nt (con a b) (ts @ kw # us)"
    and con: "\<And>a b. cond_value env (con a b) = join (cond_value env a) (cond_value env b)"
  shows "operand_loop kw join operand n v ts = Inr (v', r) \<Longrightarrow> derives nt a p \<Longrightarrow> v = cond_value env a \<Longrightarrow>
    \<exists>c q. ts = q @ r \<and> derives nt c (p @ q) \<and> v' = cond_value env c"
proof (induction n arbitrary: v ts a p)
  case 0
  then show ?case by (intro exI [of _ a] exI [of _ "[]"]) simp
next
  case (Suc n)
  show ?case
  proof (cases "\<exists>t. ts = kw # t")
    case True
    then obtain t where t: "ts = kw # t" by blast
    with Suc.prems(1) obtain w u where w: "operand t = Inr (w, u)"
      "operand_loop kw join operand n (join v w) u = Inr (v', r)"
      by (cases "operand t") auto
    from operand [OF w(1)] obtain b q where b: "t = q @ u" "derives sub b q" "w = cond_value env b" by blast
    have "derives nt (con a b) (p @ kw # q)" by (rule more [OF Suc.prems(2) b(2)])
    from Suc.IH [OF w(2) this] obtain c q' where
      "u = q' @ r" "derives nt c ((p @ kw # q) @ q')" "v' = cond_value env c"
      using con Suc.prems(3) b(3) by auto
    then show ?thesis using t b(1) by (intro exI [of _ c] exI [of _ "kw # q @ q'"]) simp
  next
    case False
    with Suc.prems have "ts = r" "v' = v" by (cases ts; auto split: if_splits)+
    with Suc.prems show ?thesis by (intro exI [of _ a] exI [of _ "[]"]) simp
  qed
qed

lemma parse_sound:
  "parse env d nt ts = Inr (v, r) \<Longrightarrow> \<exists>c p. ts = p @ r \<and> derives nt c p \<and> v = cond_value env c"
proof (induction d arbitrary: nt ts v r)
  case (Suc d)
  show ?case
  proof (cases nt)
    case Or_expr
    with Suc.prems obtain w u where w: "parse env d And_expr ts = Inr (w, u)"
      "operand_loop ''or'' (\<or>) (parse env d And_expr) (length u) w u = Inr (v, r)"
      by (cases "parse env d And_expr ts") auto
    from Suc.IH [OF w(1)] obtain c p where c: "ts = p @ u" "derives And_expr c p" "w = cond_value env c" by blast
    from loop_sound [where sub = And_expr and nt = Or_expr and con = Or_c and join = "(\<or>)", OF Suc.IH or_more cond_value.simps(4) w(2) or_one [OF c(2)] c(3)]
    obtain c' q where "u = q @ r" "derives Or_expr c' (p @ q)" "v = cond_value env c'" by auto
    then show ?thesis using c(1) Or_expr by (intro exI [of _ c'] exI [of _ "p @ q"]) simp
  next
    case And_expr
    with Suc.prems obtain w u where w: "parse env d Not_expr ts = Inr (w, u)"
      "operand_loop ''and'' (\<and>) (parse env d Not_expr) (length u) w u = Inr (v, r)"
      by (cases "parse env d Not_expr ts") auto
    from Suc.IH [OF w(1)] obtain c p where c: "ts = p @ u" "derives Not_expr c p" "w = cond_value env c" by blast
    from loop_sound [where sub = Not_expr and nt = And_expr and con = And_c and join = "(\<and>)", OF Suc.IH and_more cond_value.simps(3) w(2) and_one [OF c(2)] c(3)]
    obtain c' q where "u = q @ r" "derives And_expr c' (p @ q)" "v = cond_value env c'" by auto
    then show ?thesis using c(1) And_expr by (intro exI [of _ c'] exI [of _ "p @ q"]) simp
  next
    case Not_expr
    show ?thesis
    proof (cases "ts \<noteq> [] \<and> hd ts = ''not''")
      case True
      with Suc.prems Not_expr obtain w where w: "parse env d Not_expr (tl ts) = Inr (w, r)" "v = (\<not> w)"
        by (cases "parse env d Not_expr (tl ts)") auto
      from Suc.IH [OF w(1)] obtain c p where "tl ts = p @ r" "derives Not_expr c p" "w = cond_value env c" by blast
      then show ?thesis using True w(2) Not_expr
        by (intro exI [of _ "Not_c c"] exI [of _ "''not'' # p"]) (cases ts; simp add: not_more)
    next
      case False
      with Suc.prems Not_expr have "parse env d Atom_expr ts = Inr (v, r)" by auto
      from Suc.IH [OF this] Not_expr not_one show ?thesis by blast
    qed
  next
    case Atom_expr
    with Suc.prems obtain t u where ts: "ts = t # u" by (cases ts) auto
    show ?thesis
    proof (cases "t = ''(''")
      case True
      with Suc.prems Atom_expr ts obtain w q where w: "parse env d Or_expr u = Inr (w, q)"
        "(if q = [] \<or> hd q \<noteq> '')'' then Inl ValueError else Inr (w, tl q)) = (Inr (v, r) :: (bool \<times> string list) py)"
        by (cases "parse env d Or_expr u") auto
      then have q: "q = '')'' # r" "w = v" by (cases q; auto split: if_splits)+
      from Suc.IH [OF w(1)] obtain c p where "u = p @ q" "derives Or_expr c p" "w = cond_value env c" by blast
      then show ?thesis using q ts True Atom_expr
        by (intro exI [of _ c] exI [of _ "''('' # p @ [ '')'' ]"]) (simp add: atom_par)
    next
      case False
      with Suc.prems Atom_expr ts have "t \<notin> reserved" "v = env t" "r = u"
        by (auto simp: reserved_def split: if_splits)
      then show ?thesis using ts Atom_expr
        by (intro exI [of _ "Sel t"] exI [of _ "[t]"]) (simp add: atom_sel)
    qed
  qed
qed simp

text \<open>Completeness: with four frames per token the evaluator consumes every derived token list.\<close>

lemma derives_nonempty: "derives nt c ts \<Longrightarrow> 0 < length ts"
  by (induction rule: derives.induct) auto

lemma derives_atom_hd: "derives Atom_expr c ts \<Longrightarrow> ts \<noteq> [] \<and> hd ts \<noteq> ''not''"
  by (erule derives_atomE) (auto simp: reserved_def)

lemma parse_rest_length: "parse env d nt ts = Inr (v, r) \<Longrightarrow> length r \<le> length ts"
  using parse_sound [of env d nt ts v r] by auto

lemma loop_bound_irrelevant:
  assumes "\<And>ts v r. operand ts = Inr (v, r) \<Longrightarrow> length r \<le> length ts"
  shows "length ts \<le> n \<Longrightarrow> operand_loop kw join operand n v ts = operand_loop kw join operand (length ts) v ts"
proof (induction n arbitrary: v ts rule: less_induct)
  case (less n)
  show ?case
  proof (cases ts)
    case (Cons t r)
    with less.prems obtain m where m: "n = Suc m" "length r \<le> m" by (cases n) auto
    have "operand_loop kw join operand m (join v rhs) u =
        operand_loop kw join operand (length r) (join v rhs) u" if "operand r = Inr (rhs, u)" for rhs u
    proof -
      have u: "length u \<le> length r" by (rule assms [OF that])
      have "operand_loop kw join operand m (join v rhs) u = operand_loop kw join operand (length u) (join v rhs) u"
        using m u by (intro less.IH) auto
      also have "\<dots> = operand_loop kw join operand (length r) (join v rhs) u"
      proof (cases "length r < n")
        case True
        then show ?thesis using less.IH [OF True u] by simp
      next
        case False
        then show ?thesis using m by simp
      qed
      finally show ?thesis .
    qed
    then show ?thesis unfolding Cons m(1) by (cases "operand r") auto
  qed (cases n; simp)
qed

abbreviation run_or :: "env \<Rightarrow> nat \<Rightarrow> bool \<Rightarrow> string list \<Rightarrow> (bool \<times> string list) py" where
  "run_or env d v r \<equiv> operand_loop ''or'' (\<or>) (parse env d And_expr) (length r) v r"

abbreviation run_and :: "env \<Rightarrow> nat \<Rightarrow> bool \<Rightarrow> string list \<Rightarrow> (bool \<times> string list) py" where
  "run_and env d v r \<equiv> operand_loop ''and'' (\<and>) (parse env d Not_expr) (length r) v r"

lemma loop_stop: "r = [] \<or> hd r \<noteq> kw \<Longrightarrow> operand_loop kw join operand n v r = Inr (v, r)"
  by (cases r; cases n) auto

definition completes :: "production \<Rightarrow> cond \<Rightarrow> string list \<Rightarrow> bool" where
  "completes nt c p \<longleftrightarrow> (\<forall>env d r.
     (case nt of
        Or_expr \<Rightarrow> 4 * length p \<le> d + 1 \<longrightarrow> (r = [] \<or> hd r \<noteq> ''and'') \<longrightarrow>
          parse env (Suc d) Or_expr (p @ r) = run_or env d (cond_value env c) r
      | And_expr \<Rightarrow> 4 * length p \<le> d + 2 \<longrightarrow>
          parse env (Suc d) And_expr (p @ r) = run_and env d (cond_value env c) r
      | Not_expr \<Rightarrow> 4 * length p \<le> d + 2 \<longrightarrow>
          parse env d Not_expr (p @ r) = Inr (cond_value env c, r)
      | Atom_expr \<Rightarrow> 4 * length p \<le> d + 3 \<longrightarrow>
          parse env d Atom_expr (p @ r) = Inr (cond_value env c, r)))"

lemma completes_and:
  assumes "completes And_expr c p" "4 * length p \<le> d + 1" "r = [] \<or> hd r \<noteq> ''and''" "0 < length p"
  shows "parse env d And_expr (p @ r) = Inr (cond_value env c, r)"
proof -
  obtain d' where d': "d = Suc d'" using assms(2,4) by (cases d) auto
  then have "parse env d And_expr (p @ r) = run_and env d' (cond_value env c) r"
    using assms(1,2) by (simp add: completes_def)
  then show ?thesis using loop_stop [OF assms(3)] by simp
qed

lemma completes_or:
  assumes "completes Or_expr c p" "4 * length p \<le> d" "r = [] \<or> hd r \<notin> {''and'', ''or''}" "0 < length p"
  shows "parse env d Or_expr (p @ r) = Inr (cond_value env c, r)"
proof -
  obtain d' where d': "d = Suc d'" using assms(2,4) by (cases d) auto
  then have "parse env d Or_expr (p @ r) = run_or env d' (cond_value env c) r"
    using assms(1,2,3) by (auto simp: completes_def)
  then show ?thesis using loop_stop [of r "''or''"] assms(3) by auto
qed

lemma derives_completes: "derives nt c p \<Longrightarrow> completes nt c p"
proof (induction rule: derives.induct)
  case (or_one c ts)
  show ?case
    unfolding completes_def
    using completes_and [OF or_one.IH] derives_nonempty [OF or_one.hyps] by simp
next
  case (or_more a ts b us)
  show ?case
    unfolding completes_def production.case
  proof (intro allI impI)
    fix env d r
    assume d: "4 * length (ts @ ''or'' # us) \<le> d + 1" and r: "r = [] \<or> hd r \<noteq> ''and''"
    have "parse env (Suc d) Or_expr (ts @ ''or'' # us @ r) =
        run_or env d (cond_value env a) (''or'' # us @ r)"
      using or_more.IH(1) d by (auto simp: completes_def)
    also have "\<dots> = operand_loop ''or'' (\<or>) (parse env d And_expr) (length (us @ r))
        (cond_value env a \<or> cond_value env b) r"
      using completes_and [OF or_more.IH(2) _ r derives_nonempty [OF or_more.hyps(2)], of d env] d by simp
    also have "\<dots> = run_or env d (cond_value env a \<or> cond_value env b) r"
      by (rule loop_bound_irrelevant) (auto dest: parse_rest_length)
    finally show "parse env (Suc d) Or_expr ((ts @ ''or'' # us) @ r) = run_or env d (cond_value env (Or_c a b)) r"
      by simp
  qed
next
  case (and_one c ts)
  show ?case
    unfolding completes_def using and_one.IH by (simp add: completes_def)
next
  case (and_more a ts b us)
  show ?case
    unfolding completes_def production.case
  proof (intro allI impI)
    fix env d r
    assume d: "4 * length (ts @ ''and'' # us) \<le> d + 2"
    have "parse env (Suc d) And_expr (ts @ ''and'' # us @ r) =
        run_and env d (cond_value env a) (''and'' # us @ r)"
      using and_more.IH(1) d by (auto simp: completes_def)
    also have "\<dots> = operand_loop ''and'' (\<and>) (parse env d Not_expr) (length (us @ r))
        (cond_value env a \<and> cond_value env b) r"
      using and_more.IH(2) d by (simp add: completes_def)
    also have "\<dots> = run_and env d (cond_value env a \<and> cond_value env b) r"
      by (rule loop_bound_irrelevant) (auto dest: parse_rest_length)
    finally show "parse env (Suc d) And_expr ((ts @ ''and'' # us) @ r) = run_and env d (cond_value env (And_c a b)) r"
      by simp
  qed
next
  case (not_one c ts)
  show ?case
    unfolding completes_def production.case
  proof (intro allI impI)
    fix env d r assume d: "4 * length ts \<le> d + 2"
    obtain d' where d': "d = Suc d'" using d derives_nonempty [OF not_one.hyps] by (cases d) auto
    have "ts @ r \<noteq> []" "hd (ts @ r) \<noteq> ''not''" using derives_atom_hd [OF not_one.hyps] by auto
    then show "parse env d Not_expr (ts @ r) = Inr (cond_value env c, r)"
      using not_one.IH d d' by (simp add: completes_def)
  qed
next
  case (not_more c ts)
  show ?case
    unfolding completes_def production.case
  proof (intro allI impI)
    fix env d r assume d: "4 * length (''not'' # ts) \<le> d + 2"
    then obtain d' where d': "d = Suc d'" by (cases d) auto
    then show "parse env d Not_expr ((''not'' # ts) @ r) = Inr (cond_value env (Not_c c), r)"
      using not_more.IH d by (simp add: completes_def)
  qed
next
  case (atom_sel s)
  show ?case
    unfolding completes_def production.case
  proof (intro allI impI)
    fix env d r assume "4 * length [s] \<le> d + 3"
    then obtain d' where "d = Suc d'" by (cases d) auto
    then show "parse env d Atom_expr ([s] @ r) = Inr (cond_value env (Sel s), r)"
      using atom_sel by (simp add: reserved_def)
  qed
next
  case (atom_par c ts)
  show ?case
    unfolding completes_def production.case
  proof (intro allI impI)
    fix env d r assume d: "4 * length (''('' # ts @ [ '')'' ]) \<le> d + 3"
    then obtain d' where d': "d = Suc d'" by (cases d) auto
    have "parse env d' Or_expr (ts @ '')'' # r) = Inr (cond_value env c, '')'' # r)"
      using completes_or [OF atom_par.IH _ _ derives_nonempty [OF atom_par.hyps]] d d' by simp
    then show "parse env d Atom_expr ((''('' # ts @ [ '')'' ]) @ r) = Inr (cond_value env c, r)"
      by (simp add: d')
  qed
qed

subsection \<open>Properties\<close>

lemma parse_or_iff:
  assumes "4 * length ts \<le> frames"
  shows "parse_or env frames ts = Inr (v, []) \<longleftrightarrow> (\<exists>c. derives Or_expr c ts \<and> cond_value env c = v)"
proof
  assume "parse_or env frames ts = Inr (v, [])"
  from parse_sound [OF this] show "\<exists>c. derives Or_expr c ts \<and> cond_value env c = v" by auto
next
  assume "\<exists>c. derives Or_expr c ts \<and> cond_value env c = v"
  then obtain c where c: "derives Or_expr c ts" "cond_value env c = v" by blast
  from completes_or [OF derives_completes [OF c(1)] assms _ derives_nonempty [OF c(1)], of "[]" env] c(2)
  show "parse_or env frames ts = Inr (v, [])" by simp
qed

text \<open>A condition without \<open>not\<close> is monotone in its selections.\<close>

primrec negation_free :: "cond \<Rightarrow> bool" where
  "negation_free (Sel s) = True"
| "negation_free (Not_c c) = False"
| "negation_free (And_c a b) = (negation_free a \<and> negation_free b)"
| "negation_free (Or_c a b) = (negation_free a \<and> negation_free b)"

lemma derives_negation_free: "derives nt c ts \<Longrightarrow> ''not'' \<notin> set ts \<Longrightarrow> negation_free c"
  by (induction rule: derives.induct) auto

lemma cond_value_mono: "negation_free c \<Longrightarrow> (\<And>s. env s \<Longrightarrow> env' s) \<Longrightarrow> cond_value env c \<Longrightarrow> cond_value env' c"
  by (induction c) auto

lemma parse_or_mono:
  assumes "4 * length ts \<le> frames" "''not'' \<notin> set ts" "\<And>s. env s \<Longrightarrow> env' s"
    and "parse_or env frames ts = Inr (True, [])"
  shows "parse_or env' frames ts = Inr (True, [])"
proof -
  from assms(4) obtain c where c: "derives Or_expr c ts" "cond_value env c = True"
    unfolding parse_or_iff [OF assms(1)] by blast
  from cond_value_mono [OF derives_negation_free [OF c(1) assms(2)] assms(3)] c(2)
  have "cond_value env' c = True" by simp
  with c(1) show ?thesis unfolding parse_or_iff [OF assms(1)] by blast
qed

text \<open>C9. The condition evaluator is exactly the documented grammar: given enough stack for the
  tokens, it accepts a token list, with a value, if and only if the grammar derives the list for an
  expression of that value; anything else, and any trailing token, is no match.\<close>

theorem parse_or_exact:
  assumes "4 * length ts \<le> frames"
  shows "parse_or env frames ts = Inr (v, []) \<longleftrightarrow> (\<exists>c. derives Or_expr c ts \<and> cond_value env c = v)"
  by (rule parse_or_iff [OF assms])

theorem parse_or_exact_witness:
  "\<exists>c. derives Or_expr c (tokenize ''a and not (b or c)'') \<and> cond_value (\<lambda>s. s = ''a'') c"
proof -
  let ?ts = "[''a'', ''and'', ''not'', ''('', ''b'', ''or'', ''c'', '')'']"
  have tok: "tokenize ''a and not (b or c)'' = ?ts" by code_simp
  have "parse_or (\<lambda>s. s = ''a'') 32 ?ts = Inr (True, [])" by code_simp
  with parse_or_exact [of ?ts 32 "\<lambda>s. s = ''a''" True] show ?thesis unfolding tok by simp
qed

end
