(* ===== verification/Identity.thy ===== *)
theory Identity
  imports PyVal
begin

text \<open>
  Tenant ids and account names: \<open>valid_tenant_id\<close>, \<open>default_tenant\<close> and \<open>stamp_meta\<close> of
  \<open>src/services/shared/envelope.py\<close>, and the per-tenant realm alias map of
  \<open>src/services/shared/identity_aliases.py\<close> (its validation, and the canonical form of an account).
\<close>

subsection \<open>Tenant ids\<close>

definition tenant_char :: "char \<Rightarrow> bool" where
  "tenant_char c \<longleftrightarrow> is_lower c \<or> is_digit c"

text \<open>The regular expression between its anchors: one label of at most 63 characters.\<close>

definition tenant_label :: "string \<Rightarrow> bool" where
  "tenant_label s \<longleftrightarrow>
     s \<noteq> [] \<and> length s \<le> 63 \<and> tenant_char (hd s) \<and> tenant_char (last s) \<and>
     list_all (\<lambda>c. tenant_char c \<or> c = CHR ''-'') s"

text \<open>Python's \<open>$\<close> matches at the end of the string and also before a final newline.\<close>

definition newline :: char where
  "newline = char_of (10 :: nat)"

definition valid_tenant_id :: "pyval \<Rightarrow> bool" where
  "valid_tenant_id v =
     (case v of
        PStr s \<Rightarrow> tenant_label s \<or> s \<noteq> [] \<and> last s = newline \<and> tenant_label (butlast s)
      | _ \<Rightarrow> False)"

definition default_tenant_name :: string where
  "default_tenant_name = ''default''"

definition default_tenant :: "string option \<Rightarrow> string" where
  "default_tenant env =
     (let tenant = (case env of None \<Rightarrow> default_tenant_name | Some s \<Rightarrow> s)
      in if \<not> valid_tenant_id (PStr tenant) then default_tenant_name else tenant)"

definition setdefault :: "event \<Rightarrow> string \<Rightarrow> pyval \<Rightarrow> event" where
  "setdefault d k v = (case od_get d k of None \<Rightarrow> od_set d k v | Some _ \<Rightarrow> d)"

definition stamp_meta :: "string \<Rightarrow> string option \<Rightarrow> event \<Rightarrow> event" where
  "stamp_meta fresh_id env meta =
     setdefault (setdefault meta ''trace_id'' (PStr fresh_id)) ''tenant_id'' (PStr (default_tenant env))"

subsection \<open>Alias maps\<close>


record tenant_map =
  tm_realms :: "(string, string) odict"
  tm_default :: "string option"

type_synonym aliases = "(string, tenant_map) odict"

text \<open>\<open>partition\<close> and \<open>rpartition\<close> at one character, when it occurs.\<close>

definition before :: "char \<Rightarrow> string \<Rightarrow> string" where
  "before c s = takeWhile (\<lambda>x. x \<noteq> c) s"

definition after :: "char \<Rightarrow> string \<Rightarrow> string" where
  "after c s = tl (dropWhile (\<lambda>x. x \<noteq> c) s)"

definition rbefore :: "char \<Rightarrow> string \<Rightarrow> string" where
  "rbefore c s = rev (after c (rev s))"

definition rafter :: "char \<Rightarrow> string \<Rightarrow> string" where
  "rafter c s = rev (before c (rev s))"

definition backslash :: char where
  "backslash = char_of (92 :: nat)"

definition split_account :: "string option \<Rightarrow> string \<Rightarrow> string \<times> string" where
  "split_account default_realm folded =
     (if backslash \<in> set folded then (before backslash folded, after backslash folded)
      else if CHR ''@'' \<in> set folded then (rafter (CHR ''@'') folded, rbefore (CHR ''@'') folded)
      else (case default_realm of None \<Rightarrow> [] | Some r \<Rightarrow> r, folded))"

definition match :: "tenant_map \<Rightarrow> string \<Rightarrow> string option" where
  "match tm folded =
     (let (realm, name) = split_account (tm_default tm) folded
      in case od_get (tm_realms tm) realm of
           None \<Rightarrow> None
         | Some canon \<Rightarrow>
             if name = [] \<or> backslash \<in> set name \<or> CHR ''@'' \<in> set name then None
             else Some (name @ ''@'' @ canon))"

definition canonical :: "tenant_map \<Rightarrow> string \<Rightarrow> string" where
  "canonical tm folded = (case match tm folded of None \<Rightarrow> folded | Some a \<Rightarrow> if a = [] then folded else a)"

definition fold_account :: "string \<Rightarrow> string" where
  "fold_account s = lower (strip s)"

definition canonical_account :: "aliases \<Rightarrow> string \<Rightarrow> string \<Rightarrow> string" where
  "canonical_account al tenant s =
     (case od_get al tenant of None \<Rightarrow> fold_account s | Some tm \<Rightarrow> canonical tm (fold_account s))"

definition alias_of :: "aliases \<Rightarrow> string \<Rightarrow> string \<Rightarrow> string option" where
  "alias_of al tenant s = (case od_get al tenant of None \<Rightarrow> None | Some tm \<Rightarrow> match tm (fold_account s))"

subsection \<open>Reading a map\<close>









subsection \<open>Well-formed maps\<close>










subsection \<open>The canonical form\<close>



subsection \<open>Properties\<close>



definition corp_map :: tenant_map where
  "corp_map = \<lparr>tm_realms = [(''corp'', ''corp''), (''corp.example'', ''corp'')], tm_default = None\<rparr>"



text \<open>Two spellings of one account that differ by a space after the backslash do not meet: the name
  is stripped before the realm is split off, not after, so the canonical form keeps the space and
  canonicalising it again gives the other form.\<close>

theorem inner_space_splits_account:
  "canonical_account [(''acme'', corp_map)] ''acme'' ([CHR ''C'', CHR ''O'', CHR ''R'', CHR ''P'', backslash] @ '' jdoe'')
     = '' jdoe@corp'' \<and>
   canonical_account [(''acme'', corp_map)] ''acme'' '' jdoe@corp'' = ''jdoe@corp''"
  by code_simp

text \<open>A tenant id followed by a newline is accepted, because the pattern ends with a dollar sign
  and not with the end-of-string anchor; a second newline, a colon or a slash is not.\<close>

theorem newline_tenant_accepted:
  "valid_tenant_id (PStr (''acme'' @ [newline])) \<and>
   default_tenant (Some (''acme'' @ [newline])) = ''acme'' @ [newline] \<and>
   \<not> valid_tenant_id (PStr (''acme'' @ [newline, newline])) \<and> \<not> valid_tenant_id (PStr ''a/b'')"
  by code_simp

text \<open>What holds of an accepted tenant id: no separator of the keys it is joined into.\<close>

lemma tenant_label_chars: "tenant_label s \<Longrightarrow> c \<in> set s \<Longrightarrow> is_lower c \<or> is_digit c \<or> c = CHR ''-''"
  by (auto simp: tenant_label_def list_all_iff tenant_char_def)

lemma valid_tenant_no_colon:
  assumes "valid_tenant_id (PStr s)"
  shows "CHR '':'' \<notin> set s"
proof -
  have c: "\<not> is_lower (CHR '':'')" "\<not> is_digit (CHR '':'')" "CHR '':'' \<noteq> newline" by code_simp+
  have label: "CHR '':'' \<notin> set t" if "tenant_label t" for t
    using tenant_label_chars [OF that, of "CHR '':''"] c by auto
  from assms show ?thesis
  proof (cases "tenant_label s")
    case False
    with assms have "s \<noteq> []" "last s = newline" "tenant_label (butlast s)"
      by (simp_all add: valid_tenant_id_def)
    then have "set s = insert newline (set (butlast s))" by (metis append_butlast_last_id list.simps(15) rotate1.simps(2) set_rotate1)
    with label [OF \<open>tenant_label (butlast s)\<close>] c(3) show ?thesis by auto
  qed (simp add: label)
qed

end
