(* ===== verification/Operators.thy ===== *)
theory Operators
  imports PyVal
begin

text \<open>
  The value predicates of a rule selection (\<open>src/services/ws4-detection/engine.py\<close>): list
  membership, bounded substring, glob patterns (\<open>fnmatch.fnmatchcase\<close>), business hours, numeric
  comparison, and the operator dictionary that combines them. A predicate that can raise returns
  \<open>bool py\<close>. The suppression list of \<open>not_in\<close> lives in a file: it is the parameter \<open>allowed\<close>.
\<close>

subsection \<open>Membership and substrings\<close>

fun in_list :: "pyval \<Rightarrow> pyval list \<Rightarrow> bool" where
  "in_list actual [] = False"
| "in_list actual (c # cs) =
     (if is_bool actual \<noteq> is_bool c then in_list actual cs
      else if py_eq actual c then True else in_list actual cs)"

definition contains_max :: nat where
  "contains_max = 200"

fun substring :: "string \<Rightarrow> string \<Rightarrow> bool" where
  "substring needle [] = (needle = [])"
| "substring needle (c # s) = (take (length needle) (c # s) = needle \<or> substring needle s)"

definition contains :: "pyval \<Rightarrow> pyval \<Rightarrow> bool" where
  "contains actual needle =
     (case (actual, needle) of
        (PStr a, PStr n) \<Rightarrow> if n = [] \<or> length n > contains_max then False else substring n a
      | _ \<Rightarrow> False)"

subsection \<open>Globs\<close>

datatype glob_item = Any_run | Any_one | Lit char | Class bool "(char \<times> char) list"

text \<open>The inside of a bracket and what follows it; None when it is never closed.\<close>

definition bracket_split :: "string \<Rightarrow> (string \<times> string) option" where
  "bracket_split p =
     (let n0 = (if p \<noteq> [] \<and> hd p = CHR ''!'' then 1 else 0);
          n1 = (if drop n0 p \<noteq> [] \<and> hd (drop n0 p) = CHR '']'' then n0 + 1 else n0);
          r = drop n1 p;
          inner = takeWhile (\<lambda>c. c \<noteq> CHR '']'') r
      in if length inner = length r then None
         else Some (take n1 p @ inner, drop (Suc (length inner)) r))"

fun class_ranges :: "string \<Rightarrow> (char \<times> char) list" where
  "class_ranges (x # y # z # r) = (if y = CHR ''-'' then (x, z) # class_ranges r
                                   else (x, x) # class_ranges (y # z # r))"
| "class_ranges (x # r) = (x, x) # class_ranges r"
| "class_ranges [] = []"

definition class_of :: "string \<Rightarrow> glob_item" where
  "class_of s = (if s \<noteq> [] \<and> hd s = CHR ''!'' then Class True (class_ranges (tl s))
                 else Class False (class_ranges s))"

lemma bracket_split_shorter: "bracket_split p = Some (inner, r) \<Longrightarrow> length r < Suc (length p)"
  by (auto simp: bracket_split_def Let_def split: if_splits)

function parse_glob :: "string \<Rightarrow> glob_item list" where
  "parse_glob [] = []"
| "parse_glob (c # p) =
     (if c = CHR ''*'' then Any_run # parse_glob p
      else if c = CHR ''?'' then Any_one # parse_glob p
      else if c = CHR ''['' then
        (case bracket_split p of
           None \<Rightarrow> Lit c # parse_glob p
         | Some (inner, r) \<Rightarrow> class_of inner # parse_glob r)
      else Lit c # parse_glob p)"
  by pat_completeness auto
termination
  by (relation "measure length") (auto dest: bracket_split_shorter)

declare parse_glob.simps [simp del]

definition in_range :: "char \<Rightarrow> char \<times> char \<Rightarrow> bool" where
  "in_range c r \<longleftrightarrow> ord (fst r) \<le> ord c \<and> ord c \<le> ord (snd r)"

fun item_matches :: "glob_item \<Rightarrow> char \<Rightarrow> bool" where
  "item_matches (Lit x) c = (x = c)"
| "item_matches (Class neg rs) c = ((\<exists>r\<in>set rs. in_range c r) \<noteq> neg)"
| "item_matches _ c = True"

fun glob_items :: "glob_item list \<Rightarrow> string \<Rightarrow> bool" where
  "glob_items [] s = (s = [])"
| "glob_items (Any_run # ps) [] = glob_items ps []"
| "glob_items (Any_run # ps) (c # s) = (glob_items ps (c # s) \<or> glob_items (Any_run # ps) s)"
| "glob_items (p # ps) [] = False"
| "glob_items (p # ps) (c # s) = (item_matches p c \<and> glob_items ps s)"

definition fnmatchcase :: "string \<Rightarrow> string \<Rightarrow> bool" where
  "fnmatchcase name pat = glob_items (parse_glob pat) name"

definition glob_max :: nat where
  "glob_max = 200"

definition glob_match :: "pyval \<Rightarrow> pyval \<Rightarrow> bool" where
  "glob_match actual pattern =
     (case (actual, pattern) of
        (PStr a, PStr p) \<Rightarrow> if p = [] \<or> length p > glob_max then False else fnmatchcase a p
      | _ \<Rightarrow> False)"

subsection \<open>Business hours\<close>

definition day_names :: "(string, nat) odict" where
  "day_names = [(''mon'', 0), (''tue'', 1), (''wed'', 2), (''thu'', 3), (''fri'', 4), (''sat'', 5), (''sun'', 6)]"

definition weekdays :: pyval where
  "weekdays = PList (map PStr [''mon'', ''tue'', ''wed'', ''thu'', ''fri''])"

definition parse_hhmm :: "pyval \<Rightarrow> nat option" where
  "parse_hhmm v =
     (case v of
        PStr [a, b, c, d, e] \<Rightarrow>
          if c = CHR '':'' \<and> is_digit b \<and> is_digit e \<and> is_digit d \<and> ord d \<le> 53 \<and>
             (a = CHR ''0'' \<or> a = CHR ''1'' \<or> a = CHR ''2'' \<and> ord b \<le> 51)
          then Some (digits_value [a, b] * 60 + digits_value [d, e]) else None
      | _ \<Rightarrow> None)"

text \<open>\<open>int(x)\<close> of a number truncates; the specials raise.\<close>

fun int_of_float :: "pyfloat \<Rightarrow> int py" where
  "int_of_float (Fin q) = Inr (if 0 \<le> q then \<lfloor>q\<rfloor> else \<lceil>q\<rceil>)"
| "int_of_float NaN = Inl ValueError"
| "int_of_float _ = Inl OverflowError"

fun read_days :: "pyval list \<Rightarrow> nat set option" where
  "read_days [] = Some {}"
| "read_days (PStr d # ds) =
     (case od_get day_names (lower d) of
        None \<Rightarrow> None
      | Some n \<Rightarrow> (case read_days ds of None \<Rightarrow> None | Some s \<Rightarrow> Some (insert n s)))"
| "read_days (_ # ds) = None"

record hours =
  h_start :: nat
  h_end :: nat
  h_tz :: int
  h_days :: "nat set"

definition read_hours :: "pyval \<Rightarrow> hours option" where
  "read_hours spec =
     (case spec of
        PDict d \<Rightarrow>
          if d = [] then None
          else (case (parse_hhmm (dget d ''start''), parse_hhmm (dget d ''end'')) of
                  (Some s, Some e) \<Rightarrow>
                    if s = e then None
                    else (case get_default (od_get d) ''tz_offset_minutes'' (PInt 0) of
                            PInt tz \<Rightarrow>
                              if \<not> (- 840 \<le> tz \<and> tz \<le> 840) then None
                              else (case get_default (od_get d) ''days'' weekdays of
                                      PList ds \<Rightarrow>
                                        if ds = [] then None
                                        else (case read_days ds of
                                                None \<Rightarrow> None
                                              | Some days \<Rightarrow>
                                                  if fst ` set d \<subseteq> {''start'', ''end'', ''days'', ''tz_offset_minutes''}
                                                  then Some \<lparr>h_start = s, h_end = e, h_tz = tz, h_days = days\<rparr>
                                                  else None)
                                    | _ \<Rightarrow> None)
                          | _ \<Rightarrow> None)
                | _ \<Rightarrow> None)
      | _ \<Rightarrow> None)"

definition outside :: "hours \<Rightarrow> int \<Rightarrow> bool" where
  "outside h ms =
     (let local_minutes = ms div 60000 + h_tz h;
          weekday = (local_minutes div 1440 + 3) mod 7;
          minute_of_day = local_minutes mod 1440;
          inside = (if h_start h < h_end h
                    then int (h_start h) \<le> minute_of_day \<and> minute_of_day < int (h_end h)
                    else minute_of_day \<ge> int (h_start h) \<or> minute_of_day < int (h_end h))
      in if nat weekday \<notin> h_days h then True else \<not> inside)"

definition time_outside_hours :: "pyval \<Rightarrow> pyval \<Rightarrow> bool py" where
  "time_outside_hours spec actual =
     (case actual of
        PBool _ \<Rightarrow> Inr False
      | _ \<Rightarrow>
        (case (num actual, read_hours spec) of
           (Some x, Some h) \<Rightarrow> py_bind (int_of_float x) (\<lambda>ms. Inr (outside h ms))
         | _ \<Rightarrow> Inr False))"

subsection \<open>Comparisons and operator dictionaries\<close>

definition numeric_ops :: "string set" where
  "numeric_ops = {''gt'', ''gte'', ''lt'', ''lte'', ''ne''}"

definition numeric_compare :: "string \<Rightarrow> pyval \<Rightarrow> pyval \<Rightarrow> bool" where
  "numeric_compare opr actual expected =
     (if is_bool actual \<or> is_bool expected then False
      else case (num actual, num expected) of
             (Some x, Some y) \<Rightarrow>
               if opr = ''gt'' then float_lt y x
               else if opr = ''gte'' then float_lt y x \<or> float_eq x y
               else if opr = ''lt'' then float_lt x y
               else if opr = ''lte'' then float_lt x y \<or> float_eq x y
               else if opr = ''ne'' then \<not> float_eq x y
               else False
           | _ \<Rightarrow> False)"

fun operator_matches :: "(string \<Rightarrow> pyval \<Rightarrow> bool) \<Rightarrow> event \<Rightarrow> pyval \<Rightarrow> bool py" where
  "operator_matches allowed [] actual = Inr True"
| "operator_matches allowed ((opr, arg) # rest) actual =
     (let continue_if = (\<lambda>b. if b then operator_matches allowed rest actual else Inr False)
      in if opr \<in> numeric_ops then continue_if (numeric_compare opr actual arg)
         else if opr = ''not_in'' then
           (case arg of PStr name \<Rightarrow> continue_if (\<not> allowed name actual) | _ \<Rightarrow> Inr False)
         else if opr = ''outside_hours'' then py_bind (time_outside_hours arg actual) continue_if
         else if opr = ''in'' then
           (case arg of PList cs \<Rightarrow> continue_if (in_list actual cs) | _ \<Rightarrow> Inr False)
         else if opr = ''contains'' then continue_if (contains actual arg)
         else if opr = ''glob'' then continue_if (glob_match actual arg)
         else if opr = ''exists'' then
           (case arg of PBool b \<Rightarrow> continue_if ((actual \<noteq> PNone) = b) | _ \<Rightarrow> Inr False)
         else Inr False)"

definition operators_match :: "(string \<Rightarrow> pyval \<Rightarrow> bool) \<Rightarrow> event \<Rightarrow> pyval \<Rightarrow> bool py" where
  "operators_match allowed expected actual =
     (if expected = [] then Inr False else operator_matches allowed expected actual)"

fun selection_matches :: "(string \<Rightarrow> pyval \<Rightarrow> bool) \<Rightarrow> (string list \<times> pyval) list \<Rightarrow> event \<Rightarrow> bool py" where
  "selection_matches allowed [] evt = Inr True"
| "selection_matches allowed ((parts, expected) # sel) evt =
     (let actual = get_path_parts (PDict evt) parts
      in case expected of
           PDict ops \<Rightarrow> py_bind (operators_match allowed ops actual)
                          (\<lambda>b. if b then selection_matches allowed sel evt else Inr False)
         | _ \<Rightarrow> if py_eq actual expected then selection_matches allowed sel evt else Inr False)"

subsection \<open>Properties\<close>

lemma time_outside_int: "read_hours spec = Some h \<Longrightarrow> time_outside_hours spec (PInt i) = Inr (outside h i)"
  by (simp add: time_outside_hours_def)

text \<open>C32. The business-hours predicate means what its documentation says. For a well-formed
  specification and an event at minute m of local day D (day 0 is Thursday 1 January 1970), before
  or after the epoch, the predicate is false exactly when the weekday is listed and the minute lies
  in the half-open window, which wraps midnight when it starts after it ends.\<close>

theorem business_hours:
  assumes "read_hours spec = Some h" "0 \<le> m" "m < 1440" "0 \<le> r" "r < 60000"
  shows "time_outside_hours spec (PInt ((1440 * D + m - h_tz h) * 60000 + r)) =
         Inr (\<not> (nat ((D + 3) mod 7) \<in> h_days h \<and>
                  (if h_start h < h_end h then int (h_start h) \<le> m \<and> m < int (h_end h)
                   else int (h_start h) \<le> m \<or> m < int (h_end h))))"
proof -
  let ?ms = "(1440 * D + m - h_tz h) * 60000 + r"
  have "?ms div 60000 = 1440 * D + m - h_tz h" using assms(4,5) by simp
  then have local: "?ms div 60000 + h_tz h = 1440 * D + m" by simp
  have "(1440 * D + m) div 1440 = D" "(1440 * D + m) mod 1440 = m" using assms(2,3) by simp_all
  with local have "outside h ?ms = (\<not> (nat ((D + 3) mod 7) \<in> h_days h \<and>
      (if h_start h < h_end h then int (h_start h) \<le> m \<and> m < int (h_end h)
       else int (h_start h) \<le> m \<or> m < int (h_end h))))"
    by (simp add: outside_def Let_def)
  then show ?thesis unfolding time_outside_int [OF assms(1)] by (rule arg_cong)
qed

definition office :: pyval where
  "office = PDict [(''start'', PStr ''08:00''), (''end'', PStr ''18:00'')]"

theorem business_hours_witness:
  "time_outside_hours office (PInt ((1440 * 0 + 600 - 0) * 60000 + 5)) = Inr False \<and>
   time_outside_hours office (PInt ((1440 * 2 + 600 - 0) * 60000 + 5)) = Inr True"
proof -
  have h: "read_hours office = Some \<lparr>h_start = 480, h_end = 1080, h_tz = 0, h_days = {0, 1, 2, 3, 4}\<rparr>"
    by code_simp
  from business_hours [OF h, of 600 5 0] business_hours [OF h, of 600 5 2] show ?thesis by simp
qed

text \<open>The business-hours predicate can raise, although its documentation says it never does: on a
  well-formed specification an event time that is not a number raises ValueError and an infinite one
  OverflowError, and with them the whole selection.\<close>

theorem business_hours_raises:
  "time_outside_hours office (PFloat NaN) = Inl ValueError \<and>
   time_outside_hours office (PFloat PosInf) = Inl OverflowError \<and>
   selection_matches (\<lambda>_ _. False) [([''time''], PDict [(''outside_hours'', office)])]
     [(''time'', PFloat NaN)] = Inl ValueError"
  by code_simp

text \<open>Only the specials raise.\<close>

lemma business_hours_finite: "actual \<notin> PFloat ` {NaN, PosInf, NegInf} \<Longrightarrow> \<exists>b. time_outside_hours spec actual = Inr b"
proof (cases "num actual")
  case (Some x)
  assume "actual \<notin> PFloat ` {NaN, PosInf, NegInf}"
  with Some obtain q where "x = Fin q" by (cases actual; cases x) auto
  with Some show ?thesis by (cases actual) (auto simp: time_outside_hours_def split: option.split)
qed (cases actual; auto simp: time_outside_hours_def)

text \<open>Patterns without wildcards match themselves only, and a pattern of stars matches everything.\<close>

lemma glob_literal: "\<forall>p\<in>set ps. \<exists>c. p = Lit c \<Longrightarrow> glob_items ps s \<longleftrightarrow> ps = map Lit s"
proof (induction ps arbitrary: s)
  case (Cons p ps)
  then obtain c where "p = Lit c" by auto
  with Cons show ?case by (cases s) auto
qed auto

lemma glob_any: "glob_items [Any_run] s"
  by (induction s) auto

lemma glob_prefix: "glob_items (map Lit p @ [Any_run]) s \<longleftrightarrow> take (length p) s = p \<and> length p \<le> length s"
proof (induction p arbitrary: s)
  case (Cons c p)
  then show ?case by (cases s) auto
qed (simp add: glob_any)

end
