(* ===== verification/Rule_Load.thy ===== *)
theory Rule_Load
  imports Condition Operators Identity
begin

text \<open>
  Loading a rule: \<open>Rule.__init__\<close>, \<open>Rule._bucketable_class_uid\<close> and the load guard
  \<open>_validate_loaded_rule\<close> of \<open>src/services/ws4-detection/engine.py\<close>.

  What the process environment gives is collected in the record \<open>host\<close>: the clock, the environment
  variables, the text Python prints for floats and containers, the allowlists and the active alias
  map. The loader only lets rules through whose window and threshold are positive integers, so a
  \<open>rule\<close> keeps them as integers. Warnings are not modelled.
\<close>

subsection \<open>The environment\<close>

record host =
  ho_wall :: int
  ho_mode :: "string option"
  ho_skew :: "string option"
  ho_float :: "string \<Rightarrow> pyfloat option"
  ho_text :: "pyval \<Rightarrow> string"
  ho_fingerprint :: "event \<Rightarrow> string"
  ho_allowed :: "string \<Rightarrow> pyval \<Rightarrow> bool"
  ho_aliases :: aliases
  ho_frames :: nat

text \<open>\<open>str(v)\<close>; floats and containers print through the host.\<close>

definition py_str :: "host \<Rightarrow> pyval \<Rightarrow> string" where
  "py_str ho v =
     (case v of
        PNone \<Rightarrow> ''None''
      | PBool b \<Rightarrow> if b then ''True'' else ''False''
      | PInt i \<Rightarrow> int_str i
      | PStr s \<Rightarrow> s
      | _ \<Rightarrow> ho_text ho v)"

fun join :: "string \<Rightarrow> string list \<Rightarrow> string" where
  "join sep [] = []"
| "join sep [s] = s"
| "join sep (s # ss) = s @ sep @ join sep ss"

text \<open>\<open>int(s)\<close> of a text: an optional sign and digits, single underscores between them.\<close>

definition digit_groups :: "string \<Rightarrow> int option" where
  "digit_groups s =
     (if \<forall>g\<in>set (split_on (CHR ''_'') s). g \<noteq> [] \<and> (\<forall>c\<in>set g. is_digit c)
      then Some (int (digits_value (filter is_digit s))) else None)"

definition int_text :: "string \<Rightarrow> int option" where
  "int_text text =
     (case strip text of
        [] \<Rightarrow> None
      | c # s \<Rightarrow> if c = CHR ''-'' then map_option uminus (digit_groups s)
                 else if c = CHR ''+'' then digit_groups s
                 else digit_groups (c # s))"

definition py_int :: "pyval \<Rightarrow> int py" where
  "py_int v =
     (case v of
        PInt i \<Rightarrow> Inr i
      | PBool b \<Rightarrow> Inr (if b then 1 else 0)
      | PFloat x \<Rightarrow> int_of_float x
      | PStr s \<Rightarrow> (case int_text s of None \<Rightarrow> Inl ValueError | Some i \<Rightarrow> Inr i)
      | _ \<Rightarrow> Inl TypeError)"

text \<open>A method call on a value of another type is an AttributeError.\<close>

definition as_dict :: "pyval \<Rightarrow> event py" where
  "as_dict v = (case v of PDict d \<Rightarrow> Inr d | _ \<Rightarrow> Inl AttributeError)"

definition as_str :: "pyval \<Rightarrow> string py" where
  "as_str v = (case v of PStr s \<Rightarrow> Inr s | _ \<Rightarrow> Inl AttributeError)"

subsection \<open>Rules\<close>

type_synonym selections = "(string \<times> event) list"

record rule =
  r_id :: pyval
  r_title :: pyval
  r_level :: pyval
  r_selections :: "(string \<times> (string list \<times> pyval) list) list"
  r_tokens :: "string list"
  r_class_uid :: "pyval option"
  r_sector :: pyval
  r_score_weight :: int
  r_companion_of :: "string option"
  r_default_enabled :: bool
  r_opt_in_required :: bool
  r_llm_gate :: bool
  r_exposure_gate :: bool
  r_window_seconds :: "int option"
  r_threshold :: "int option"
  r_group_by :: string
  r_distinct_field :: "string option"
  r_periodicity :: pyval
  r_mitre :: pyval

definition stateful :: "rule \<Rightarrow> bool" where
  "stateful r \<longleftrightarrow> r_window_seconds r \<noteq> None \<and> r_threshold r \<noteq> None"

definition condition_tokens :: "string \<Rightarrow> string list \<Rightarrow> string list" where
  "condition_tokens condition names =
     tokenize (if strip condition \<noteq> [] then strip condition else join '' and '' names)"

fun compile_selections :: "(string \<times> pyval) list \<Rightarrow> selections py" where
  "compile_selections [] = Inr []"
| "compile_selections ((name, sel) # sels) =
     py_bind (as_dict sel) (\<lambda>d. py_bind (compile_selections sels) (\<lambda>ds. Inr ((name, d) # ds)))"

definition compiled :: "event \<Rightarrow> (string list \<times> pyval) list" where
  "compiled sel = map (\<lambda>(path, expected). (split_on (CHR ''.'') path, expected)) sel"

subsection \<open>Bucketing by class\<close>

fun class_key :: "pyval \<Rightarrow> bool" where
  "class_key (PInt _) = True"
| "class_key (PStr _) = True"
| "class_key _ = False"

definition class_candidates :: "selections \<Rightarrow> pyval list" where
  "class_candidates sels =
     foldl (\<lambda>cs (name, sel). if class_key (dget sel ''class_uid'') \<and> dget sel ''class_uid'' \<notin> set cs
                             then cs @ [dget sel ''class_uid''] else cs) [] sels"

definition probe :: "selections \<Rightarrow> pyval \<Rightarrow> bool \<Rightarrow> env" where
  "probe sels cand force_others name =
     (case od_get sels name of
        None \<Rightarrow> False
      | Some sel \<Rightarrow> if dget sel ''class_uid'' = cand \<and> class_key (dget sel ''class_uid'') then False
                    else force_others)"

definition satisfiable_without :: "nat \<Rightarrow> string list \<Rightarrow> selections \<Rightarrow> pyval \<Rightarrow> bool" where
  "satisfiable_without frames tokens sels cand =
     (\<exists>force_others\<in>{True, False}.
        case parse_or (probe sels cand force_others) frames tokens of
          Inl _ \<Rightarrow> True
        | Inr (v, rest) \<Rightarrow> rest = [] \<and> v)"

definition bucketable_class_uid :: "nat \<Rightarrow> string list \<Rightarrow> selections \<Rightarrow> pyval option" where
  "bucketable_class_uid frames tokens sels =
     find (\<lambda>cand. \<not> satisfiable_without frames tokens sels cand) (class_candidates sels)"

subsection \<open>Construction\<close>

text \<open>
  A window or a threshold: absent, or an integer. The constructor raises ValueError on a value that
  is not a number; the fractional numbers it takes never get there, see \<open>load_poison\<close>.
\<close>

definition whole_number :: "pyval \<Rightarrow> int option py" where
  "whole_number v = (case v of PNone \<Rightarrow> Inr None | PInt i \<Rightarrow> Inr (Some i) | _ \<Rightarrow> Inl ValueError)"

definition rule_init :: "nat \<Rightarrow> event \<Rightarrow> rule py" where
  "rule_init frames raw =
     py_bind (as_dict (get_default (od_get raw) ''detection'' (PDict []))) (\<lambda>det.
     (let named = filter (\<lambda>e. fst e \<noteq> ''condition'') det in
     py_bind (as_str (get_default (od_get det) ''condition'' (PStr []))) (\<lambda>condition.
     py_bind (compile_selections named) (\<lambda>sels.
     (let tokens = condition_tokens condition (map fst named) in
     py_bind (as_dict (get_default (od_get raw) ''siem'' (PDict []))) (\<lambda>siem.
     py_bind (py_int (get_default (od_get siem) ''score_weight'' (PInt 0))) (\<lambda>weight.
     py_bind (whole_number (dget siem ''window_seconds'')) (\<lambda>window.
     py_bind (whole_number (dget siem ''threshold'')) (\<lambda>threshold.
     py_bind (as_str (get_default (od_get siem) ''group_by'' (PStr ''src_endpoint.ip''))) (\<lambda>group_by.
     py_bind (if truthy (dget siem ''distinct_field'')
              then py_bind (as_str (dget siem ''distinct_field'')) (\<lambda>s. Inr (Some s)) else Inr None) (\<lambda>distinct.
     (let enabled = get_default (od_get siem) ''default_enabled'' (PBool True) \<noteq> PBool False in
     Inr \<lparr>r_id = dget raw ''id'',
          r_title = get_default (od_get raw) ''title'' (PStr ''untitled''),
          r_level = get_default (od_get raw) ''level'' (PStr ''medium''),
          r_selections = map (\<lambda>(name, sel). (name, compiled sel)) sels,
          r_tokens = tokens,
          r_class_uid = bucketable_class_uid frames tokens sels,
          r_sector = get_default (od_get siem) ''sector'' (PStr ''common''),
          r_score_weight = weight,
          r_companion_of = (case dget siem ''companion_of'' of PStr s \<Rightarrow> if s \<noteq> [] then Some s else None | _ \<Rightarrow> None),
          r_default_enabled = enabled,
          r_opt_in_required = (\<not> enabled),
          r_llm_gate = (get_default (od_get siem) ''llm_gate'' (PBool True) \<noteq> PBool False),
          r_exposure_gate = (get_default (od_get siem) ''exposure_gate'' (PBool True) \<noteq> PBool False),
          r_window_seconds = window,
          r_threshold = threshold,
          r_group_by = group_by,
          r_distinct_field = distinct,
          r_periodicity = dget siem ''periodicity'',
          r_mitre = dget raw ''mitre''\<rparr>))))))))))))"

end
