(* ===== verification/Rules.thy ===== *)
theory Rules
  imports Rule_Load Window
begin

text \<open>
  Evaluating a rule on an event: the rest of \<open>Rule\<close> in \<open>src/services/ws4-detection/engine.py\<close> and
  the clock functions above it. The window counter is passed explicitly; its members are values up to
  Python's equality of dictionary keys (\<open>dict_key\<close>). A function that stamps the event returns it.

  Sums of integers and floats are exact here; the rounding of binary floats is not modelled.
\<close>

subsection \<open>Tenants and groups\<close>

text \<open>\<open>event.get("siem") or {}\<close>, then a method call on it.\<close>

definition siem_of :: "event \<Rightarrow> event py" where
  "siem_of evt = as_dict (py_or (dget evt ''siem'') (PDict []))"

definition event_tenant :: "event \<Rightarrow> string py" where
  "event_tenant evt =
     py_bind (siem_of evt) (\<lambda>siem.
       let tenant = py_or (dget siem ''tenant'') (PStr default_tenant_name)
       in Inr (case tenant of
                 PStr s \<Rightarrow> if valid_tenant_id tenant then s else default_tenant_name
               | _ \<Rightarrow> default_tenant_name))"

definition namespaced_group :: "string \<Rightarrow> string \<Rightarrow> string" where
  "namespaced_group tenant name = tenant @ '':'' @ int_str (int (length name)) @ '':'' @ name"

definition account_group_fields :: "string set" where
  "account_group_fields = {''actor.user.name'', ''unmapped.target_user.name''}"

definition group_of :: "host \<Rightarrow> rule \<Rightarrow> event \<Rightarrow> string option py" where
  "group_of ho r evt =
     (case get_path_parts (PDict evt) (split_on (CHR ''.'') (r_group_by r)) of
        PNone \<Rightarrow> Inr None
      | PStr s \<Rightarrow>
          if r_group_by r \<in> account_group_fields
          then py_bind (event_tenant evt) (\<lambda>tenant. Inr (Some (canonical_account (ho_aliases ho) tenant s)))
          else Inr (Some s)
      | v \<Rightarrow> Inr (Some (py_str ho v)))"

subsection \<open>Conditions\<close>

text \<open>Every selection is evaluated, in order, before the condition is; an exception ends it.\<close>

fun matched_selections ::
    "host \<Rightarrow> (string \<times> (string list \<times> pyval) list) list \<Rightarrow> event \<Rightarrow> (string, bool) odict py" where
  "matched_selections ho [] evt = Inr []"
| "matched_selections ho ((name, sel) # sels) evt =
     py_bind (selection_matches (ho_allowed ho) sel evt) (\<lambda>b.
     py_bind (matched_selections ho sels evt) (\<lambda>bs. Inr ((name, b) # bs)))"

definition eval_condition :: "host \<Rightarrow> rule \<Rightarrow> event \<Rightarrow> bool py" where
  "eval_condition ho r evt =
     py_bind (matched_selections ho (r_selections r) evt) (\<lambda>matched.
       Inr (eval_tokens (ho_frames ho) (\<lambda>t. get_default (od_get matched) t False) (r_tokens r)))"

subsection \<open>The clock of a window\<close>

definition max_clock_skew_ms :: int where
  "max_clock_skew_ms = 300000"

definition default_window_skew_ms :: int where
  "default_window_skew_ms = 600000"

definition window_time_mode :: "host \<Rightarrow> string" where
  "window_time_mode ho =
     (let text = lower (strip (case ho_mode ho of None \<Rightarrow> ''clamp'' | Some s \<Rightarrow> s));
          mode = (if text = [] then ''clamp'' else text)
      in if mode \<notin> {''clamp'', ''event'', ''ingest''} then ''clamp'' else mode)"

definition window_skew_ms :: "host \<Rightarrow> int" where
  "window_skew_ms ho =
     (let text = strip (case ho_skew ho of None \<Rightarrow> [] | Some s \<Rightarrow> s)
      in if text = [] then default_window_skew_ms
         else case ho_float ho text of
                Some (Fin secs) \<Rightarrow> if secs < 0 then default_window_skew_ms else \<lfloor>secs * 1000\<rfloor>
              | _ \<Rightarrow> default_window_skew_ms)"

definition effective_skew_ms :: "host \<Rightarrow> int option \<Rightarrow> int" where
  "effective_skew_ms ho window_ms =
     (let skew = window_skew_ms ho
      in case window_ms of
           None \<Rightarrow> skew
         | Some w \<Rightarrow> if w = 0 then skew else min skew (w div 2))"

text \<open>
  An integer too large for a double makes \<open>math.isfinite\<close>, and arithmetic with a float, raise
  OverflowError; the least such magnitude is halfway between the largest double and 2 to the 1024.
\<close>

definition float_overflow :: "int \<Rightarrow> bool" where
  "float_overflow i \<longleftrightarrow> 2 ^ 1024 - 2 ^ 970 \<le> \<bar>i\<bar>"

text \<open>Whether the record time is a finite number further than the limit from the receipt time.\<close>

definition too_far :: "pyval \<Rightarrow> int \<Rightarrow> int \<Rightarrow> bool py" where
  "too_far t recv limit =
     (case t of
        PInt i \<Rightarrow> if float_overflow i then Inl OverflowError else Inr (\<bar>i - recv\<bar> > limit)
      | PFloat (Fin q) \<Rightarrow> if float_overflow recv then Inl OverflowError
                          else Inr (\<bar>q - of_int recv\<bar> > of_int limit)
      | _ \<Rightarrow> Inr False)"

text \<open>
  The time that drives the window, and the event: the clamp flags it (\<open>stamp\<close>). Whether it was newly
  flagged is what the counter \<open>CLAMP_STATS\<close> adds.
\<close>

definition window_time_of ::
    "host \<Rightarrow> event \<Rightarrow> bool \<Rightarrow> int option \<Rightarrow> bool \<Rightarrow> (pyval \<times> event \<times> bool) py" where
  "window_time_of ho evt periodicity window_ms stamp =
     (let t = get_default (od_get evt) ''time'' (PInt 0)
      in if periodicity \<or> window_time_mode ho = ''event'' then Inr (t, evt, False)
         else case dget evt ''siem'' of
                PDict siem \<Rightarrow>
                  (case dget siem ''received_ms'' of
                     PInt recv \<Rightarrow>
                       if window_time_mode ho = ''ingest'' then Inr (PInt recv, evt, False)
                       else py_bind (too_far t recv (effective_skew_ms ho window_ms)) (\<lambda>far.
                              Inr (if \<not> far then (t, evt, False)
                                   else if stamp \<and> \<not> truthy (dget siem ''time_clamped'')
                                   then (PInt recv,
                                         od_set evt ''siem'' (PDict (od_set siem ''time_clamped'' (PBool True))),
                                         True)
                                   else (PInt recv, evt, False)))
                   | _ \<Rightarrow> Inr (t, evt, False))
              | _ \<Rightarrow> Inr (t, evt, False))"

definition valid_window_time :: "host \<Rightarrow> pyval \<Rightarrow> int option" where
  "valid_window_time ho v =
     (case v of
        PInt i \<Rightarrow> if i > ho_wall ho + max_clock_skew_ms then None else Some i
      | PFloat x \<Rightarrow> (case int_of_float x of
                      Inl _ \<Rightarrow> None
                    | Inr i \<Rightarrow> if i > ho_wall ho + max_clock_skew_ms then None else Some i)
      | _ \<Rightarrow> None)"

subsection \<open>Stateful rules\<close>

datatype plan_kind = Hit | Distinct | Periodic

record window_plan =
  wp_kind :: plan_kind
  wp_key :: string
  wp_now :: int
  wp_window_ms :: int
  wp_value :: pyval
  wp_member :: pyval

text \<open>Dictionary keys that compare equal are one value: \<open>True\<close>, \<open>1\<close> and \<open>1.0\<close>.\<close>

definition dict_key :: "pyval \<Rightarrow> pyval" where
  "dict_key v =
     (case v of
        PBool b \<Rightarrow> PInt (if b then 1 else 0)
      | PFloat (Fin q) \<Rightarrow> if q = of_int \<lfloor>q\<rfloor> then PInt \<lfloor>q\<rfloor> else v
      | _ \<Rightarrow> v)"

definition hashable :: "pyval \<Rightarrow> bool" where
  "hashable v \<longleftrightarrow> (case v of PList _ \<Rightarrow> False | PDict _ \<Rightarrow> False | _ \<Rightarrow> True)"

definition window_ms :: "rule \<Rightarrow> int" where
  "window_ms r = (case r_window_seconds r of None \<Rightarrow> 0 | Some s \<Rightarrow> s * 1000)"

definition window_key :: "host \<Rightarrow> rule \<Rightarrow> string \<Rightarrow> string \<Rightarrow> string" where
  "window_key ho r tenant name = py_str ho (r_id r) @ '':'' @ namespaced_group tenant name"

definition ingest_id :: "event \<Rightarrow> pyval py" where
  "ingest_id evt = py_bind (siem_of evt) (\<lambda>siem. Inr (dget siem ''ingest_id''))"

text \<open>Everything before the counter call; None is the fail-closed answer.\<close>

definition plan_stateful :: "host \<Rightarrow> rule \<Rightarrow> event \<Rightarrow> (window_plan option \<times> event \<times> bool) py" where
  "plan_stateful ho r evt =
     py_bind (group_of ho r evt) (\<lambda>name. case name of None \<Rightarrow> Inr (None, evt, False) | Some name \<Rightarrow>
     py_bind (window_time_of ho evt (truthy (r_periodicity r)) (Some (window_ms r)) True)
       (\<lambda>(raw_time, evt, clamped).
     case valid_window_time ho raw_time of None \<Rightarrow> Inr (None, evt, clamped) | Some t \<Rightarrow>
     let now = (if truthy (r_periodicity r) then t else min t (ho_wall ho)) in
     py_bind (ingest_id evt) (\<lambda>iid.
     let member = py_or iid (PStr (int_str now)) in
     py_bind (event_tenant evt) (\<lambda>tenant.
     let plan = (\<lambda>kind v. Some \<lparr>wp_kind = kind, wp_key = window_key ho r tenant name, wp_now = now,
                           wp_window_ms = window_ms r, wp_value = v, wp_member = member\<rparr>) in
     case r_distinct_field r of
       Some field \<Rightarrow>
         (case get_path_parts (PDict evt) (split_on (CHR ''.'') field) of
            PNone \<Rightarrow> Inr (None, evt, clamped)
          | v \<Rightarrow> Inr (plan Distinct v, evt, clamped))
     | None \<Rightarrow>
         if truthy (r_periodicity r) then Inr (plan Periodic PNone, evt, clamped)
         else Inr (plan Hit PNone, evt, clamped)))))"

text \<open>What a counter call answers: a count, and for a periodic window its coefficient of variation.\<close>

datatype counted = Count nat | Count_cv nat "real option"

type_synonym counter = "pyval deque_counter"

text \<open>
  A member that cannot be hashed makes \<open>hit\<close> raise TypeError at its membership test, after the
  eviction from the front.
\<close>

definition hit_raised :: "counter \<Rightarrow> string \<Rightarrow> int \<Rightarrow> int \<Rightarrow> counter" where
  "hit_raised c key now window =
     (let (w, members) = evict (now - window) (get_default (dc_w c) key []) (get_default (dc_live c) key Map.empty)
      in c\<lparr>dc_w := (dc_w c)(key \<mapsto> w), dc_live := (dc_live c)(key \<mapsto> members)\<rparr>)"

definition run_plan :: "counter \<Rightarrow> window_plan \<Rightarrow> counted py \<times> counter" where
  "run_plan c p =
     (case wp_kind p of
        Distinct \<Rightarrow>
          (case hit_distinct_checked hashable c (wp_key p) (wp_now p) (wp_window_ms p)
                  (Some (dict_key (wp_value p))) of
             (None, c') \<Rightarrow> (Inl TypeError, c')
           | (Some n, c') \<Rightarrow> (Inr (Count n), c'))
      | Periodic \<Rightarrow>
          if \<not> hashable (wp_member p) then (Inl TypeError, hit_raised c (wp_key p) (wp_now p) (wp_window_ms p))
          else (case hit_periodic c (wp_key p) (wp_now p) (wp_window_ms p) (Some (dict_key (wp_member p))) of
                  ((n, cv), c') \<Rightarrow> (Inr (Count_cv n cv), c'))
      | Hit \<Rightarrow>
          if \<not> hashable (wp_member p) then (Inl TypeError, hit_raised c (wp_key p) (wp_now p) (wp_window_ms p))
          else (case hit c (wp_key p) (wp_now p) (wp_window_ms p) (Some (dict_key (wp_member p))) of
                  (n, c') \<Rightarrow> (Inr (Count n), c')))"

definition reached :: "rule \<Rightarrow> nat \<Rightarrow> bool" where
  "reached r n \<longleftrightarrow> (case r_threshold r of None \<Rightarrow> False | Some t \<Rightarrow> int n \<ge> t)"

text \<open>A coefficient of variation against \<open>max_cv\<close>: both are numbers, or comparing raises.\<close>

definition at_most :: "real \<Rightarrow> pyval \<Rightarrow> bool py" where
  "at_most cv limit =
     (case num limit of
        None \<Rightarrow> Inl TypeError
      | Some (Fin q) \<Rightarrow> Inr (cv \<le> of_rat q)
      | Some PosInf \<Rightarrow> Inr True
      | Some _ \<Rightarrow> Inr False)"

definition finish_stateful :: "rule \<Rightarrow> counted \<Rightarrow> bool py" where
  "finish_stateful r result =
     (case result of
        Count n \<Rightarrow> Inr (reached r n)
      | Count_cv n None \<Rightarrow> Inr False
      | Count_cv n (Some cv) \<Rightarrow>
          if \<not> reached r n then Inr False
          else py_bind (as_dict (r_periodicity r)) (\<lambda>d.
                 at_most cv (get_default (od_get d) ''max_cv'' (PFloat (Fin 1)))))"

text \<open>\<open>except (TypeError, ValueError): return False\<close>.\<close>

definition guarded :: "bool py \<Rightarrow> bool py" where
  "guarded b = (case b of Inl TypeError \<Rightarrow> Inr False | Inl ValueError \<Rightarrow> Inr False | _ \<Rightarrow> b)"

definition finish_unbatched :: "rule \<Rightarrow> counter \<Rightarrow> window_plan \<Rightarrow> bool py \<times> counter" where
  "finish_unbatched r c p =
     (case run_plan c p of (result, c') \<Rightarrow> (guarded (py_bind result (finish_stateful r)), c'))"

definition evaluate_stateful :: "host \<Rightarrow> rule \<Rightarrow> counter \<Rightarrow> event \<Rightarrow> bool py \<times> counter \<times> event" where
  "evaluate_stateful ho r c evt =
     (case plan_stateful ho r evt of
        Inl e \<Rightarrow> (Inl e, c, evt)
      | Inr (None, evt', _) \<Rightarrow> (Inr False, c, evt')
      | Inr (Some p, evt', _) \<Rightarrow>
          (case run_plan c p of (result, c') \<Rightarrow> (py_bind result (finish_stateful r), c', evt')))"

definition evaluate :: "host \<Rightarrow> rule \<Rightarrow> counter \<Rightarrow> event \<Rightarrow> bool py \<times> counter \<times> event" where
  "evaluate ho r c evt =
     (case eval_condition ho r evt of
        Inl e \<Rightarrow> (Inl e, c, evt)
      | Inr b \<Rightarrow>
          if \<not> b then (Inr False, c, evt)
          else if \<not> stateful r then (Inr True, c, evt)
          else (case evaluate_stateful ho r c evt of (b, c', evt') \<Rightarrow> (guarded b, c', evt')))"

subsection \<open>The batched path\<close>

datatype begun = Done bool | Planned window_plan

definition begin_evaluate :: "host \<Rightarrow> rule \<Rightarrow> event \<Rightarrow> begun py \<times> event" where
  "begin_evaluate ho r evt =
     (case eval_condition ho r evt of
        Inl e \<Rightarrow> (Inl e, evt)
      | Inr b \<Rightarrow>
          if \<not> b then (Inr (Done False), evt)
          else if \<not> stateful r then (Inr (Done True), evt)
          else (case plan_stateful ho r evt of
                  Inl e \<Rightarrow> (if e = TypeError \<or> e = ValueError then Inr (Done False) else Inl e, evt)
                | Inr (None, evt', _) \<Rightarrow> (Inr (Done False), evt')
                | Inr (Some p, evt', _) \<Rightarrow> (Inr (Planned p), evt')))"

definition finish_evaluate :: "rule \<Rightarrow> counted \<Rightarrow> bool py" where
  "finish_evaluate r result = guarded (finish_stateful r result)"

subsection \<open>What an alert cites\<close>

text \<open>The bucket follows the clock that drives the window.\<close>

definition alert_bucket :: "host \<Rightarrow> rule \<Rightarrow> event \<Rightarrow> int py" where
  "alert_bucket ho r evt =
     py_bind (window_time_of ho evt (truthy (r_periodicity r)) (Some (window_ms r)) False) (\<lambda>(t, _, _).
     py_bind (py_int (py_or t (PInt 0))) (\<lambda>now.
       Inr (if window_ms r \<noteq> 0 then now div window_ms r else now)))"

definition shown_group :: "string option \<Rightarrow> string" where
  "shown_group name = (case name of None \<Rightarrow> ''None'' | Some s \<Rightarrow> s)"

definition alert_key :: "host \<Rightarrow> rule \<Rightarrow> event \<Rightarrow> string py" where
  "alert_key ho r evt =
     (if stateful r then
        py_bind (group_of ho r evt) (\<lambda>name.
        py_bind (alert_bucket ho r evt) (\<lambda>bucket.
        py_bind (event_tenant evt) (\<lambda>tenant.
          Inr (window_key ho r tenant (shown_group name) @ '':'' @ int_str bucket))))
      else
        py_bind (event_tenant evt) (\<lambda>tenant.
        py_bind (ingest_id evt) (\<lambda>iid.
          Inr (py_str ho (r_id r) @ '':'' @ tenant @ '':'' @
               (if truthy iid then py_str ho iid else ''sha:'' @ ho_fingerprint ho evt)))))"

definition max_contributing_ids :: int where
  "max_contributing_ids = 50"

definition contributing_event_ids_with_omitted ::
    "host \<Rightarrow> rule \<Rightarrow> counter \<Rightarrow> event \<Rightarrow> (pyval list \<times> int) py" where
  "contributing_event_ids_with_omitted ho r c evt =
     py_bind (ingest_id evt) (\<lambda>own.
     let alone = (if truthy own then [own] else []) in
     if \<not> stateful r then Inr (alone, 0)
     else py_bind (event_tenant evt) (\<lambda>tenant.
       py_bind (group_of ho r evt) (\<lambda>name.
       case name of
         None \<Rightarrow> Inr (alone, 0)
       | Some name \<Rightarrow>
           let (ids, omitted) = members_capped c (window_key ho r tenant name) max_contributing_ids
                                  (r_distinct_field r \<noteq> None)
           in Inr (if ids = [] \<and> truthy own then [own] else map (\<lambda>i. PStr (py_str ho i)) ids, omitted))))"

definition contributing_event_ids :: "host \<Rightarrow> rule \<Rightarrow> counter \<Rightarrow> event \<Rightarrow> pyval list py" where
  "contributing_event_ids ho r c evt =
     py_bind (contributing_event_ids_with_omitted ho r c evt) (\<lambda>(ids, _). Inr ids)"

datatype evidence = One_event string | Events "string set" | Field_values string "string set"

definition window_evidence :: "host \<Rightarrow> rule \<Rightarrow> counter \<Rightarrow> event \<Rightarrow> evidence option py" where
  "window_evidence ho r c evt =
     py_bind (ingest_id evt) (\<lambda>own.
     if \<not> stateful r then Inr (if truthy own then Some (One_event (py_str ho own)) else None)
     else py_bind (group_of ho r evt) (\<lambda>name.
       case name of
         None \<Rightarrow> Inr None
       | Some name \<Rightarrow>
           py_bind (event_tenant evt) (\<lambda>tenant.
           let key = window_key ho r tenant name in
           case r_distinct_field r of
             Some field \<Rightarrow>
               let vs = set (map (py_str ho) (distinct_members c key))
               in Inr (if vs \<noteq> {} then Some (Field_values field vs) else None)
           | None \<Rightarrow>
               let ids = set (map (py_str ho) (members c key))
               in Inr (if ids \<noteq> {} then Some (Events ids) else None))))"

end
