(* ===== verification/Bucketing.thy ===== *)
theory Bucketing
  imports Rules
begin

text \<open>
  The class index of the detector. A rule with a class is only tried on events of that class, so the
  class has to be necessary for a match. It is when the condition has no negation; with one, the two
  probes of \<open>_bucketable_class_uid\<close> are not enough.
\<close>

lemma selection_requires:
  assumes "selection_matches allowed (compiled sel) evt = Inr True" "(k, v) \<in> set sel" "class_key v"
  shows "py_eq (get_path_parts (PDict evt) (split_on (CHR ''.'') k)) v"
  using assms
proof (induction sel)
  case (Cons e sel)
  obtain k' v' where e: "e = (k', v')" by (cases e)
  show ?case
  proof (cases "e = (k, v)")
    case True
    with Cons.prems(1,3) show ?thesis
      by (cases v) (auto simp: compiled_def split: if_splits)
  next
    case False
    from Cons.prems(1) e have "selection_matches allowed (compiled sel) evt = Inr True"
      by (cases v'; cases "case v' of PDict ops \<Rightarrow> operators_match allowed ops
             (get_path_parts (PDict evt) (split_on (CHR ''.'') k')) | _ \<Rightarrow> Inr True")
        (auto simp: compiled_def py_bind_def Let_def split: if_splits sum.splits)
    with Cons False show ?thesis by auto
  qed
qed simp

lemma matched_get:
  "matched_selections ho (map (\<lambda>(name, sel). (name, compiled sel)) sels) evt = Inr matched \<Longrightarrow>
   od_get matched name = Some b \<Longrightarrow>
   \<exists>sel. od_get sels name = Some sel \<and> selection_matches (ho_allowed ho) (compiled sel) evt = Inr b"
proof (induction sels arbitrary: matched)
  case (Cons e sels)
  then show ?case
    by (cases e) (auto simp: py_bind_def split: sum.splits if_splits)
qed simp

lemma class_path: "split_on (CHR ''.'') ''class_uid'' = [''class_uid'']"
  by code_simp

lemma get_class: "get_path_parts (PDict evt) [''class_uid''] = dget evt ''class_uid''"
  by (simp add: dget_def get_default_def split: option.split)

text \<open>On an event of another class every selection that asks for the class fails.\<close>

lemma matched_below_probe:
  assumes "matched_selections ho (map (\<lambda>(name, sel). (name, compiled sel)) sels) evt = Inr matched"
    and "\<not> py_eq (dget evt ''class_uid'') cand" "get_default (od_get matched) name False"
  shows "probe sels cand True name"
proof -
  from assms(3) have "od_get matched name = Some True"
    by (auto simp: get_default_def split: option.splits)
  from matched_get [OF assms(1) this] obtain sel where sel: "od_get sels name = Some sel"
    "selection_matches (ho_allowed ho) (compiled sel) evt = Inr True" by blast
  have "\<not> (dget sel ''class_uid'' = cand \<and> class_key (dget sel ''class_uid''))"
  proof
    assume c: "dget sel ''class_uid'' = cand \<and> class_key (dget sel ''class_uid'')"
    then have "od_get sel ''class_uid'' = Some cand"
      by (auto simp: dget_def get_default_def split: option.splits)
    from selection_requires [OF sel(2) map_of_SomeD [OF this]] c
    have "py_eq (dget evt ''class_uid'') cand" unfolding class_path get_class by blast
    with assms(2) show False by contradiction
  qed
  with sel(1) show ?thesis by (auto simp: probe_def)
qed

lemma rule_init_fields:
  "rule_init frames raw = Inr r \<Longrightarrow>
   \<exists>sels. r_selections r = map (\<lambda>(name, sel). (name, compiled sel)) sels \<and>
          r_class_uid r = bucketable_class_uid frames (r_tokens r) sels"
  unfolding rule_init_def py_bind_def Let_def
  by (auto split: sum.splits)

text \<open>A rule whose condition has no negation never matches an event outside the class it is
  indexed under: skipping it there loses nothing.\<close>

lemma class_bucket_sound:
  assumes "rule_init (ho_frames ho) raw = Inr r" "r_class_uid r = Some cand"
    and "''not'' \<notin> set (r_tokens r)" "4 * length (r_tokens r) \<le> ho_frames ho"
    and "eval_condition ho r evt = Inr True"
  shows "py_eq (dget evt ''class_uid'') cand"
proof (rule ccontr)
  assume other: "\<not> py_eq (dget evt ''class_uid'') cand"
  from rule_init_fields [OF assms(1)] obtain sels where sels:
    "r_selections r = map (\<lambda>(name, sel). (name, compiled sel)) sels"
    "r_class_uid r = bucketable_class_uid (ho_frames ho) (r_tokens r) sels" by blast
  from assms(5) obtain matched where m: "matched_selections ho (r_selections r) evt = Inr matched"
    "eval_tokens (ho_frames ho) (\<lambda>t. get_default (od_get matched) t False) (r_tokens r)"
    by (auto simp: eval_condition_def py_bind_def split: sum.splits)
  let ?env = "\<lambda>t. get_default (od_get matched) t False"
  have "parse_or ?env (ho_frames ho) (r_tokens r) = Inr (True, [])"
    using m(2) by (auto simp: eval_tokens_def split: sum.splits if_splits)
  from parse_or_mono [OF assms(4,3) _ this, of "probe sels cand True"]
  have "parse_or (probe sels cand True) (ho_frames ho) (r_tokens r) = Inr (True, [])"
    using matched_below_probe [OF _ other] m(1) sels(1) by simp
  then have "satisfiable_without (ho_frames ho) (r_tokens r) sels cand"
    by (auto simp: satisfiable_without_def)
  moreover have "\<not> satisfiable_without (ho_frames ho) (r_tokens r) sels cand"
    using assms(2) sels(2) by (auto simp: bucketable_class_uid_def find_Some_iff)
  ultimately show False by contradiction
qed

definition a_host :: host where
  "a_host = \<lparr>ho_wall = 1700000000000, ho_mode = None, ho_skew = None, ho_float = (\<lambda>_. None),
     ho_text = (\<lambda>_. ''{}''), ho_fingerprint = (\<lambda>_. ''0''), ho_allowed = (\<lambda>_ _. False),
     ho_aliases = [], ho_frames = 900\<rparr>"

definition login_rule :: event where
  "login_rule =
     [(''id'', PStr ''r1''),
      (''detection'', PDict
        [(''fail'', PDict [(''class_uid'', PInt 3002), (''status_id'', PInt 2)]),
         (''condition'', PStr ''fail'')]),
      (''siem'', PDict [(''window_seconds'', PInt 60), (''threshold'', PInt 3)])]"

definition a_login :: event where
  "a_login = [(''class_uid'', PInt 3002), (''status_id'', PInt 2), (''time'', PInt 61000),
              (''src_endpoint'', PDict [(''ip'', PStr ''10.0.0.1'')]),
              (''siem'', PDict [(''ingest_id'', PStr ''i1'')])]"

text \<open>With a negation the index can be wrong. The condition \<open>fail or (admin and not quiet)\<close> is
  false in both probes, so the rule is indexed under the class of \<open>fail\<close>; yet it matches an event
  of any other class whose user is admin.\<close>

definition negated_rule :: event where
  "negated_rule =
     [(''id'', PStr ''r2''),
      (''detection'', PDict
        [(''fail'', PDict [(''class_uid'', PInt 3002)]),
         (''admin'', PDict [(''actor.user.name'', PStr ''root'')]),
         (''quiet'', PDict [(''severity_id'', PInt 1)]),
         (''condition'', PStr ''fail or (admin and not quiet)'')])]"

text \<open>The class index is unsound for conditions with a negation: a rule that matches events of
  any class is indexed under one class, and never tried on the others.\<close>

theorem class_bucket_unsound:
  "case rule_init 900 negated_rule of
     Inl _ \<Rightarrow> False
   | Inr r \<Rightarrow>
       r_class_uid r = Some (PInt 3002) \<and>
       eval_condition a_host r
         [(''class_uid'', PInt 1007), (''actor'', PDict [(''user'', PDict [(''name'', PStr ''root'')])])] = Inr True"
  by code_simp

end
