(* ===== verification/Rule_Facts.thy ===== *)
theory Rule_Facts
  imports Bucketing
begin

text \<open>
  What evaluating a rule guarantees: the keys it builds keep tenants and groups apart, the clock it
  uses cannot be moved by the author of a record, its verdict is the size of the window, the batched
  path gives the same verdicts, and which exceptions can leave it.
\<close>

subsection \<open>Keys\<close>

lemma split_at_mark:
  "x \<notin> set a \<Longrightarrow> x \<notin> set b \<Longrightarrow> a @ x # s = b @ x # t \<longleftrightarrow> a = b \<and> s = t"
proof (induction a arbitrary: b)
  case Nil
  then show ?case by (cases b) auto
next
  case (Cons y a)
  then show ?case by (cases b) auto
qed

lemma int_str_chars: "c \<in> set (int_str i) \<Longrightarrow> is_digit c \<or> c = CHR ''-''"
  using nat_digits_spec(2) by (auto simp: int_str_def split: if_splits)

lemma int_str_no_colon: "CHR '':'' \<notin> set (int_str i)"
proof
  assume "CHR '':'' \<in> set (int_str i)"
  from int_str_chars [OF this] show False by (simp add: is_digit_def ord_def)
qed

lemma nat_digits_not_minus: "nat_digits n \<noteq> CHR ''-'' # s"
proof
  assume "nat_digits n = CHR ''-'' # s"
  then have "is_digit (CHR ''-'')" using nat_digits_spec(2) [of n] by simp
  then show False by (simp add: is_digit_def ord_def)
qed

lemma int_str_inject [simp]: "int_str i = int_str j \<longleftrightarrow> i = j"
  using nat_digits_not_minus nat_digits_not_minus [THEN not_sym]
  by (auto simp: int_str_def split: if_splits)

lemma event_tenant_valid: "event_tenant evt = Inr t \<Longrightarrow> valid_tenant_id (PStr t)"
proof -
  have "valid_tenant_id (PStr default_tenant_name)" by code_simp
  then show "event_tenant evt = Inr t \<Longrightarrow> valid_tenant_id (PStr t)"
    by (auto simp: event_tenant_def py_bind_def Let_def split: sum.splits pyval.splits if_splits)
qed

lemma event_tenant_no_colon: "event_tenant evt = Inr t \<Longrightarrow> CHR '':'' \<notin> set t"
  by (rule valid_tenant_no_colon) (rule event_tenant_valid)

lemma namespaced_group_inject:
  assumes "CHR '':'' \<notin> set t" "CHR '':'' \<notin> set t'"
  shows "namespaced_group t g @ s = namespaced_group t' g' @ s' \<longleftrightarrow> t = t' \<and> g = g' \<and> s = s'"
proof
  assume eq: "namespaced_group t g @ s = namespaced_group t' g' @ s'"
  have *: "t @ CHR '':'' # (int_str (int (length g)) @ CHR '':'' # (g @ s)) =
           t' @ CHR '':'' # (int_str (int (length g')) @ CHR '':'' # (g' @ s'))"
    using eq by (simp add: namespaced_group_def)
  have "t = t'" "int_str (int (length g)) @ CHR '':'' # (g @ s) = int_str (int (length g')) @ CHR '':'' # (g' @ s')"
    using * unfolding split_at_mark [OF assms] by blast+
  moreover from this(2) have "length g = length g'" "g @ s = g' @ s'"
    unfolding split_at_mark [OF int_str_no_colon int_str_no_colon] by simp_all
  ultimately show "t = t' \<and> g = g' \<and> s = s'" by simp
qed simp

lemma window_key_inject:
  "CHR '':'' \<notin> set t \<Longrightarrow> CHR '':'' \<notin> set t' \<Longrightarrow>
   window_key ho r t g @ s = window_key ho r t' g' @ s' \<longleftrightarrow> t = t' \<and> g = g' \<and> s = s'"
  by (simp add: window_key_def namespaced_group_inject)

lemma plan_key:
  assumes "plan_stateful ho r evt = Inr (Some p, evt', f)"
  shows "\<exists>t g. event_tenant evt' = Inr t \<and> group_of ho r evt = Inr (Some g) \<and> wp_key p = window_key ho r t g"
  using assms unfolding plan_stateful_def
  by (auto simp: py_bind_def Let_def split: sum.splits option.splits prod.splits pyval.splits if_splits)

text \<open>C12. Alert identities and window keys cannot be made to collide: two events with the same alert
  key under a stateful rule belong to the same tenant, the same group and the same time bucket,
  whatever characters the group values contain.\<close>

theorem alert_keys_separate:
  assumes "stateful r" "alert_key ho r e1 = Inr k" "alert_key ho r e2 = Inr k"
  shows "event_tenant e1 = event_tenant e2 \<and>
         (\<exists>g1 g2. group_of ho r e1 = Inr g1 \<and> group_of ho r e2 = Inr g2 \<and>
                  shown_group g1 = shown_group g2) \<and>
         alert_bucket ho r e1 = alert_bucket ho r e2"
proof -
  have key: "\<exists>t g b. event_tenant e = Inr t \<and> group_of ho r e = Inr g \<and> alert_bucket ho r e = Inr b \<and>
               k = window_key ho r t (shown_group g) @ CHR '':'' # int_str b"
    if "alert_key ho r e = Inr k" for e
    using that assms(1) unfolding alert_key_def
    by (auto simp: py_bind_def Let_def split: sum.splits prod.splits)
  from key [OF assms(2)] obtain t1 g1 b1 where 1: "event_tenant e1 = Inr t1" "group_of ho r e1 = Inr g1"
    "alert_bucket ho r e1 = Inr b1" "k = window_key ho r t1 (shown_group g1) @ CHR '':'' # int_str b1" by blast
  from key [OF assms(3)] obtain t2 g2 b2 where 2: "event_tenant e2 = Inr t2" "group_of ho r e2 = Inr g2"
    "alert_bucket ho r e2 = Inr b2" "k = window_key ho r t2 (shown_group g2) @ CHR '':'' # int_str b2" by blast
  from 1(4) 2(4) have "t1 = t2" "shown_group g1 = shown_group g2" "CHR '':'' # int_str b1 = CHR '':'' # int_str b2"
    using window_key_inject [OF event_tenant_no_colon [OF 1(1)] event_tenant_no_colon [OF 2(1)]] by metis+
  with 1 2 show ?thesis by simp
qed

definition r_login :: rule where
  "r_login = (case rule_init 900 login_rule of Inr r \<Rightarrow> r | Inl _ \<Rightarrow> undefined)"

definition b_login :: event where
  "b_login = od_set a_login ''time'' (PInt 62000)"

theorem alert_keys_separate_witness:
  "alert_key a_host r_login a_login = Inr ''r1:default:8:10.0.0.1:1'' \<and>
   alert_bucket a_host r_login a_login = alert_bucket a_host r_login b_login"
proof -
  have s: "stateful r_login" by code_simp
  have a: "alert_key a_host r_login a_login = Inr ''r1:default:8:10.0.0.1:1''" by code_simp
  have b: "alert_key a_host r_login b_login = Inr ''r1:default:8:10.0.0.1:1''" by code_simp
  from alert_keys_separate [OF s a b] a show ?thesis by simp
qed

subsection \<open>Verdicts\<close>

lemmas plan_splits = sum.splits option.splits prod.splits pyval.splits if_splits

lemma plan_fields:
  assumes "plan_stateful ho r evt = Inr (Some p, evt', f)"
  shows "wp_window_ms p = window_ms r" "wp_kind p = Periodic \<Longrightarrow> truthy (r_periodicity r)"
    and "wp_now p \<le> ho_wall ho + max_clock_skew_ms"
    and "\<not> truthy (r_periodicity r) \<Longrightarrow> wp_now p \<le> ho_wall ho"
  using assms unfolding plan_stateful_def py_bind_def Let_def
  by (auto simp: valid_window_time_def split: plan_splits)

text \<open>C1. What a counting rule means. When the selections match, the rule fires exactly when the
  members recorded under its tenant and group within the window, this event included and every member
  counted once, reach the threshold; the counter keeps its invariant and no other window changes,
  except that an idle one may be reclaimed.\<close>

theorem count_rule_fires:
  assumes "dc_ok c" "stateful r" "0 \<le> window_ms r" "eval_condition ho r evt = Inr True"
    and "plan_stateful ho r evt = Inr (Some p, evt', f)" "wp_kind p = Hit" "hashable (wp_member p)"
    and "evaluate ho r c evt = (b, c', e)"
    and "W = recorded (wp_now p) (window_ms r) (Some (dict_key (wp_member p))) (mset (window_at c (wp_key p)))"
  shows "b = Inr (case r_threshold r of None \<Rightarrow> False | Some t \<Rightarrow> t \<le> int (size W)) \<and> mset (window_at c' (wp_key p)) = W \<and> dc_ok c' \<and>
         (\<forall>k. k \<noteq> wp_key p \<longrightarrow> view c' k = view c k \<or> expired (wp_now p) c k \<and> view c' k = no_view)"
proof -
  obtain n d where h: "hit c (wp_key p) (wp_now p) (window_ms r) (Some (dict_key (wp_member p))) = (n, d)"
    by fastforce
  note spec = hit_spec [OF assms(1,3) h]
  have "run_plan c p = (Inr (Count n), d)"
    using h assms(6,7) plan_fields(1) [OF assms(5)] by (simp add: run_plan_def)
  with assms(2,4,5,8) have "b = Inr (reached r n)" "c' = d"
    by (simp_all add: evaluate_def evaluate_stateful_def finish_stateful_def guarded_def)
  moreover have "view d k = view c k \<or> expired (wp_now p) c k \<and> view d k = no_view" if "k \<noteq> wp_key p" for k
    using spec(5) [OF that] by (simp split: if_splits)
  ultimately show ?thesis using spec(1,2,3) assms(9) by (simp add: reached_def cong: option.case_cong)
qed

theorem count_rule_fires_witness:
  "fst (evaluate a_host (r_login\<lparr>r_threshold := Some 1\<rparr>) new_counter a_login) = Inr True"
proof -
  let ?r = "r_login\<lparr>r_threshold := Some 1\<rparr>"
  let ?p = "\<lparr>wp_kind = Hit, wp_key = ''r1:default:8:10.0.0.1'', wp_now = 61000, wp_window_ms = 60000,
             wp_value = PNone, wp_member = PStr ''i1''\<rparr>"
  have s: "stateful ?r" "0 \<le> window_ms ?r" "eval_condition a_host ?r a_login = Inr True"
    "plan_stateful a_host ?r a_login = Inr (Some ?p, a_login, False)" by code_simp+
  have w: "r_threshold ?r = Some 1" "window_at (new_counter :: counter) ''r1:default:8:10.0.0.1'' = []" by code_simp+
  obtain b c' e where ev: "evaluate a_host ?r new_counter a_login = (b, c', e)" by (metis prod_cases3)
  from count_rule_fires [OF dc_ok_new s(1,2,3,4) _ _ ev refl] w
  have "b = Inr True" by (simp add: hashable_def recorded_def)
  with ev show ?thesis by simp
qed

text \<open>The batched path of the detector, begin_evaluate and then the counter call and
  finish_evaluate, gives the verdict, the counter and the event of evaluate.\<close>

lemma batched_is_evaluate:
  "evaluate ho r c evt =
     (case begin_evaluate ho r evt of
        (Inl e, evt') \<Rightarrow> (Inl e, c, evt')
      | (Inr (Done b), evt') \<Rightarrow> (Inr b, c, evt')
      | (Inr (Planned p), evt') \<Rightarrow>
          (case run_plan c p of
             (Inl e, c') \<Rightarrow> (guarded (Inl e), c', evt')
           | (Inr n, c') \<Rightarrow> (finish_evaluate r n, c', evt')))"
proof (cases "eval_condition ho r evt = Inr True \<and> stateful r")
  case True
  then show ?thesis
    by (simp add: evaluate_def begin_evaluate_def evaluate_stateful_def finish_evaluate_def guarded_def
             split: sum.split prod.split option.split py_exn.split)
next
  case False
  then show ?thesis by (auto simp: evaluate_def begin_evaluate_def split: sum.split)
qed

subsection \<open>The clock\<close>

lemma clamped_time:
  assumes "window_time_of ho evt False (Some w) stamp = Inr (v, evt', f)" "window_time_mode ho = ''clamp''"
    and "dget evt ''siem'' = PDict siem" "dget siem ''received_ms'' = PInt recv"
    and "0 \<le> effective_skew_ms ho (Some w)" "num v = Some (Fin x)" "\<not> is_bool v"
  shows "\<bar>x - of_int recv\<bar> \<le> of_int (effective_skew_ms ho (Some w))"
proof (cases "v = PInt recv")
  case True
  with assms(5,6) show ?thesis by simp
next
  case False
  with assms(1-4) have v: "v = get_default (od_get evt) ''time'' (PInt 0)"
    and near: "too_far v recv (effective_skew_ms ho (Some w)) = Inr False"
    by (auto simp: window_time_of_def py_bind_def Let_def split: sum.splits if_splits)
  show ?thesis
  proof (cases v)
    case (PInt i)
    with near have "\<bar>i - recv\<bar> \<le> effective_skew_ms ho (Some w)"
      by (simp add: too_far_def split: if_splits)
    then have "rat_of_int \<bar>i - recv\<bar> \<le> of_int (effective_skew_ms ho (Some w))" by (simp only: of_int_le_iff)
    with PInt assms(6) show ?thesis by simp
  qed (use near assms(6,7) in \<open>auto simp: too_far_def split: if_splits\<close>)
qed

lemma effective_skew_half: "w \<noteq> 0 \<Longrightarrow> effective_skew_ms ho (Some w) \<le> w div 2"
  by (simp add: effective_skew_ms_def)

lemma window_skew_nonneg: "0 \<le> window_skew_ms ho"
  by (auto simp: window_skew_ms_def default_window_skew_ms_def Let_def split: option.split pyfloat.split)

lemma effective_skew_nonneg: "0 \<le> w \<Longrightarrow> 0 \<le> effective_skew_ms ho (Some w)"
  by (simp add: effective_skew_ms_def window_skew_nonneg Let_def pos_imp_zdiv_nonneg_iff)

text \<open>C16. A forged record time cannot spread a burst. In clamp mode two events received within d
  milliseconds of each other drive a window of w milliseconds with times at most w + d apart, whatever
  times their author wrote.\<close>

theorem burst_stays_together:
  assumes "0 < w" "window_time_mode ho = ''clamp''"
    and "window_time_of ho e1 False (Some w) s1 = Inr (v1, e1', f1)" "num v1 = Some (Fin x1)" "\<not> is_bool v1"
    and "window_time_of ho e2 False (Some w) s2 = Inr (v2, e2', f2)" "num v2 = Some (Fin x2)" "\<not> is_bool v2"
    and "dget e1 ''siem'' = PDict siem1" "dget siem1 ''received_ms'' = PInt recv1"
    and "dget e2 ''siem'' = PDict siem2" "dget siem2 ''received_ms'' = PInt recv2"
    and "\<bar>recv1 - recv2\<bar> \<le> d"
  shows "\<bar>x1 - x2\<bar> \<le> of_int (w + d)"
proof -
  let ?s = "effective_skew_ms ho (Some w)"
  have s: "0 \<le> ?s" using assms(1) by (simp add: effective_skew_nonneg)
  have a: "\<bar>x1 - of_int recv1\<bar> \<le> of_int ?s" "\<bar>x2 - of_int recv2\<bar> \<le> of_int ?s"
    using clamped_time [OF assms(3,2,9,10) s assms(4,5)] clamped_time [OF assms(6,2,11,12) s assms(7,8)] .
  have "\<bar>rat_of_int recv1 - of_int recv2\<bar> \<le> of_int d"
    using assms(13) by (metis of_int_abs of_int_diff of_int_le_iff)
  moreover have "2 * ?s \<le> w" using effective_skew_half [of w ho] assms(1) by linarith
  then have "rat_of_int (2 * ?s) \<le> of_int w" by (simp only: of_int_le_iff)
  ultimately show ?thesis using a by (simp add: abs_le_iff algebra_simps)
qed

definition forged :: "int \<Rightarrow> event" where
  "forged t = [(''time'', PInt t), (''siem'', PDict [(''received_ms'', PInt 1000000)])]"

theorem burst_stays_together_witness:
  "window_time_of a_host (forged 0) False (Some 60000) True =
     Inr (PInt 1000000,
          [(''time'', PInt 0), (''siem'', PDict [(''received_ms'', PInt 1000000), (''time_clamped'', PBool True)])],
          True) \<and>
   \<bar>1000000 - 1030000 :: rat\<bar> \<le> of_int (60000 + 0)"
proof -
  have m: "window_time_mode a_host = ''clamp''" by code_simp
  have w1: "window_time_of a_host (forged 0) False (Some 60000) True =
     Inr (PInt 1000000,
          [(''time'', PInt 0), (''siem'', PDict [(''received_ms'', PInt 1000000), (''time_clamped'', PBool True)])],
          True)"
    and w2: "window_time_of a_host (forged 1030000) False (Some 60000) True = Inr (PInt 1030000, forged 1030000, False)"
    unfolding window_time_of_def m
    by (simp_all add: forged_def too_far_def float_overflow_def effective_skew_ms_def window_skew_ms_def
        a_host_def default_window_skew_ms_def strip_def dget_def Let_def)
  have d: "dget (forged t) ''siem'' = PDict [(''received_ms'', PInt 1000000)]"
    "dget [(''received_ms'', PInt 1000000)] ''received_ms'' = PInt 1000000" for t
    by (simp_all add: forged_def dget_def)
  from burst_stays_together [OF _ m w1 _ _ w2 _ _ d(1) d(2) d(1) d(2), of 0] w1 show ?thesis by simp
qed

subsection \<open>Exceptions\<close>




lemma siem_of_dict: "siem_of evt = Inr siem \<Longrightarrow> dget evt ''siem'' = PDict s \<Longrightarrow> s \<noteq> [] \<Longrightarrow> siem = s"
  by (auto simp: siem_of_def py_or_def as_dict_def)









text \<open>An integer time too large for a double escapes evaluate as an OverflowError: with a receipt
  time present the clamp asks \<open>math.isfinite\<close> first, and the guard only catches TypeError and
  ValueError. The delivery is not a verdict but a failure.\<close>

theorem huge_time_escapes:
  assumes "eval_condition ho r evt = Inr True" "stateful r" "\<not> truthy (r_periodicity r)"
    and "window_time_mode ho = ''clamp''" "group_of ho r evt = Inr (Some g)"
    and "dget evt ''siem'' = PDict siem" "dget siem ''received_ms'' = PInt recv"
    and "get_default (od_get evt) ''time'' (PInt 0) = PInt i" "2 ^ 1024 \<le> i"
  shows "evaluate ho r c evt = (Inl OverflowError, c, evt)"
proof -
  have "float_overflow i" using assms(9) by (simp add: float_overflow_def)
  then have "too_far (PInt i) recv l = Inl OverflowError" for l by (simp add: too_far_def)
  with assms show ?thesis
    by (simp add: evaluate_def evaluate_stateful_def plan_stateful_def window_time_of_def guarded_def)
qed

theorem huge_time_escapes_witness:
  "fst (evaluate a_host r_login new_counter [(''class_uid'', PInt 3002), (''status_id'', PInt 2),
     (''time'', PInt (2 ^ 1024)), (''src_endpoint'', PDict [(''ip'', PStr ''10.0.0.1'')]),
     (''siem'', PDict [(''received_ms'', PInt 61000)])]) = Inl OverflowError"
proof -
  let ?e = "\<lambda>i. [(''class_uid'', PInt 3002), (''status_id'', PInt 2),
     (''time'', PInt i), (''src_endpoint'', PDict [(''ip'', PStr ''10.0.0.1'')]),
     (''siem'', PDict [(''received_ms'', PInt 61000)])]"
  have r: "stateful r_login" "\<not> truthy (r_periodicity r_login)" "window_time_mode a_host = ''clamp''" by code_simp+
  have e: "eval_condition a_host r_login (?e i) = Inr True" "group_of a_host r_login (?e i) = Inr (Some ''10.0.0.1'')"
    "dget (?e i) ''siem'' = PDict [(''received_ms'', PInt 61000)]"
    "get_default (od_get (?e i)) ''time'' (PInt 0) = PInt i" for i
    by code_simp+
  have d: "dget [(''received_ms'', PInt 61000)] ''received_ms'' = PInt 61000" by code_simp
  from huge_time_escapes [OF e(1) r e(2,3) d e(4) order_refl] show ?thesis by simp
qed

end
