(* ===== verification/Scoring.thy ===== *)
theory Scoring
  imports Rules
begin

text \<open>
  Scores and funnel routing (\<open>src/services/ws4-detection/scoring.py\<close>). The configuration is the
  content of \<open>scoring.yaml\<close> with integer points; the cooldown table is the state of the scorer, an
  insertion-ordered dictionary from alert keys to the time of their last enqueue. Times are integers.
\<close>

subsection \<open>Configuration\<close>

record scoring =
  sc_llm_min :: int
  sc_classifier_min :: int
  sc_floor :: "(string, int) odict"
  sc_clamp_min :: int
  sc_clamp_max :: int
  sc_exposure_enabled :: bool
  sc_tiers :: "(string, int) odict"
  sc_ceiling :: "int option"
  sc_criticality :: "(int, string) odict"

definition floor_levels :: "string set" where
  "floor_levels = {''informational'', ''low'', ''medium'', ''high'', ''critical''}"

definition scorer_init :: "scoring \<Rightarrow> scoring py" where
  "scorer_init cfg = (if fst ` set (sc_floor cfg) \<noteq> floor_levels then Inl ValueError else Inr cfg)"

text \<open>
  \<open>load_ot_criticality\<close>: the device files in file-name order, a later address winning. A file that
  does not parse is None.
\<close>

fun read_points :: "pyval list \<Rightarrow> (int, string) odict \<Rightarrow> (int, string) odict" where
  "read_points [] result = result"
| "read_points (PDict point # points) result =
     (case (dget point ''wire_address'', dget point ''criticality'') of
        (PInt addr, PStr crit) \<Rightarrow> read_points points (od_set result addr crit)
      | _ \<Rightarrow> read_points points result)"
| "read_points (_ # points) result = read_points points result"

fun load_ot_criticality :: "pyval option list \<Rightarrow> (int, string) odict \<Rightarrow> (int, string) odict" where
  "load_ot_criticality [] result = result"
| "load_ot_criticality (Some (PDict doc) # docs) result =
     (case dget doc ''points'' of
        PList points \<Rightarrow> load_ot_criticality docs (read_points points result)
      | _ \<Rightarrow> load_ot_criticality docs result)"
| "load_ot_criticality (_ # docs) result = load_ot_criticality docs result"

subsection \<open>Scores\<close>

definition floor_for :: "scoring \<Rightarrow> pyval \<Rightarrow> int" where
  "floor_for sc level = (case level of PStr l \<Rightarrow> get_default (od_get (sc_floor sc)) l 0 | _ \<Rightarrow> 0)"

text \<open>\<open>(d.get(k) or {})\<close>.\<close>

definition sub_dict :: "event \<Rightarrow> string \<Rightarrow> event py" where
  "sub_dict d k = as_dict (py_or (dget d k) (PDict []))"

definition exposure_points :: "scoring \<Rightarrow> event \<Rightarrow> int py" where
  "exposure_points sc evt =
     (if \<not> sc_exposure_enabled sc \<or> evt = [] then Inr 0
      else py_bind (sub_dict evt ''unmapped'') (\<lambda>unmapped.
           py_bind (sub_dict unmapped ''ot'') (\<lambda>ot.
           case dget ot ''address'' of
             PInt addr \<Rightarrow>
               (case od_get (sc_criticality sc) addr of
                  None \<Rightarrow> Inr 0
                | Some crit \<Rightarrow> Inr (get_default (od_get (sc_tiers sc)) crit 0))
           | _ \<Rightarrow> Inr 0)))"

definition clamp :: "scoring \<Rightarrow> int \<Rightarrow> int" where
  "clamp sc x = max (sc_clamp_min sc) (min (sc_clamp_max sc) x)"

definition apply_exposure :: "scoring \<Rightarrow> int \<Rightarrow> event \<Rightarrow> int py" where
  "apply_exposure sc base evt =
     py_bind (exposure_points sc evt) (\<lambda>points.
       Inr (clamp sc (min (case sc_ceiling sc of None \<Rightarrow> sc_clamp_max sc | Some c \<Rightarrow> c) (base + points))))"

text \<open>\<open>max\<close> of a non-empty sequence, and \<open>max(..., default=0)\<close>.\<close>

definition max_floor :: "scoring \<Rightarrow> rule list \<Rightarrow> int" where
  "max_floor sc rs = (case map (floor_for sc \<circ> r_level) rs of [] \<Rightarrow> 0 | f # fs \<Rightarrow> fold max fs f)"

definition weight_sum :: "rule list \<Rightarrow> int" where
  "weight_sum rs = sum_list (map r_score_weight rs)"

definition score :: "scoring \<Rightarrow> rule list \<Rightarrow> event \<Rightarrow> int py" where
  "score sc matched evt =
     (if matched = [] then Inr 0
      else apply_exposure sc (clamp sc (max (weight_sum matched) (max_floor sc matched))) evt)"

definition gated_base :: "scoring \<Rightarrow> rule list \<Rightarrow> int" where
  "gated_base sc rs = clamp sc (max (weight_sum rs) (max_floor sc (filter r_llm_gate rs)))"

definition routing_score :: "scoring \<Rightarrow> rule list \<Rightarrow> event \<Rightarrow> int py" where
  "routing_score sc matched evt =
     (if matched = [] then Inr 0
      else let base = gated_base sc matched; eligible = filter r_exposure_gate matched
      in if length eligible = length matched then apply_exposure sc base evt
         else if eligible = [] then Inr base
         else py_bind (apply_exposure sc (gated_base sc eligible) evt) (\<lambda>s. Inr (max base s)))"

datatype action = Store | Classifier | Llm

definition route :: "scoring \<Rightarrow> int \<Rightarrow> action" where
  "route sc s = (if s \<ge> sc_llm_min sc then Llm else if s \<ge> sc_classifier_min sc then Classifier else Store)"

subsection \<open>The cooldown table\<close>

definition llm_cooldown_s :: int where
  "llm_cooldown_s = 300"

definition llm_cache_budget :: nat where
  "llm_cache_budget = 1000"

type_synonym cooldowns = "(string, int) odict"

definition is_llm_funnel_fresh :: "cooldowns \<Rightarrow> string \<Rightarrow> int \<Rightarrow> bool" where
  "is_llm_funnel_fresh recent key now \<longleftrightarrow> now - get_default (od_get recent) key 0 \<ge> llm_cooldown_s"

text \<open>The loop that pops the first key while the table is over its budget.\<close>

definition drop_oldest :: "nat \<Rightarrow> cooldowns \<Rightarrow> cooldowns" where
  "drop_oldest budget recent = drop (length recent - budget) recent"

definition record_enqueue :: "cooldowns \<Rightarrow> string \<Rightarrow> int \<Rightarrow> cooldowns" where
  "record_enqueue recent key now =
     (let recent = od_set recent key now;
          recent = (if length recent > llm_cache_budget
                    then filter (\<lambda>(k, v). v > now - llm_cooldown_s * 2) recent else recent)
      in drop_oldest llm_cache_budget recent)"

definition should_enqueue_llm :: "cooldowns \<Rightarrow> string \<Rightarrow> int \<Rightarrow> bool \<times> cooldowns" where
  "should_enqueue_llm recent key now =
     (if \<not> is_llm_funnel_fresh recent key now then (False, recent)
      else (True, record_enqueue recent key now))"

subsection \<open>Bounds\<close>

lemma clamp_bounds: "sc_clamp_min sc \<le> sc_clamp_max sc \<Longrightarrow> sc_clamp_min sc \<le> clamp sc x \<and> clamp sc x \<le> sc_clamp_max sc"
  by (simp add: clamp_def)

lemma clamp_mono: "x \<le> y \<Longrightarrow> clamp sc x \<le> clamp sc y"
  by (auto simp: clamp_def)

lemma clamp_idem [simp]: "clamp sc (clamp sc x) = clamp sc x"
  by (simp add: clamp_def max_def min_def)

text \<open>A configuration whose exposure can only add.\<close>

definition additive :: "scoring \<Rightarrow> bool" where
  "additive sc \<longleftrightarrow> sc_clamp_min sc \<le> sc_clamp_max sc \<and> 0 \<le> sc_clamp_min sc \<and>
     (\<forall>c\<in>set_option (sc_ceiling sc). sc_clamp_max sc \<le> c) \<and>
     (\<forall>t\<in>set (sc_tiers sc). 0 \<le> snd t) \<and> (\<forall>f\<in>set (sc_floor sc). 0 \<le> snd f)"

lemma get_default_nonneg: "\<forall>t\<in>set d. 0 \<le> snd t \<Longrightarrow> 0 \<le> get_default (od_get d) k (0::int)"
  by (auto simp: get_default_def split: option.split dest!: map_of_SomeD)

lemma exposure_nonneg: "additive sc \<Longrightarrow> exposure_points sc evt = Inr n \<Longrightarrow> 0 \<le> n"
  unfolding exposure_points_def py_bind_def
  by (auto simp: additive_def get_default_nonneg split: if_splits sum.splits pyval.splits option.splits)

lemma apply_exposure_additive:
  assumes "additive sc" "apply_exposure sc base evt = Inr s" "exposure_points sc evt = Inr p"
  shows "s = clamp sc (base + p)"
  using assms by (auto simp: apply_exposure_def additive_def clamp_def split: option.splits)

lemma fold_max_ge: "(a::int) \<le> fold max xs a"
proof (induction xs arbitrary: a)
  case (Cons x xs)
  from Cons [of "max x a"] show ?case by simp
qed simp

lemma fold_max_upper: "x \<in> set xs \<Longrightarrow> (x::int) \<le> fold max xs a"
  by (induction xs arbitrary: a) (auto intro: order_trans [OF _ fold_max_ge])

lemma fold_max_least: "(\<forall>x\<in>set xs. x \<le> b) \<Longrightarrow> a \<le> b \<Longrightarrow> fold max xs (a::int) \<le> b"
  by (induction xs arbitrary: a) auto

lemma max_floor_upper: "r \<in> set rs \<Longrightarrow> floor_for sc (r_level r) \<le> max_floor sc rs"
  by (cases rs) (auto simp: max_floor_def fold_max_ge fold_max_upper)

lemma max_floor_subset:
  assumes "additive sc" "set xs \<subseteq> set rs"
  shows "max_floor sc xs \<le> max_floor sc rs"
proof (cases xs)
  case Nil
  have "0 \<le> floor_for sc l" for l
    using assms(1) by (auto simp: floor_for_def additive_def get_default_nonneg split: pyval.split)
  with Nil show ?thesis
    by (cases rs) (auto simp: max_floor_def intro: order_trans [OF _ fold_max_ge])
next
  case (Cons x ys)
  then have "\<forall>y\<in>set xs. floor_for sc (r_level y) \<le> max_floor sc rs"
    using assms(2) max_floor_upper by blast
  with Cons show ?thesis by (auto simp: max_floor_def [of sc "x # ys"] intro!: fold_max_least)
qed

lemma weight_sum_filter:
  "\<forall>r\<in>set rs. 0 \<le> r_score_weight r \<Longrightarrow> weight_sum (filter P rs) \<le> weight_sum rs"
  by (induction rs) (auto simp: weight_sum_def)

lemma gated_base_le:
  assumes "additive sc" "\<forall>r\<in>set rs. 0 \<le> r_score_weight r"
  shows "gated_base sc (filter P rs) \<le> clamp sc (max (weight_sum rs) (max_floor sc rs))"
  unfolding gated_base_def
  using weight_sum_filter [OF assms(2), of P] max_floor_subset [OF assms(1), of "filter r_llm_gate (filter P rs)" rs]
  by (intro clamp_mono) (auto simp: le_max_iff_disj)

text \<open>C24. The score an analyst sees bounds the score that routes. With non-negative weights and points
  and a ceiling no lower than the clamp, both scores stay within the clamp, every matched rule's floor
  is met up to the clamp, and the routing score never exceeds the score, so no event is sent to a more
  expensive tier than its displayed score deserves.\<close>

theorem routing_below_score:
  assumes "additive sc" "\<forall>r\<in>set rs. 0 \<le> r_score_weight r" "rs \<noteq> []"
    and "score sc rs evt = Inr s" "routing_score sc rs evt = Inr q"
  shows "sc_clamp_min sc \<le> q \<and> q \<le> s \<and> s \<le> sc_clamp_max sc \<and>
         (\<forall>r\<in>set rs. min (sc_clamp_max sc) (floor_for sc (r_level r)) \<le> s)"
proof -
  let ?base = "clamp sc (max (weight_sum rs) (max_floor sc rs))"
  have c: "sc_clamp_min sc \<le> sc_clamp_max sc" using assms(1) by (simp add: additive_def)
  obtain p where p: "exposure_points sc evt = Inr p" "0 \<le> p"
    using assms(1,3,4) exposure_nonneg
    by (cases "exposure_points sc evt") (auto simp: score_def apply_exposure_def)
  note ap = apply_exposure_additive [OF assms(1) _ p(1)]
  have s: "s = clamp sc (?base + p)" using assms(3,4) ap by (simp add: score_def)
  have "?base \<le> clamp sc (?base + p)" using clamp_mono [of ?base "?base + p" sc] p(2) by simp
  with s have base: "?base \<le> s" by simp
  have e: "clamp sc (gated_base sc (filter P rs) + p) \<le> s" for P
    unfolding s using gated_base_le [OF assms(1,2), of P] by (intro clamp_mono) simp
  have le: "gated_base sc rs \<le> s" using gated_base_le [OF assms(1,2), of "\<lambda>_. True"] base by simp
  have ap': "apply_exposure sc b evt = Inr (clamp sc (b + p))" for b
    using ap [of b] p(1) by (simp add: apply_exposure_def)
  have q: "q = clamp sc (gated_base sc rs + p) \<or> q = gated_base sc rs \<or>
           q = max (gated_base sc rs) (clamp sc (gated_base sc (filter r_exposure_gate rs) + p))"
    using assms(3,5) by (auto simp: routing_score_def Let_def ap' split: if_splits)
  have low: "sc_clamp_min sc \<le> gated_base sc xs" "sc_clamp_min sc \<le> clamp sc x" for xs x
    using clamp_bounds [OF c] by (simp_all add: gated_base_def)
  have "q \<le> s" using q le e [of r_exposure_gate] e [of "\<lambda>_. True"] by auto
  moreover have "sc_clamp_min sc \<le> q" using q low by (auto simp: le_max_iff_disj)
  moreover have "min (sc_clamp_max sc) (floor_for sc (r_level r)) \<le> s" if "r \<in> set rs" for r
    using base max_floor_upper [OF that, of sc] by (auto simp: clamp_def)
  moreover have "s \<le> sc_clamp_max sc" using s clamp_bounds [OF c] by simp
  ultimately show ?thesis by blast
qed

definition shipped :: scoring where
  "shipped = \<lparr>sc_llm_min = 60, sc_classifier_min = 20,
     sc_floor = [(''informational'', 0), (''low'', 10), (''medium'', 40), (''high'', 70), (''critical'', 80)],
     sc_clamp_min = 0, sc_clamp_max = 100, sc_exposure_enabled = True,
     sc_tiers = [(''default'', 0), (''low'', 0), (''medium'', 5), (''high'', 10), (''critical'', 20)],
     sc_ceiling = Some 100, sc_criticality = [(40001, ''critical'')]\<rparr>"

definition write_rule :: event where
  "write_rule = [(''id'', PStr ''w''), (''level'', PStr ''high''),
     (''detection'', PDict [(''s'', PDict [(''class_uid'', PInt 4001)]), (''condition'', PStr ''s'')]),
     (''siem'', PDict [(''score_weight'', PInt 15), (''llm_gate'', PBool False)])]"

definition ot_write :: event where
  "ot_write = [(''class_uid'', PInt 4001), (''unmapped'', PDict [(''ot'', PDict [(''address'', PInt 40001)])])]"

theorem routing_below_score_witness:
  "\<exists>r. rule_init 900 write_rule = Inr r \<and> score shipped [r] ot_write = Inr 90 \<and>
       routing_score shipped [r] ot_write = Inr 35 \<and> (35::int) \<le> 90"
proof -
  have "case rule_init 900 write_rule of
          Inl _ \<Rightarrow> False
        | Inr r \<Rightarrow> r_score_weight r = 15 \<and> score shipped [r] ot_write = Inr 90 \<and>
                   routing_score shipped [r] ot_write = Inr 35" by code_simp
  then obtain r where r: "rule_init 900 write_rule = Inr r" "r_score_weight r = 15"
    "score shipped [r] ot_write = Inr 90" "routing_score shipped [r] ot_write = Inr 35"
    by (cases "rule_init 900 write_rule") auto
  have "additive shipped" by (simp add: additive_def shipped_def)
  from routing_below_score [OF this _ _ r(3,4)] r(2) have "(35::int) \<le> 90" by simp
  with r show ?thesis by blast
qed

subsection \<open>The cooldown\<close>

lemma od_wf_filter: "od_wf d \<Longrightarrow> od_wf (filter P d)"
  by (simp add: distinct_map_filter)

lemma od_wf_drop: "od_wf d \<Longrightarrow> od_wf (drop n d)"
  by (simp flip: drop_map)

lemma od_get_iff: "od_wf d \<Longrightarrow> od_get d k = Some v \<longleftrightarrow> (k, v) \<in> set d"
  by simp

text \<open>The funnel cooldown is bounded and effective. Recording an enqueue keeps the table within
  its budget with one entry per key, and the key just recorded is in cooldown for the next 300 seconds
  whatever had to be evicted for it.\<close>

theorem record_enqueue_cools:
  assumes "od_wf recent" "length recent \<le> llm_cache_budget"
  shows "length (record_enqueue recent key now) \<le> llm_cache_budget \<and> od_wf (record_enqueue recent key now) \<and>
         is_llm_funnel_fresh (record_enqueue recent key now) key now' = (now' \<ge> now + llm_cooldown_s)"
proof -
  let ?r = "od_set recent key now"
  let ?f = "filter (\<lambda>(k, v). v > now - llm_cooldown_s * 2) ?r"
  have wf: "od_wf ?r" using assms(1) by simp
  have "od_wf (record_enqueue recent key now)" "length (record_enqueue recent key now) \<le> llm_cache_budget"
    using wf od_wf_filter [OF wf] by (simp_all add: record_enqueue_def drop_oldest_def Let_def od_wf_drop)
  moreover have "(key, now) \<in> set (record_enqueue recent key now)"
  proof (cases "length ?r > llm_cache_budget")
    case True
    then have "key \<notin> fst ` set recent" using assms(2) length_od_set [of recent key now] by (auto split: if_splits)
    from od_set_fresh [OF this, of now] have r: "?f = filter (\<lambda>(k, v). v > now - llm_cooldown_s * 2) recent @ [(key, now)]"
      by (simp add: llm_cooldown_s_def)
    have "drop n (xs @ [x]) = drop n xs @ [x]" if "n \<le> length xs" for n and xs :: cooldowns and x
      using that by simp
    then have "drop_oldest llm_cache_budget ?f =
        drop (length ?f - llm_cache_budget) (filter (\<lambda>(k, v). v > now - llm_cooldown_s * 2) recent) @ [(key, now)]"
      unfolding drop_oldest_def r by (simp add: llm_cache_budget_def)
    with True show ?thesis by (simp add: record_enqueue_def Let_def)
  next
    case False
    then have "record_enqueue recent key now = ?r" by (simp add: record_enqueue_def drop_oldest_def Let_def)
    moreover have "od_get ?r key = Some now" by simp
    ultimately show ?thesis using map_of_SomeD by fastforce
  qed
  ultimately have wf': "od_wf (record_enqueue recent key now)"
    and bound: "length (record_enqueue recent key now) \<le> llm_cache_budget"
    and get: "od_get (record_enqueue recent key now) key = Some now"
    by (simp_all add: od_get_iff)
  from get have "is_llm_funnel_fresh (record_enqueue recent key now) key now' = (now' \<ge> now + llm_cooldown_s)"
    by (auto simp: is_llm_funnel_fresh_def get_default_def)
  with wf' bound show ?thesis by blast
qed

theorem record_enqueue_cools_witness:
  "\<not> is_llm_funnel_fresh (record_enqueue [(''a'', 5)] ''a'' 1000) ''a'' 1299 \<and>
   is_llm_funnel_fresh (record_enqueue [(''a'', 5)] ''a'' 1000) ''a'' 1300"
  using record_enqueue_cools [of "[(''a'', 5)]" "''a''" 1000 1299]
    record_enqueue_cools [of "[(''a'', 5)]" "''a''" 1000 1300]
  by (simp add: llm_cache_budget_def llm_cooldown_s_def)

end
