(* ===== verification/Tenants.thy ===== *)
theory Tenants
  imports Rules
begin

text \<open>
  Per-tenant rule enablement (\<open>src/services/ws4-detection/tenants.py\<close>): the tenant of an event or
  alert, the two rule lists of its file, and the bounded least-recently-used cache in front of the
  files. The files are a function from tenant ids to their content; the directory is fixed, so the
  cache is keyed by the tenant.
\<close>

subsection \<open>Files\<close>

datatype config_file = Missing | Unreadable | Parsed pyval

type_synonym tenant_config = "string set \<times> string set"

definition no_config :: tenant_config where
  "no_config = ({}, {})"

definition id_set :: "pyval \<Rightarrow> string \<Rightarrow> string set" where
  "id_set raw key =
     (case raw of
        PDict d \<Rightarrow> (case dget d key of PList es \<Rightarrow> {s. PStr s \<in> set es} | _ \<Rightarrow> {})
      | _ \<Rightarrow> {})"

lemma id_set_code [code]:
  "id_set raw key =
     (case raw of
        PDict d \<Rightarrow> (case dget d key of
                      PList es \<Rightarrow> set (concat (map (\<lambda>e. case e of PStr s \<Rightarrow> [s] | _ \<Rightarrow> []) es))
                    | _ \<Rightarrow> {})
      | _ \<Rightarrow> {})"
proof -
  have "{s. PStr s \<in> set es} = set (concat (map (\<lambda>e. case e of PStr s \<Rightarrow> [s] | _ \<Rightarrow> []) es))" for es
    by (induction es) (auto split: pyval.splits)
  then show ?thesis by (simp add: id_set_def split: pyval.split)
qed

definition tenant_of :: "event \<Rightarrow> pyval py" where
  "tenant_of evt =
     (case od_get evt ''tenant_id'' of
        Some t \<Rightarrow> Inr (py_or t (PStr default_tenant_name))
      | None \<Rightarrow> py_bind (siem_of evt) (\<lambda>siem. Inr (py_or (dget siem ''tenant'') (PStr default_tenant_name))))"

subsection \<open>The cache\<close>

definition cache_maxsize :: nat where
  "cache_maxsize = 1000"

type_synonym cache = "(string, tenant_config) odict"

definition move_to_end :: "('k, 'v) odict \<Rightarrow> 'k \<Rightarrow> ('k, 'v) odict" where
  "move_to_end d k = (case od_get d k of None \<Rightarrow> d | Some v \<Rightarrow> od_del d k @ [(k, v)])"

definition cache_get :: "cache \<Rightarrow> string \<Rightarrow> tenant_config option \<times> cache" where
  "cache_get cache key =
     (case od_get cache key of None \<Rightarrow> (None, cache) | Some v \<Rightarrow> (Some v, move_to_end cache key))"

definition cache_put :: "cache \<Rightarrow> string \<Rightarrow> tenant_config \<Rightarrow> cache" where
  "cache_put cache key v =
     (let d = move_to_end (od_set cache key v) key in drop (length d - cache_maxsize) d)"

definition load_config ::
    "(string \<Rightarrow> config_file) \<Rightarrow> host \<Rightarrow> cache \<Rightarrow> pyval \<Rightarrow> tenant_config \<times> cache" where
  "load_config files ho cache tenant =
     (case cache_get cache (py_str ho tenant) of
        (Some cfg, cache) \<Rightarrow> (cfg, cache)
      | (None, cache) \<Rightarrow>
          if tenant \<noteq> PStr default_tenant_name \<and> \<not> valid_tenant_id tenant then (no_config, cache)
          else let cfg = (case files (py_str ho tenant) of
                            Parsed raw \<Rightarrow> (id_set raw ''disabled_rules'', id_set raw ''enabled_rules'')
                          | _ \<Rightarrow> no_config)
               in (cfg, cache_put cache (py_str ho tenant) cfg))"

definition load_disabled_rules where
  "load_disabled_rules files ho cache tenant =
     (case load_config files ho cache tenant of (cfg, cache') \<Rightarrow> (fst cfg, cache'))"

definition load_enabled_rules where
  "load_enabled_rules files ho cache tenant =
     (case load_config files ho cache tenant of (cfg, cache') \<Rightarrow> (snd cfg, cache'))"

definition invalidate_cache :: "cache \<Rightarrow> cache" where
  "invalidate_cache cache = []"

subsection \<open>The cache is transparent\<close>

text \<open>What a tenant's file says, without a cache.\<close>

definition config_of :: "(string \<Rightarrow> config_file) \<Rightarrow> string \<Rightarrow> tenant_config" where
  "config_of files t =
     (if \<not> valid_tenant_id (PStr t) then no_config
      else case files t of
             Parsed raw \<Rightarrow> (id_set raw ''disabled_rules'', id_set raw ''enabled_rules'')
           | _ \<Rightarrow> no_config)"

definition cache_ok :: "(string \<Rightarrow> config_file) \<Rightarrow> cache \<Rightarrow> bool" where
  "cache_ok files cache \<longleftrightarrow>
     od_wf cache \<and> length cache \<le> cache_maxsize \<and> (\<forall>(t, cfg)\<in>set cache. cfg = config_of files t)"

lemma default_valid: "valid_tenant_id (PStr default_tenant_name)"
  by code_simp

lemma move_to_end_set: "od_wf d \<Longrightarrow> set (move_to_end d k) = set d"
  by (auto simp: move_to_end_def od_del_def split: option.split dest: map_of_SomeD)
     (metis eq_key_imp_eq_value)

lemma move_to_end_wf: "od_wf d \<Longrightarrow> od_wf (move_to_end d k)"
  by (auto simp: move_to_end_def split: option.split) (auto simp: od_del_def)

lemma move_to_end_length:
  assumes "od_wf d"
  shows "length (move_to_end d k) = length d"
proof -
  have "length xs = card (fst ` set xs)" if "od_wf xs" for xs :: "('a, 'b) odict"
    using distinct_card [OF that] by simp
  from this [OF assms] this [OF move_to_end_wf [OF assms]] show ?thesis
    by (simp add: move_to_end_set [OF assms])
qed

lemma od_set_entries:
  assumes "od_wf d"
  shows "(k', v') \<in> set (od_set d k v) \<longleftrightarrow> (if k' = k then v' = v else (k', v') \<in> set d)"
proof -
  have "(k', v') \<in> set (od_set d k v) \<longleftrightarrow> od_get (od_set d k v) k' = Some v'"
    using od_wf_set [OF assms] by (metis map_of_SomeD map_of_is_SomeI)
  moreover have "(k', v') \<in> set d \<longleftrightarrow> od_get d k' = Some v'"
    using assms by (metis map_of_SomeD map_of_is_SomeI)
  ultimately show ?thesis by auto
qed

lemma cache_ok_put:
  assumes "cache_ok files cache" "cfg = config_of files t"
  shows "cache_ok files (cache_put cache t cfg)"
proof -
  let ?d = "move_to_end (od_set cache t cfg) t"
  have wf: "od_wf cache" "od_wf (od_set cache t cfg)" using assms(1) by (simp_all add: cache_ok_def)
  have "\<forall>(t, cfg)\<in>set ?d. cfg = config_of files t"
    unfolding move_to_end_set [OF wf(2)]
    using assms wf(1) by (auto simp: cache_ok_def od_set_entries split: if_splits)
  then have "\<forall>(t, cfg)\<in>set (drop n ?d). cfg = config_of files t" for n by (auto dest: in_set_dropD)
  moreover have "od_wf (drop n ?d)" for n using move_to_end_wf [OF wf(2), of t] by (simp flip: drop_map)
  ultimately show ?thesis by (simp add: cache_ok_def cache_put_def Let_def)
qed

text \<open>C35. The cache of tenant files never shows: starting from any cache filled from the same files, a
  lookup answers what the file says, and nothing for an invalid tenant id or an unusable file; the
  cache stays within its bound and invalid ids are never stored.\<close>

theorem tenant_cache_transparent:
  assumes "cache_ok files cache" "load_config files ho cache (PStr t) = (cfg, cache')"
  shows "cfg = config_of files t \<and> cache_ok files cache' \<and>
         (\<not> valid_tenant_id (PStr t) \<longrightarrow> set cache' = set cache)"
proof (cases "od_get cache t")
  case None
  then have c: "cache_get cache t = (None, cache)" by (simp add: cache_get_def)
  show ?thesis
  proof (cases "valid_tenant_id (PStr t)")
    case True
    with assms(2) c have "cfg = config_of files t" "cache' = cache_put cache t cfg"
      by (auto simp: load_config_def py_str_def config_of_def Let_def)
    with cache_ok_put [OF assms(1)] True show ?thesis by simp
  next
    case False
    then have "t \<noteq> default_tenant_name" using default_valid by blast
    with False assms c show ?thesis by (simp add: load_config_def py_str_def config_of_def)
  qed
next
  case (Some v)
  have wf: "od_wf cache" using assms(1) by (simp add: cache_ok_def)
  from Some have "cache_get cache t = (Some v, move_to_end cache t)" by (simp add: cache_get_def)
  with assms(2) have r: "cfg = v" "cache' = move_to_end cache t" by (simp_all add: load_config_def py_str_def)
  have "v = config_of files t" using Some assms(1) by (auto simp: cache_ok_def dest!: map_of_SomeD)
  moreover have "cache_ok files cache'"
    using assms(1) unfolding r(2)
    by (simp add: cache_ok_def move_to_end_set [OF wf] move_to_end_wf [OF wf] move_to_end_length [OF wf])
  ultimately show ?thesis using r move_to_end_set [OF wf] by simp
qed

definition acme_files :: "string \<Rightarrow> config_file" where
  "acme_files t =
     (if t = ''acme'' then Parsed (PDict [(''disabled_rules'', PList [PStr ''r1'', PInt 3])]) else Missing)"

theorem tenant_cache_transparent_witness:
  "\<forall>ho. fst (load_config acme_files ho (snd (load_config acme_files ho [] (PStr ''acme''))) (PStr ''acme''))
     = ({''r1''}, {})"
proof
  fix ho
  have ok: "cache_ok acme_files []" by (simp add: cache_ok_def)
  obtain cfg c where 1: "load_config acme_files ho [] (PStr ''acme'') = (cfg, c)" by fastforce
  obtain cfg' c' where 2: "load_config acme_files ho c (PStr ''acme'') = (cfg', c')" by fastforce
  have "config_of acme_files ''acme'' = ({''r1''}, {})" by code_simp
  with tenant_cache_transparent [OF ok 1] tenant_cache_transparent [OF _ 2] have "cfg' = ({''r1''}, {})" by simp
  with 1 2 show "fst (load_config acme_files ho (snd (load_config acme_files ho [] (PStr ''acme''))) (PStr ''acme''))
    = ({''r1''}, {})" by simp
qed

end
