(* ===== verification/Detector.thy ===== *)
theory Detector
  imports Bucketing Scoring Tenants
begin

text \<open>
  The detector (\<open>src/services/ws4-detection/main.py\<close>): loading and indexing the rules, processing one
  event, and emitting its records. The bus is a parameter: \<open>produce\<close> takes its state and a message
  and gives the new state, or None when it raises. The tenant files are the parameter \<open>files\<close>. The
  counter is the in-process one, shared by all rules. Cooldown times are whole seconds.
\<close>

subsection \<open>State\<close>

record stats =
  n_scored :: nat
  n_alerts :: nat
  n_ai :: nat
  n_classifier :: nat
  n_reload_failed :: nat

record detector =
  d_rules :: "rule list"
  d_index :: "(pyval option, rule list) odict"
  d_counter :: counter
  d_scoring :: scoring
  d_recent :: cooldowns
  d_opt_in :: "string set"
  d_cache :: cache
  d_fired :: "(pyval, int) odict"
  d_stats :: stats

subsection \<open>Loading\<close>

text \<open>Plugin rules join the base rules unless their id is taken.\<close>

fun merge_rules :: "rule list \<Rightarrow> rule list \<Rightarrow> rule list" where
  "merge_rules rules [] = rules"
| "merge_rules rules (r # rs) =
     merge_rules (if r_id r \<in> r_id ` set rules then rules else rules @ [r]) rs"

definition companion_id :: "rule \<Rightarrow> pyval" where
  "companion_id r = (case r_companion_of r of None \<Rightarrow> PNone | Some s \<Rightarrow> PStr s)"

definition widen_opt_in :: "rule list \<Rightarrow> rule list" where
  "widen_opt_in rules =
     (let off_ids = r_id ` set (filter (\<lambda>r. \<not> r_default_enabled r) rules)
      in map (\<lambda>r. if companion_id r \<in> off_ids then r\<lparr>r_opt_in_required := True\<rparr> else r) rules)"

definition index_rules :: "rule list \<Rightarrow> (pyval option, rule list) odict" where
  "index_rules rules =
     foldl (\<lambda>d r. od_set d (r_class_uid r) (get_default (od_get d) (r_class_uid r) [] @ [r])) [(None, [])] rules"

definition load_detector :: "rule list \<Rightarrow> rule list list \<Rightarrow> rule list \<times> (pyval option, rule list) odict" where
  "load_detector base packs =
     (let rules = widen_opt_in (foldl merge_rules base packs) in (rules, index_rules rules))"

text \<open>A reload swaps rules and index together, or keeps both when the new set does not load.\<close>

definition reload :: "(rule list \<times> rule list list) option \<Rightarrow> detector \<Rightarrow> bool \<times> detector" where
  "reload loaded d =
     (case loaded of
        None \<Rightarrow> (False, d\<lparr>d_stats := (d_stats d)\<lparr>n_reload_failed := Suc (n_reload_failed (d_stats d))\<rparr>\<rparr>)
      | Some (base, packs) \<Rightarrow>
          (case load_detector base packs of (rules, index) \<Rightarrow> (True, d\<lparr>d_rules := rules, d_index := index\<rparr>)))"

subsection \<open>Candidates\<close>

definition bucket :: "detector \<Rightarrow> pyval option \<Rightarrow> rule list" where
  "bucket d k = get_default (od_get (d_index d)) k []"

definition class_candidates_of :: "detector \<Rightarrow> event \<Rightarrow> rule list py" where
  "class_candidates_of d evt =
     (let class_uid = dget evt ''class_uid''
      in if class_uid = PNone then Inr (bucket d None)
         else if \<not> hashable class_uid then Inl TypeError
         else Inr (bucket d (Some (dict_key class_uid)) @ bucket d None))"

definition drop_disabled :: "string set \<Rightarrow> rule list \<Rightarrow> rule list" where
  "drop_disabled disabled rs =
     filter (\<lambda>r. r_id r \<notin> PStr ` disabled \<and> companion_id r \<notin> PStr ` disabled) rs"

definition keep_opted :: "string set \<Rightarrow> rule list \<Rightarrow> rule list" where
  "keep_opted opted rs = filter (\<lambda>r. \<not> r_opt_in_required r \<or> r_id r \<in> PStr ` opted) rs"

definition tenant_candidates ::
    "(string \<Rightarrow> config_file) \<Rightarrow> host \<Rightarrow> detector \<Rightarrow> pyval \<Rightarrow> rule list \<Rightarrow> rule list \<times> detector" where
  "tenant_candidates files ho d tenant rs =
     (let (disabled, c1) = load_disabled_rules files ho (d_cache d) tenant;
          rs1 = drop_disabled disabled rs
      in if \<exists>r\<in>set rs1. r_opt_in_required r
         then let (enabled, c2) = load_enabled_rules files ho c1 tenant
              in (keep_opted (d_opt_in d \<union> enabled) rs1, d\<lparr>d_cache := c2\<rparr>)
         else (rs1, d\<lparr>d_cache := c1\<rparr>))"

subsection \<open>Evaluation\<close>

text \<open>Rules one by one; an exception of a rule ends the event.\<close>

fun evaluate_all :: "host \<Rightarrow> rule list \<Rightarrow> counter \<Rightarrow> event \<Rightarrow> rule list py \<times> counter \<times> event" where
  "evaluate_all ho [] c evt = (Inr [], c, evt)"
| "evaluate_all ho (r # rs) c evt =
     (case evaluate ho r c evt of
        (Inl e, c, evt) \<Rightarrow> (Inl e, c, evt)
      | (Inr b, c, evt) \<Rightarrow>
          (case evaluate_all ho rs c evt of
             (Inl e, c, evt) \<Rightarrow> (Inl e, c, evt)
           | (Inr matched, c, evt) \<Rightarrow> (Inr (if b then r # matched else matched), c, evt)))"

text \<open>The loop of \<open>_evaluate_candidates\<close> for a counter without \<open>hit_many\<close>.\<close>

definition evaluate_begun :: "host \<Rightarrow> rule \<Rightarrow> counter \<Rightarrow> event \<Rightarrow> bool py \<times> counter \<times> event" where
  "evaluate_begun ho r c evt =
     (if \<not> stateful r then evaluate ho r c evt
      else case begin_evaluate ho r evt of
             (Inl e, evt) \<Rightarrow> (Inl e, c, evt)
           | (Inr (Done b), evt) \<Rightarrow> (Inr b, c, evt)
           | (Inr (Planned p), evt) \<Rightarrow> (case finish_unbatched r c p of (b, c) \<Rightarrow> (b, c, evt)))"

fun evaluate_pipelined :: "host \<Rightarrow> rule list \<Rightarrow> counter \<Rightarrow> event \<Rightarrow> rule list py \<times> counter \<times> event" where
  "evaluate_pipelined ho [] c evt = (Inr [], c, evt)"
| "evaluate_pipelined ho (r # rs) c evt =
     (case evaluate_begun ho r c evt of
        (Inl e, c, evt) \<Rightarrow> (Inl e, c, evt)
      | (Inr b, c, evt) \<Rightarrow>
          (case evaluate_pipelined ho rs c evt of
             (Inl e, c, evt) \<Rightarrow> (Inl e, c, evt)
           | (Inr matched, c, evt) \<Rightarrow> (Inr (if b then r # matched else matched), c, evt)))"

definition evaluate_candidates where
  "evaluate_candidates pipeline ho rs c evt =
     (if \<not> pipeline then evaluate_all ho rs c evt else evaluate_pipelined ho rs c evt)"

subsection \<open>Companions\<close>

fun within_evidence :: "evidence option \<Rightarrow> evidence option \<Rightarrow> bool" where
  "within_evidence (Some (One_event a)) (Some (One_event b)) = (a = b)"
| "within_evidence (Some (Events A)) (Some (Events B)) = (A \<subseteq> B)"
| "within_evidence (Some (Field_values f A)) (Some (Field_values g B)) = (f = g \<and> A = B)"
| "within_evidence _ _ = False"

text \<open>The matched rule with the id of the companion's sibling; the last of several.\<close>

definition sibling_of :: "rule list \<Rightarrow> rule \<Rightarrow> rule option" where
  "sibling_of matched r = (if r_companion_of r = None then None else find (\<lambda>s. r_id s = companion_id r) (rev matched))"

definition covered :: "host \<Rightarrow> rule list \<Rightarrow> counter \<Rightarrow> event \<Rightarrow> rule \<Rightarrow> bool py" where
  "covered ho matched c evt r =
     (case sibling_of matched r of
        None \<Rightarrow> Inr False
      | Some sibling \<Rightarrow>
          py_bind (window_evidence ho r c evt) (\<lambda>mine.
          py_bind (window_evidence ho sibling c evt) (\<lambda>theirs.
            Inr (within_evidence mine theirs))))"

fun drop_covered :: "host \<Rightarrow> rule list \<Rightarrow> counter \<Rightarrow> event \<Rightarrow> rule list \<Rightarrow> rule list py" where
  "drop_covered ho matched c evt [] = Inr []"
| "drop_covered ho matched c evt (r # rs) =
     py_bind (covered ho matched c evt r) (\<lambda>b.
     py_bind (drop_covered ho matched c evt rs) (\<lambda>kept. Inr (if b then kept else r # kept)))"

subsection \<open>One event\<close>

text \<open>\<open>siem["score"] = score\<close>, on the dictionary the event has or a fresh one.\<close>

definition stamp_score :: "int \<Rightarrow> event \<Rightarrow> event py" where
  "stamp_score s evt =
     (case py_or (dget evt ''siem'') (PDict []) of
        PDict siem \<Rightarrow> Inr (od_set evt ''siem'' (PDict (od_set siem ''score'' (PInt s))))
      | _ \<Rightarrow> Inl TypeError)"

definition process ::
    "bool \<Rightarrow> bool \<Rightarrow> (string \<Rightarrow> config_file) \<Rightarrow> host \<Rightarrow> detector \<Rightarrow> event \<Rightarrow>
     (event \<times> rule list \<times> action) py \<times> detector" where
  "process scan_all pipeline files ho d evt =
     (case (if scan_all then Inr (d_rules d) else class_candidates_of d evt) of
        Inl e \<Rightarrow> (Inl e, d)
      | Inr candidates \<Rightarrow>
     (case tenant_of evt of
        Inl e \<Rightarrow> (Inl e, d)
      | Inr tenant \<Rightarrow>
     (case tenant_candidates files ho d tenant candidates of (rs, d) \<Rightarrow>
     (case evaluate_candidates pipeline ho rs (d_counter d) evt of (result, c, evt) \<Rightarrow>
     (let d = d\<lparr>d_counter := c\<rparr> in
        (py_bind result (\<lambda>matched.
         py_bind (drop_covered ho matched c evt matched) (\<lambda>kept.
         py_bind (score (d_scoring d) kept evt) (\<lambda>s.
         py_bind (stamp_score s evt) (\<lambda>evt.
         py_bind (routing_score (d_scoring d) kept evt) (\<lambda>q.
           Inr (evt, kept, route (d_scoring d) q)))))), d))))))"

subsection \<open>Emission\<close>

text \<open>An alert is a dictionary, its keys in the order of the code.\<close>

definition make_alert :: "host \<Rightarrow> counter \<Rightarrow> event \<Rightarrow> rule \<Rightarrow> pyval \<Rightarrow> event py" where
  "make_alert ho c evt r s =
     py_bind (contributing_event_ids_with_omitted ho r c evt) (\<lambda>(ids, omitted).
     py_bind (alert_key ho r evt) (\<lambda>key.
     py_bind (siem_of evt) (\<lambda>siem.
       Inr ([(''alert_id'', PStr key), (''time'', dget evt ''time''), (''rule_id'', r_id r),
             (''rule_title'', r_title r), (''level'', r_level r), (''score'', s),
             (''sector'', dget siem ''sector''), (''mitre'', r_mitre r), (''tenant_id'', dget siem ''tenant''),
             (''src_endpoint'', get_default (od_get evt) ''src_endpoint'' (PDict [])),
             (''dst_endpoint'', get_default (od_get evt) ''dst_endpoint'' (PDict [])),
             (''actor'', get_default (od_get evt) ''actor'' (PDict [])),
             (''event_ids'', PList ids), (''trigger_event_id'', dget siem ''ingest_id''),
             (''triage'', py_or (dget evt ''triage'') (PDict [(''status'', PStr ''new'')]))] @
            (if omitted \<noteq> 0 then [(''event_ids_omitted'', PInt omitted)] else [])))))"

datatype message =
    Scored_event pyval event
  | Alert_record string event
  | Ai_request pyval event action

text \<open>What ends an emission: an exception of its own, or the bus raising.\<close>

datatype failure = Raised py_exn | Produce_failed

type_synonym 'b bus = "'b \<Rightarrow> message \<Rightarrow> 'b option"

definition now_s :: "host \<Rightarrow> int" where
  "now_s ho = ho_wall ho div 1000"

definition count_in :: "(stats \<Rightarrow> stats) \<Rightarrow> detector \<Rightarrow> detector" where
  "count_in f d = d\<lparr>d_stats := f (d_stats d)\<rparr>"

definition record_fire :: "host \<Rightarrow> rule \<Rightarrow> detector \<Rightarrow> detector" where
  "record_fire ho r d = d\<lparr>d_fired := od_set (d_fired d) (r_id r) (now_s ho)\<rparr>"

fun emit_alerts ::
    "host \<Rightarrow> 'b bus \<Rightarrow> event \<Rightarrow> pyval \<Rightarrow> rule list \<Rightarrow> detector \<Rightarrow> 'b \<Rightarrow> (failure + nat) \<times> detector \<times> 'b" where
  "emit_alerts ho produce evt s [] d b = (Inr 0, d, b)"
| "emit_alerts ho produce evt s (r # rs) d b =
     (case make_alert ho (d_counter d) evt r s of
        Inl e \<Rightarrow> (Inl (Raised e), d, b)
      | Inr alert \<Rightarrow>
          (case alert_key ho r evt of
             Inl e \<Rightarrow> (Inl (Raised e), d, b)
           | Inr key \<Rightarrow>
               (case produce b (Alert_record key alert) of
                  None \<Rightarrow> (Inl Produce_failed, d, b)
                | Some b \<Rightarrow>
                    (case emit_alerts ho produce evt s rs
                            (count_in (\<lambda>st. st\<lparr>n_alerts := Suc (n_alerts st)\<rparr>) (record_fire ho r d)) b of
                       (Inl f, d, b) \<Rightarrow> (Inl f, d, b)
                     | (Inr n, d, b) \<Rightarrow> (Inr (Suc n), d, b)))))"

fun any_fresh :: "host \<Rightarrow> cooldowns \<Rightarrow> event \<Rightarrow> rule list \<Rightarrow> bool py" where
  "any_fresh ho recent evt [] = Inr False"
| "any_fresh ho recent evt (r # rs) =
     py_bind (alert_key ho r evt) (\<lambda>key.
       if is_llm_funnel_fresh recent key (now_s ho) then Inr True else any_fresh ho recent evt rs)"

definition funnel_fresh :: "host \<Rightarrow> cooldowns \<Rightarrow> event \<Rightarrow> rule list \<Rightarrow> bool py" where
  "funnel_fresh ho recent evt matched = (if matched = [] then Inr True else any_fresh ho recent evt matched)"

fun record_funnel :: "host \<Rightarrow> event \<Rightarrow> rule list \<Rightarrow> cooldowns \<Rightarrow> cooldowns py" where
  "record_funnel ho evt [] recent = Inr recent"
| "record_funnel ho evt (r # rs) recent =
     py_bind (alert_key ho r evt) (\<lambda>key. record_funnel ho evt rs (record_enqueue recent key (now_s ho)))"

definition emit_ai ::
    "host \<Rightarrow> 'b bus \<Rightarrow> event \<Rightarrow> pyval \<Rightarrow> rule list \<Rightarrow> action \<Rightarrow> detector \<Rightarrow> 'b \<Rightarrow> (failure + nat) \<times> detector \<times> 'b" where
  "emit_ai ho produce evt key matched act d b =
     (case (if act = Store then Inr False else funnel_fresh ho (d_recent d) evt matched) of
        Inl e \<Rightarrow> (Inl (Raised e), d, b)
      | Inr fresh \<Rightarrow>
          if \<not> fresh then (Inr 0, d, b)
          else (case produce b (Ai_request key evt act) of
                  None \<Rightarrow> (Inl Produce_failed, d, b)
                | Some b \<Rightarrow>
                    (case record_funnel ho evt matched (d_recent d) of
                       Inl e \<Rightarrow> (Inl (Raised e), d, b)
                     | Inr recent \<Rightarrow>
                         (Inr 1,
                          count_in (\<lambda>st. if act = Llm then st\<lparr>n_ai := Suc (n_ai st)\<rparr>
                                         else st\<lparr>n_classifier := Suc (n_classifier st)\<rparr>) (d\<lparr>d_recent := recent\<rparr>),
                          b))))"

text \<open>\<open>_emit\<close>: the scored event, the alerts, then the funnel. The counts are alerts, LLM and classifier.\<close>

definition emit ::
    "host \<Rightarrow> 'b bus \<Rightarrow> event \<Rightarrow> rule list \<Rightarrow> action \<Rightarrow> detector \<Rightarrow> 'b \<Rightarrow>
     (failure + nat \<times> nat \<times> nat) \<times> detector \<times> 'b" where
  "emit ho produce evt matched act d b =
     (case sub_dict evt ''src_endpoint'' of
        Inl e \<Rightarrow> (Inl (Raised e), d, b)
      | Inr src \<Rightarrow>
     (let key = get_default (od_get src) ''ip'' (PStr ''0.0.0.0'') in
      case produce b (Scored_event key evt) of
        None \<Rightarrow> (Inl Produce_failed, d, b)
      | Some b \<Rightarrow>
     (let d = count_in (\<lambda>st. st\<lparr>n_scored := Suc (n_scored st)\<rparr>) d in
      case siem_of evt of
        Inl e \<Rightarrow> (Inl (Raised e), d, b)
      | Inr siem \<Rightarrow>
     (case emit_alerts ho produce evt (dget siem ''score'') matched d b of
        (Inl f, d, b) \<Rightarrow> (Inl f, d, b)
      | (Inr n, d, b) \<Rightarrow>
     (case emit_ai ho produce evt (if dget siem ''ingest_id'' \<noteq> PNone then dget siem ''ingest_id'' else key)
             matched act d b of
        (Inl f, d, b) \<Rightarrow> (Inl f, d, b)
      | (Inr k, d, b) \<Rightarrow>
          (Inr (n, if act = Llm then k else 0, if act = Llm then 0 else k), d, b))))))"

definition detect_one ::
    "bool \<Rightarrow> bool \<Rightarrow> (string \<Rightarrow> config_file) \<Rightarrow> host \<Rightarrow> 'b bus \<Rightarrow> detector \<Rightarrow> 'b \<Rightarrow> event \<Rightarrow>
     (failure + nat \<times> nat \<times> nat) \<times> detector \<times> 'b" where
  "detect_one scan_all pipeline files ho produce d b evt =
     (case process scan_all pipeline files ho d evt of
        (Inl e, d) \<Rightarrow> (Inl (Raised e), d, b)
      | (Inr (evt, matched, act), d) \<Rightarrow> emit ho produce evt matched act d b)"

text \<open>\<open>run\<close>: the batch path over consumed messages; an exception ends it.\<close>

fun run_batch ::
    "bool \<Rightarrow> bool \<Rightarrow> (string \<Rightarrow> config_file) \<Rightarrow> host \<Rightarrow> 'b bus \<Rightarrow> detector \<Rightarrow> 'b \<Rightarrow> event list \<Rightarrow> stats \<Rightarrow>
     (failure + stats) \<times> detector \<times> 'b" where
  "run_batch scan_all pipeline files ho produce d b [] st = (Inr st, d, b)"
| "run_batch scan_all pipeline files ho produce d b (evt # evts) st =
     (case detect_one scan_all pipeline files ho produce d b evt of
        (Inl f, d, b) \<Rightarrow> (Inl f, d, b)
      | (Inr (alerts, ai, classified), d, b) \<Rightarrow>
          run_batch scan_all pipeline files ho produce d b evts
            (st\<lparr>n_scored := n_scored st + 1, n_alerts := n_alerts st + alerts, n_ai := n_ai st + ai,
                n_classifier := n_classifier st + classified\<rparr>))"

subsection \<open>Rule health\<close>

text \<open>The tenants with a file, by the stem of its name, opt rules in; a rule they disable stays off.\<close>

fun tenant_opted :: "(string \<Rightarrow> config_file) \<Rightarrow> host \<Rightarrow> string list \<Rightarrow> cache \<Rightarrow> string set \<times> cache" where
  "tenant_opted files ho [] cache = ({}, cache)"
| "tenant_opted files ho (stem # stems) cache =
     (if \<not> valid_tenant_id (PStr stem) then tenant_opted files ho stems cache
      else let (enabled, cache) = load_enabled_rules files ho cache (PStr stem);
               (disabled, cache) = load_disabled_rules files ho cache (PStr stem);
               (opted, cache) = tenant_opted files ho stems cache
           in ((enabled - disabled) \<union> opted, cache))"

datatype gauge = Last_fired pyval int | Never_fired pyval

definition rule_health_metrics ::
    "(string \<Rightarrow> config_file) \<Rightarrow> host \<Rightarrow> string list \<Rightarrow> detector \<Rightarrow> gauge list \<times> detector" where
  "rule_health_metrics files ho stems d =
     (let fired = concat (map (\<lambda>r. case od_get (d_fired d) (r_id r) of
                                     None \<Rightarrow> [] | Some t \<Rightarrow> [Last_fired (r_id r) t]) (d_rules d));
          (opted, cache) = tenant_opted files ho stems (d_cache d);
          never = concat (map (\<lambda>r. if od_get (d_fired d) (r_id r) = None \<and>
                                     \<not> (r_opt_in_required r \<and> r_id r \<notin> PStr ` d_opt_in d \<and> r_id r \<notin> PStr ` opted)
                                  then [Never_fired (r_id r)] else []) (d_rules d))
      in (fired @ never, d\<lparr>d_cache := cache\<rparr>))"

subsection \<open>Hot reload\<close>

text \<open>
  The fingerprint of the watched directories: a directory is the list of its files with their
  modification times, None for a file that cannot be read, and a missing directory is None itself.
\<close>

type_synonym directory = "(string \<times> int option) list option"

definition rules_fingerprint :: "directory list \<Rightarrow> (string \<times> int) list" where
  "rules_fingerprint dirs =
     sort (concat (map (\<lambda>d. case d of None \<Rightarrow> []
        | Some fs \<Rightarrow> concat (map (\<lambda>(name, t). case t of None \<Rightarrow> [] | Some t \<Rightarrow> [(name, t)]) fs)) dirs))"

definition rules_max_mtime :: "directory list \<Rightarrow> int" where
  "rules_max_mtime dirs = fold (\<lambda>(_, t) latest. max latest t) (rules_fingerprint dirs) 0"

text \<open>One round of the watcher: nothing on an unchanged fingerprint, else one reload and an empty cache.\<close>

definition watch_round ::
    "(string \<times> int) list \<Rightarrow> (rule list \<times> rule list list) option \<Rightarrow> (string \<times> int) list \<times> detector \<Rightarrow>
     (string \<times> int) list \<times> detector" where
  "watch_round fp on_disk state =
     (case state of (last_fp, d) \<Rightarrow>
        if fp = last_fp then state
        else (fp, snd (reload on_disk (d\<lparr>d_cache := invalidate_cache (d_cache d)\<rparr>))))"

end
