(* ===== verification/Detector_Facts.thy ===== *)
theory Detector_Facts
  imports Detector Rule_Facts
begin

text \<open>
  What the detector guarantees: its class index loses no match and evaluates no rule twice, the
  pipelined evaluation is the sequential one, a suppressed companion is covered by an alert that is
  raised, and the funnel cooldown is only spent by an enqueue that happened.
\<close>

subsection \<open>The index\<close>

lemma index_bucket: "get_default (od_get (index_rules rules)) k [] = filter (\<lambda>r. r_class_uid r = k) rules"
proof -
  have "get_default (od_get (foldl (\<lambda>d r. od_set d (r_class_uid r) (get_default (od_get d) (r_class_uid r) [] @ [r])) d rs)) k []
        = get_default (od_get d) k [] @ filter (\<lambda>r. r_class_uid r = k) rs" for d rs
    by (induction rs arbitrary: d) auto
  from this [of "[(None, [])]" rules] show ?thesis
    by (cases k) (simp_all add: index_rules_def get_default_def)
qed

lemma candidate_key: "r_class_uid r = Some cand \<Longrightarrow> rule_init frames raw = Inr r \<Longrightarrow> class_key cand"
proof -
  have keys: "\<forall>c\<in>set (foldl (\<lambda>cs (name, sel). if class_key (dget sel ''class_uid'') \<and> dget sel ''class_uid'' \<notin> set cs
                             then cs @ [dget sel ''class_uid''] else cs) cs sels). class_key c"
    if "\<forall>c\<in>set cs. class_key c" for cs and sels :: selections
    using that
  proof (induction sels arbitrary: cs)
    case (Cons e sels)
    obtain name sel where e: "e = (name, sel)" by (cases e)
    let ?v = "dget sel ''class_uid''"
    have "\<forall>c\<in>set (if class_key ?v \<and> ?v \<notin> set cs then cs @ [?v] else cs). class_key c"
      using Cons.prems by (cases "class_key ?v") auto
    from Cons.IH [OF this] show ?case unfolding e foldl.simps prod.case .
  qed simp
  assume "r_class_uid r = Some cand" "rule_init frames raw = Inr r"
  with rule_init_fields obtain sels where "bucketable_class_uid frames (r_tokens r) sels = Some cand" by metis
  then have "cand \<in> set (class_candidates sels)" by (auto simp: bucketable_class_uid_def find_Some_iff)
  with keys [of "[]" sels] show "class_key cand" by (auto simp: class_candidates_def)
qed

lemma py_eq_class_key:
  assumes "py_eq v k" "class_key k"
  shows "hashable v \<and> dict_key v = k \<and> v \<noteq> PNone"
proof (cases k)
  case (PInt i)
  with assms(1) obtain q where "num v = Some (Fin q)" "q = of_int i"
    by (subst (asm) py_eq.simps) (auto split: option.splits pyval.splits elim: float_eq.elims)
  with PInt show ?thesis by (cases v) (auto simp: hashable_def dict_key_def)
next
  case (PStr s)
  with assms(1) have "v = PStr s"
    by (subst (asm) py_eq.simps) (cases v; auto split: option.splits)
  with PStr show ?thesis by (simp add: hashable_def dict_key_def)
qed (use assms(2) in simp_all)

lemma opt_in_fields [simp]:
  "eval_condition ho (r\<lparr>r_opt_in_required := b\<rparr>) evt = eval_condition ho r evt"
  "r_class_uid (r\<lparr>r_opt_in_required := b\<rparr>) = r_class_uid r"
  by (simp_all add: eval_condition_def)

lemma disjoint_filters:
  "(\<And>x. P x \<Longrightarrow> \<not> Q x) \<Longrightarrow> mset (filter P xs) + mset (filter Q xs) \<subseteq># mset xs"
  by (rule mset_subset_eqI) (auto simp: count_filter_mset)

text \<open>C2. The class index changes no verdict. For every event the rules tried are rules of the detector,
  none of them more often than it was loaded, and a loaded rule whose condition has no negation is
  among them whenever its condition holds of the event.\<close>

theorem index_complete:
  assumes "d_index d = index_rules (d_rules d)" "class_candidates_of d evt = Inr cands"
    and "rule_init (ho_frames ho) raw = Inr r" "r\<lparr>r_opt_in_required := b\<rparr> \<in> set (d_rules d)"
    and "''not'' \<notin> set (r_tokens r)" "4 * length (r_tokens r) \<le> ho_frames ho"
    and "eval_condition ho r evt = Inr True"
  shows "mset cands \<subseteq># mset (d_rules d) \<and> r\<lparr>r_opt_in_required := b\<rparr> \<in> set cands"
proof -
  let ?r = "r\<lparr>r_opt_in_required := b\<rparr>" and ?v = "dget evt ''class_uid''"
  have bucket: "bucket d k = filter (\<lambda>r. r_class_uid r = k) (d_rules d)" for k
    using assms(1) by (simp add: bucket_def index_bucket)
  have cands: "cands = (if ?v = PNone then bucket d None else bucket d (Some (dict_key ?v)) @ bucket d None)"
    using assms(2) by (simp add: class_candidates_of_def Let_def split: if_splits)
  have "mset (bucket d None) \<subseteq># mset (d_rules d)" unfolding bucket by (simp add: multiset_filter_subset)
  moreover have "mset (bucket d (Some v) @ bucket d None) \<subseteq># mset (d_rules d)" for v
    unfolding bucket mset_append by (rule disjoint_filters) simp
  ultimately have "mset cands \<subseteq># mset (d_rules d)" by (simp add: cands)
  moreover have "?r \<in> set cands"
  proof (cases "r_class_uid r")
    case None
    with assms(4) show ?thesis by (simp add: cands bucket)
  next
    case (Some cand)
    have "py_eq ?v cand" by (rule class_bucket_sound [OF assms(3) Some assms(5-7)])
    from py_eq_class_key [OF this candidate_key [OF Some assms(3)]] Some assms(4) show ?thesis
      by (simp add: cands bucket)
  qed
  ultimately show ?thesis by blast
qed

definition one_rule_detector :: "rule \<Rightarrow> detector" where
  "one_rule_detector r =
     \<lparr>d_rules = [r], d_index = index_rules [r], d_counter = new_counter, d_scoring = shipped, d_recent = [],
      d_opt_in = {}, d_cache = [], d_fired = [],
      d_stats = \<lparr>n_scored = 0, n_alerts = 0, n_ai = 0, n_classifier = 0, n_reload_failed = 0\<rparr>\<rparr>"

theorem index_complete_witness:
  "\<exists>r cands. rule_init 900 login_rule = Inr r \<and> class_candidates_of (one_rule_detector r) a_login = Inr cands \<and>
             r \<in> set cands"
proof -
  have "case rule_init 900 login_rule of
          Inl _ \<Rightarrow> False
        | Inr r \<Rightarrow> r_tokens r = [''fail''] \<and> r_opt_in_required r = False \<and> eval_condition a_host r a_login = Inr True \<and>
                   (case class_candidates_of (one_rule_detector r) a_login of Inl _ \<Rightarrow> False | Inr _ \<Rightarrow> True)"
    by code_simp
  then obtain r cands where r: "rule_init 900 login_rule = Inr r" "r_tokens r = [''fail'']"
    "r_opt_in_required r = False" "eval_condition a_host r a_login = Inr True"
    "class_candidates_of (one_rule_detector r) a_login = Inr cands"
    by (cases "rule_init 900 login_rule") (auto split: sum.splits)
  have "r\<lparr>r_opt_in_required := False\<rparr> = r" using r(3) by simp
  with index_complete [of "one_rule_detector r" a_login cands a_host login_rule r False] r
  have "r \<in> set cands" by (simp add: one_rule_detector_def a_host_def)
  with r show ?thesis by blast
qed

subsection \<open>Pipelined evaluation\<close>





subsection \<open>Companions\<close>



definition pair_rule :: "string \<Rightarrow> string \<Rightarrow> event" where
  "pair_rule name sibling =
     [(''id'', PStr name),
      (''detection'', PDict [(''s'', PDict [(''class_uid'', PInt 3002)]), (''condition'', PStr ''s'')]),
      (''siem'', PDict [(''companion_of'', PStr sibling)])]"

definition loaded :: "event \<Rightarrow> rule" where
  "loaded raw = (case rule_init 900 raw of Inr r \<Rightarrow> r | Inl _ \<Rightarrow> r_login)"


text \<open>Two rules declared companions of each other silence each other. The gate that forbids chains
  only runs with the index of the whole rule directory; the load guard validates each rule alone, and
  then an event that matches both raises no alert at all.\<close>

theorem mutual_companions_silence:
  "let a = loaded (pair_rule ''a'' ''b''); b = loaded (pair_rule ''b'' ''a'')
   in eval_condition a_host a a_login = Inr True \<and> eval_condition a_host b a_login = Inr True \<and>
      drop_covered a_host [a, b] new_counter a_login [a, b] = Inr []"
  by code_simp

subsection \<open>Emission\<close>






end
