(* ===== verification/Router.thy ===== *)
theory Router
  imports Rule_Load Identity
begin

text \<open>
  \<open>src/services/ws3-indexer/router.py\<close>: which index and which document id a bus document is stored
  under. A document is a dictionary; the branches are taken on the keys it has. The clock is an
  argument (milliseconds), read only when the document has no time of its own; \<open>datetime\<close> is the
  proleptic Gregorian calendar of the standard library, with its bounds (years 1 to 9999).
\<close>

subsection \<open>The day of a time stamp\<close>

text \<open>\<open>date.toordinal\<close> counts from 1 January of year 1; \<open>fromordinal\<close> inverts it.\<close>

definition days_before_year :: "int \<Rightarrow> int" where
  "days_before_year y = (y - 1) * 365 + (y - 1) div 4 - (y - 1) div 100 + (y - 1) div 400"

definition leap :: "int \<Rightarrow> bool" where
  "leap y \<longleftrightarrow> y mod 4 = 0 \<and> (y mod 100 \<noteq> 0 \<or> y mod 400 = 0)"

definition month_lengths :: "int \<Rightarrow> int list" where
  "month_lengths y = [31, if leap y then 29 else 28, 31, 30, 31, 30, 31, 31, 30, 31, 30, 31]"

text \<open>The month and the day in it of a day of the year, both from 0.\<close>

fun month_day :: "int list \<Rightarrow> int \<Rightarrow> nat \<times> int" where
  "month_day [] n = (0, n)"
| "month_day (l # ls) n = (if n < l then (0, n) else let (m, d) = month_day ls (n - l) in (Suc m, d))"

definition year_of :: "int \<Rightarrow> int" where
  "year_of n =
     (let a = n div 146097; r = n mod 146097;
          b = r div 36524; r = r mod 36524;
          c = r div 1461; r = r mod 1461;
          d = r div 365
      in if d = 4 \<or> b = 4 then 400 * a + 100 * b + 4 * c + d else 400 * a + 100 * b + 4 * c + d + 1)"

text \<open>Year, month and day of the day \<open>n\<close> after 1 January of year 1.\<close>

definition civil :: "int \<Rightarrow> int \<times> nat \<times> nat" where
  "civil n =
     (let y = year_of n; (m, d) = month_day (month_lengths y) (n - days_before_year y)
      in (y, Suc m, Suc (nat d)))"

definition pad2 :: "nat \<Rightarrow> string" where
  "pad2 n = [char_of (48 + n div 10 mod 10), char_of (48 + n mod 10)]"

text \<open>\<open>strftime("%Y.%m.%d")\<close>; the C library does not pad the year.\<close>

definition day_string :: "int \<Rightarrow> string" where
  "day_string n = (let (y, m, d) = civil n in int_str y @ ''.'' @ pad2 m @ ''.'' @ pad2 d)"

text \<open>\<open>round\<close> to the nearest integer, halves to the even one.\<close>

definition round_even :: "rat \<Rightarrow> int" where
  "round_even q =
     (let f = \<lfloor>q\<rfloor>; r = q - of_int f
      in if r < 1 / 2 \<or> r = 1 / 2 \<and> even f then f else f + 1)"

definition epoch_day :: int where
  "epoch_day = 719162"

definition last_day :: int where
  "last_day = 3652058"

text \<open>\<open>datetime.fromtimestamp(ms / 1000, tz=utc)\<close>, as the day it falls on.\<close>

definition utc_day :: "rat \<Rightarrow> int py" where
  "utc_day ms =
     (let n = round_even (ms * 1000) div 86400000000 + epoch_day
      in if n < 0 \<or> last_day < n then Inl ValueError else Inr n)"

definition date_suffix :: "int \<Rightarrow> pyval \<Rightarrow> string py" where
  "date_suffix now v =
     (if truthy v
      then (case num v of
              Some (Fin q) \<Rightarrow> py_bind (utc_day q) (\<lambda>n. Inr (day_string n))
            | _ \<Rightarrow> Inl ValueError)
      else Inr (day_string (now div 86400000 + epoch_day)))"

subsection \<open>The route\<close>

definition sector_to_family :: "(string, string) odict" where
  "sector_to_family = [(''bank'', ''bank''), (''datacenter'', ''dc''), (''common'', ''common'')]"

text \<open>\<open>_validated_tenant(v or DEFAULT_TENANT)\<close>: a value that is no string is never a valid id.\<close>

definition validated_tenant :: "pyval \<Rightarrow> string py" where
  "validated_tenant v =
     (case py_or v (PStr default_tenant_name) of
        PStr t \<Rightarrow> if t \<noteq> default_tenant_name \<and> \<not> valid_tenant_id (PStr t) then Inl ValueError else Inr t
      | _ \<Rightarrow> Inl ValueError)"

definition has_key :: "event \<Rightarrow> string \<Rightarrow> bool" where
  "has_key d k \<longleftrightarrow> od_get d k \<noteq> None"

definition tenant_base :: "string \<Rightarrow> string \<Rightarrow> string" where
  "tenant_base base tenant = (if tenant = default_tenant_name then base else base @ ''-'' @ tenant)"

definition family_of :: "pyval \<Rightarrow> string option" where
  "family_of sector = (case sector of PStr s \<Rightarrow> od_get sector_to_family s | _ \<Rightarrow> None)"

definition route_event :: "host \<Rightarrow> int \<Rightarrow> event \<Rightarrow> (string \<times> string) py" where
  "route_event ho now doc =
     (let siem = py_or (dget doc ''siem'') (PDict [])
      in py_bind (py_get siem ''sector'') (\<lambda>sector.
         case family_of sector of
           None \<Rightarrow> Inl ValueError
         | Some family \<Rightarrow>
             py_bind (py_get siem ''ingest_id'') (\<lambda>doc_id.
             if \<not> truthy doc_id then Inl ValueError
             else py_bind (py_get siem ''tenant'') (\<lambda>tid.
                  py_bind (validated_tenant tid) (\<lambda>tenant.
                  py_bind (date_suffix now (dget doc ''time'')) (\<lambda>day.
                  Inr (tenant_base (''events-'' @ family) tenant @ ''-'' @ day, py_str ho doc_id)))))))"

definition route :: "host \<Rightarrow> int \<Rightarrow> event \<Rightarrow> (string \<times> string) py" where
  "route ho now doc =
     (if has_key doc ''nodes'' \<and> has_key doc ''incident_id'' then
        py_bind (validated_tenant (dget doc ''tenant_id'')) (\<lambda>tenant.
        Inr (tenant_base ''incident-graphs'' tenant, py_str ho (dget doc ''incident_id'')))
      else if has_key doc ''entity_id'' \<and> has_key doc ''entity_type'' then
        py_bind (validated_tenant (dget doc ''tenant_id'')) (\<lambda>tenant.
        Inr (tenant_base ''entities'' tenant, py_str ho (dget doc ''entity_id'')))
      else if has_key doc ''incident_id'' then
        py_bind (validated_tenant (dget doc ''tenant_id'')) (\<lambda>tenant.
        py_bind (date_suffix now (dget doc ''first_seen'')) (\<lambda>day.
        Inr (tenant_base ''incidents'' tenant @ ''-'' @ day, py_str ho (dget doc ''incident_id''))))
      else if has_key doc ''alert_id'' then
        py_bind (validated_tenant (dget doc ''tenant_id'')) (\<lambda>tenant.
        py_bind (date_suffix now (dget doc ''time'')) (\<lambda>day.
        Inr (tenant_base ''alerts'' tenant @ ''-'' @ day, py_str ho (dget doc ''alert_id''))))
      else route_event ho now doc)"

definition starts_with :: "string \<Rightarrow> string \<Rightarrow> bool" where
  "starts_with p s \<longleftrightarrow> take (length p) s = p"

definition template_for :: "string \<Rightarrow> string" where
  "template_for i =
     (if starts_with ''events-bank-'' i then ''events-bank''
      else if starts_with ''events-dc-'' i then ''events-dc''
      else if starts_with ''events-common-'' i then ''events-common''
      else if starts_with ''alerts-'' i then ''alerts''
      else if starts_with ''incidents-'' i then ''incidents''
      else if starts_with ''incident-graphs'' i then ''incident-graphs''
      else if starts_with ''entities'' i then ''entities''
      else ''unknown'')"

subsection \<open>The calendar\<close>

lemma month_day_sum:
  "month_day ls n = (m, d) \<Longrightarrow> sum_list (take m ls) + d = n \<and> (0 \<le> n \<longrightarrow> 0 \<le> d) \<and> m \<le> length ls"
  by (induction ls n arbitrary: m d rule: month_day.induct) (auto split: if_splits prod.splits)

lemma month_day_inside:
  "month_day ls n = (m, d) \<Longrightarrow> 0 \<le> n \<Longrightarrow> n < sum_list ls \<Longrightarrow> m < length ls \<and> d < ls ! m"
  by (induction ls n arbitrary: m d rule: month_day.induct) (auto split: if_splits prod.splits)

lemma year_parts:
  fixes a b c d :: int
  assumes "0 \<le> b" "b < 4" "0 \<le> c" "c < 25" "0 \<le> d" "d < 4"
  shows "days_before_year (400 * a + 100 * b + 4 * c + d + 1) = 146097 * a + 36524 * b + 1461 * c + 365 * d"
    and "leap (400 * a + 100 * b + 4 * c + d + 1) \<longleftrightarrow> d = 3 \<and> (c < 24 \<or> b = 3)"
proof -
  let ?y = "400 * a + 100 * b + 4 * c + d"
  have "?y div 4 = 100 * a + 25 * b + c" using assms by (intro int_div_pos_eq [where r = d]) auto
  moreover have "?y div 100 = 4 * a + b" using assms by (intro int_div_pos_eq [where r = "4 * c + d"]) auto
  moreover have "?y div 400 = a" using assms by (intro int_div_pos_eq [where r = "100 * b + 4 * c + d"]) auto
  ultimately show "days_before_year (?y + 1) = 146097 * a + 36524 * b + 1461 * c + 365 * d"
    by (simp add: days_before_year_def)
  have 4: "(?y + 1) mod 4 = 0 \<longleftrightarrow> d = 3"
  proof (cases "d = 3")
    case True
    then have "?y + 1 = 4 * (100 * a + 25 * b + c + 1)" by simp
    with True show ?thesis by simp
  next
    case False
    with assms have "(?y + 1) mod 4 = d + 1"
      by (intro int_mod_pos_eq [where q = "100 * a + 25 * b + c"]) auto
    with False assms show ?thesis by auto
  qed
  have 100: "(?y + 1) mod 100 = 0 \<longleftrightarrow> d = 3 \<and> c = 24"
  proof (cases "4 * c + d = 99")
    case True
    then have "?y + 1 = 100 * (4 * a + b + 1)" by simp
    then have "(?y + 1) mod 100 = 0" by (simp only: mod_mult_self1_is_0)
    moreover from True assms have "c = 24" "d = 3" by linarith+
    ultimately show ?thesis by simp
  next
    case False
    with assms have "(?y + 1) mod 100 = 4 * c + d + 1"
      by (intro int_mod_pos_eq [where q = "4 * a + b"]) auto
    with False assms show ?thesis by auto
  qed
  have 400: "(?y + 1) mod 400 = 0 \<longleftrightarrow> d = 3 \<and> c = 24 \<and> b = 3"
  proof (cases "100 * b + 4 * c + d = 399")
    case True
    then have "?y + 1 = 400 * (a + 1)" by simp
    then have "(?y + 1) mod 400 = 0" by (simp only: mod_mult_self1_is_0)
    moreover from True assms have "b = 3" "c = 24" "d = 3" by linarith+
    ultimately show ?thesis by simp
  next
    case False
    with assms have "(?y + 1) mod 400 = 100 * b + 4 * c + d + 1"
      by (intro int_mod_pos_eq [where q = a]) auto
    with False assms show ?thesis by auto
  qed
  show "leap (?y + 1) \<longleftrightarrow> d = 3 \<and> (c < 24 \<or> b = 3)"
    unfolding leap_def 4 100 400 using assms by auto
qed

lemma year_of_spec:
  assumes "0 \<le> n"
  shows "days_before_year (year_of n) \<le> n"
    and "n < days_before_year (year_of n) + (if leap (year_of n) then 366 else 365)"
proof -
  define a where "a = n div 146097"
  define r1 where "r1 = n mod 146097"
  define b where "b = r1 div 36524"
  define r2 where "r2 = r1 mod 36524"
  define c where "c = r2 div 1461"
  define r3 where "r3 = r2 mod 1461"
  define d where "d = r3 div 365"
  define e where "e = r3 mod 365"
  have split: "n = 146097 * a + r1" "r1 = 36524 * b + r2" "r2 = 1461 * c + r3" "r3 = 365 * d + e"
    by (simp_all add: a_def r1_def b_def r2_def c_def r3_def d_def e_def)
  have lt: "0 \<le> r1" "r1 < 146097" "0 \<le> r2" "r2 < 36524" "0 \<le> r3" "r3 < 1461" "0 \<le> e" "e < 365"
    by (simp_all add: r1_def r2_def r3_def e_def)
  have nn: "0 \<le> b" "0 \<le> c" "0 \<le> d"
    using lt by (simp_all add: b_def c_def d_def pos_imp_zdiv_nonneg_iff)
  have up: "b \<le> 4" "c < 25" "d \<le> 4" using split(2-4) lt by linarith+
  note facts = split lt nn up
  have y: "year_of n = (if d = 4 \<or> b = 4 then 400 * a + 100 * b + 4 * c + d else 400 * a + 100 * b + 4 * c + d + 1)"
    by (simp add: year_of_def Let_def a_def b_def c_def d_def r1_def r2_def r3_def)
  show "days_before_year (year_of n) \<le> n"
    and "n < days_before_year (year_of n) + (if leap (year_of n) then 366 else 365)"
  proof -
    consider "b = 4" | "b < 4" "d = 4" | "b < 4" "d < 4" using up by linarith
    then have "days_before_year (year_of n) \<le> n \<and>
      n < days_before_year (year_of n) + (if leap (year_of n) then 366 else 365)"
    proof cases
      case 1
      with facts have z: "r2 = 0" "c = 0" "d = 0" "e = 0" by linarith+
      have "year_of n = 400 * a + 100 * 3 + 4 * 24 + 3 + 1" using y 1 z by simp
      with year_parts [of 3 24 3 a] 1 z split show ?thesis by simp
    next
      case 2
      with facts have z: "e = 0" "c < 24" by linarith+
      have "year_of n = 400 * a + 100 * b + 4 * c + 3 + 1" using y 2 by simp
      with year_parts [of b c 3 a] 2 z facts show ?thesis by simp
    next
      case 3
      then have "year_of n = 400 * a + 100 * b + 4 * c + d + 1" using y by simp
      with year_parts [of b c d a] 3 facts show ?thesis by simp
    qed
    then show "days_before_year (year_of n) \<le> n"
      and "n < days_before_year (year_of n) + (if leap (year_of n) then 366 else 365)" by blast+
  qed
qed

text \<open>\<open>toordinal\<close>, from 0, of a date.\<close>

definition ordinal :: "int \<times> nat \<times> nat \<Rightarrow> int" where
  "ordinal ymd = (case ymd of (y, m, d) \<Rightarrow>
     days_before_year y + sum_list (take (m - 1) (month_lengths y)) + int d - 1)"

lemma civil_spec:
  assumes "0 \<le> n" "civil n = (y, m, d)"
  shows "ordinal (y, m, d) = n" and "1 \<le> m" "m \<le> 12" "1 \<le> d" "int d \<le> month_lengths y ! (m - 1)"
proof -
  obtain i j where md: "month_day (month_lengths (year_of n)) (n - days_before_year (year_of n)) = (i, j)"
    by fastforce
  with assms(2) have eqs: "y = year_of n" "m = Suc i" "d = Suc (nat j)" by (simp_all add: civil_def Let_def)
  have nn: "0 \<le> n - days_before_year y" using year_of_spec(1) [OF assms(1)] eqs by simp
  have "n - days_before_year y < sum_list (month_lengths y)"
    using year_of_spec(2) [OF assms(1)] eqs by (simp add: month_lengths_def split: if_splits)
  with md nn eqs have "i < length (month_lengths y)" "j < month_lengths y ! i"
    using month_day_inside by metis+
  moreover have j: "sum_list (take i (month_lengths y)) + j = n - days_before_year y" "0 \<le> j"
    using month_day_sum [OF md] nn eqs by auto
  ultimately show "ordinal (y, m, d) = n" "1 \<le> m" "m \<le> 12" "1 \<le> d" "int d \<le> month_lengths y ! (m - 1)"
    using eqs by (simp_all add: ordinal_def month_lengths_def)
qed

lemma month_length_le: "i < 12 \<Longrightarrow> month_lengths y ! i \<le> 31"
proof -
  have "list_all (\<lambda>l. l \<le> 31) (month_lengths y)" by (simp add: month_lengths_def)
  moreover assume "i < 12"
  then have "i < length (month_lengths y)" by (simp add: month_lengths_def)
  ultimately show ?thesis by (simp add: list_all_length)
qed

lemma ord_dig: "ord (char_of (48 + i mod 10)) = 48 + i mod 10"
  by (rule ord_digit) simp

lemma pad2_inject:
  assumes "m < 100" "n < 100"
  shows "pad2 m = pad2 n \<longleftrightarrow> m = n"
proof
  assume "pad2 m = pad2 n"
  then have "map ord (pad2 m) = map ord (pad2 n)" by (rule arg_cong)
  then have "m mod 10 = n mod 10" "m div 10 mod 10 = n div 10 mod 10"
    unfolding pad2_def list.map ord_dig by simp_all
  moreover have "m = 10 * (m div 10 mod 10) + m mod 10" "n = 10 * (n div 10 mod 10) + n mod 10"
    using assms by (simp_all add: mod_less less_mult_imp_div_less)
  ultimately show "m = n" by metis
qed simp

lemma pad2_no_hyphen: "CHR ''-'' \<notin> set (pad2 n)"
proof -
  have "ord (CHR ''-'') = 45" by code_simp
  moreover have "ord c \<ge> 48" if "c \<in> set (pad2 n)" for c
  proof -
    from that have "ord c \<in> ord ` set (pad2 n)" by blast
    then have "ord c \<in> set (map ord (pad2 n))" by simp
    then show ?thesis unfolding pad2_def list.map ord_dig by auto
  qed
  ultimately show ?thesis by fastforce
qed

lemma printed_chars:
  "c \<in> set (int_str i) \<Longrightarrow> is_digit c \<or> c = CHR ''-''"
  "0 \<le> i \<Longrightarrow> c \<in> set (int_str i) \<Longrightarrow> is_digit c"
  using nat_digits_spec(2) by (auto simp: int_str_def split: if_splits)

lemma not_digit: "\<not> is_digit (CHR ''.'')" "\<not> is_digit (CHR ''-'')"
  by code_simp+

lemma printed_inject:
  assumes "0 \<le> i" "0 \<le> j"
  shows "int_str i = int_str j \<longleftrightarrow> i = j"
  using assms by (auto simp: int_str_def nat_eq_iff2)

lemma takeWhile_mark: "c \<notin> set s \<Longrightarrow> takeWhile (\<lambda>x. x \<noteq> c) (s @ c # t) = s"
  by (induction s) auto

lemma cut_at_mark:
  assumes "c \<notin> set s" "c \<notin> set s'" "s @ c # t = s' @ c # t'"
  shows "s = s' \<and> t = t'"
proof -
  have "s = s'" using takeWhile_mark assms by metis
  with assms(3) show ?thesis by simp
qed

lemma split_at_last_mark:
  assumes "c \<notin> set t" "c \<notin> set t'" "s @ c # t = s' @ c # t'"
  shows "s = s' \<and> t = t'"
proof -
  have "rev t @ c # rev s = rev t' @ c # rev s'"
    using arg_cong [OF assms(3), of rev] by simp
  with cut_at_mark [of c "rev t" "rev t'" "rev s" "rev s'"] assms(1,2) show ?thesis by simp
qed

lemma year_pos:
  assumes "0 \<le> n"
  shows "0 < year_of n"
proof -
  have pos: "0 < (if d = 4 \<or> b = 4 then 400 * a + 100 * b + 4 * c + d else 400 * a + 100 * b + 4 * c + d + 1)"
    if "0 \<le> a" "0 \<le> b" "0 \<le> c" "0 \<le> d" for a b c d :: int
    using that by auto
  show ?thesis unfolding year_of_def Let_def
    by (rule pos) (use assms in \<open>simp_all add: pos_imp_zdiv_nonneg_iff\<close>)
qed

text \<open>The printed day determines the day, and holds no hyphen.\<close>

lemma day_string_inject:
  assumes "0 \<le> n" "0 \<le> n'"
  shows "day_string n = day_string n' \<longleftrightarrow> n = n'"
proof
  obtain y m d where c: "civil n = (y, m, d)" by (rule prod_cases3)
  obtain y' m' d' where c': "civil n' = (y', m', d')" by (rule prod_cases3)
  note spec = civil_spec [OF assms(1) c] civil_spec [OF assms(2) c']
  have y: "0 \<le> y" "0 \<le> y'"
    using year_pos assms c c' by (fastforce simp: civil_def Let_def split: prod.splits)+
  have len: "int d \<le> 31" "int d' \<le> 31"
    using spec month_length_le [of "m - 1" y] month_length_le [of "m' - 1" y']
    by (meson One_nat_def Suc_le_lessD diff_less dual_order.trans less_one nat_less_le order_less_le_trans zero_less_one le_trans diff_le_self less_imp_diff_less)+
  have bounds: "m < 100" "m' < 100" "d < 100" "d' < 100"
    using spec len by auto
  assume "day_string n = day_string n'"
  then have eq: "int_str y @ CHR ''.'' # (pad2 m @ CHR ''.'' # pad2 d) = int_str y' @ CHR ''.'' # (pad2 m' @ CHR ''.'' # pad2 d')"
    by (simp add: day_string_def c c')
  have "CHR ''.'' \<notin> set (int_str y)" "CHR ''.'' \<notin> set (int_str y')"
    using printed_chars(2) y not_digit by blast+
  from cut_at_mark [OF this eq]
  have "int_str y = int_str y'" "pad2 m @ CHR ''.'' # pad2 d = pad2 m' @ CHR ''.'' # pad2 d'" by blast+
  moreover from this(2) have "pad2 m = pad2 m'" "pad2 d = pad2 d'" by (simp_all add: pad2_def)
  ultimately have "y = y'" "m = m'" "d = d'" using printed_inject pad2_inject y bounds by blast+
  with spec show "n = n'" by metis
qed simp

lemma day_string_no_hyphen:
  assumes "0 \<le> n"
  shows "CHR ''-'' \<notin> set (day_string n)"
proof -
  obtain y m d where c: "civil n = (y, m, d)" by (rule prod_cases3)
  have "0 \<le> y" using year_pos assms c by (fastforce simp: civil_def Let_def split: prod.splits)
  then have "CHR ''-'' \<notin> set (int_str y)" using printed_chars(2) not_digit by blast
  then show ?thesis by (simp add: day_string_def c pad2_no_hyphen)
qed

subsection \<open>What an index name says\<close>

text \<open>The kind of a document, the tenant it belongs to and the day it is filed under.\<close>

datatype shape = Graph_doc | Entity_doc | Incident_doc | Alert_doc | Event_doc string

definition doc_shape :: "event \<Rightarrow> shape" where
  "doc_shape doc =
     (if has_key doc ''nodes'' \<and> has_key doc ''incident_id'' then Graph_doc
      else if has_key doc ''entity_id'' \<and> has_key doc ''entity_type'' then Entity_doc
      else if has_key doc ''incident_id'' then Incident_doc
      else if has_key doc ''alert_id'' then Alert_doc
      else Event_doc (case get_path doc ''siem.sector'' of
             PStr s \<Rightarrow> if s = ''datacenter'' then ''dc'' else s | _ \<Rightarrow> []))"

definition doc_tenant :: "event \<Rightarrow> string" where
  "doc_tenant doc =
     (case (case doc_shape doc of Event_doc _ \<Rightarrow> get_path doc ''siem.tenant'' | _ \<Rightarrow> dget doc ''tenant_id'') of
        PStr t \<Rightarrow> if t = [] then default_tenant_name else t
      | _ \<Rightarrow> default_tenant_name)"

definition stamped_day :: "int \<Rightarrow> pyval \<Rightarrow> int" where
  "stamped_day now v =
     (if truthy v then (case num v of Some (Fin q) \<Rightarrow> round_even (q * 1000) div 86400000000 | _ \<Rightarrow> 0)
      else now div 86400000) + epoch_day"

definition doc_day :: "int \<Rightarrow> event \<Rightarrow> int option" where
  "doc_day now doc =
     (case doc_shape doc of
        Graph_doc \<Rightarrow> None
      | Entity_doc \<Rightarrow> None
      | Incident_doc \<Rightarrow> Some (stamped_day now (dget doc ''first_seen''))
      | _ \<Rightarrow> Some (stamped_day now (dget doc ''time'')))"

fun shape_base :: "shape \<Rightarrow> string" where
  "shape_base Graph_doc = ''incident-graphs''"
| "shape_base Entity_doc = ''entities''"
| "shape_base Incident_doc = ''incidents''"
| "shape_base Alert_doc = ''alerts''"
| "shape_base (Event_doc f) = ''events-'' @ f"

definition index_name :: "shape \<Rightarrow> string \<Rightarrow> int option \<Rightarrow> string" where
  "index_name s t n =
     tenant_base (shape_base s) t @ (case n of None \<Rightarrow> [] | Some d \<Rightarrow> ''-'' @ day_string d)"

lemma date_suffix_day:
  assumes "date_suffix now v = Inr d" "0 \<le> now"
  shows "d = day_string (stamped_day now v)" "0 \<le> stamped_day now v"
  using assms
  by (auto simp: date_suffix_def stamped_day_def utc_day_def Let_def epoch_day_def py_bind_def
           split: if_splits option.splits pyfloat.splits sum.splits)

lemma validated_tenant_Inr:
  "validated_tenant v = Inr t \<Longrightarrow>
     t = (case v of PStr s \<Rightarrow> if s = [] then default_tenant_name else s | _ \<Rightarrow> default_tenant_name) \<and>
     (t = default_tenant_name \<or> valid_tenant_id (PStr t))"
  by (auto simp: validated_tenant_def py_or_def split: pyval.splits if_splits)

lemma path_two:
  "get_path_parts (PDict doc) [a, b] = (case od_get doc a of Some (PDict d) \<Rightarrow> dget d b | _ \<Rightarrow> PNone)"
proof (cases "od_get doc a")
  case (Some v)
  then show ?thesis by (cases v) (auto simp: dget_def get_default_def split: option.splits)
qed simp

lemma siem_paths:
  "get_path doc ''siem.sector'' = get_path_parts (PDict doc) [''siem'', ''sector'']"
  "get_path doc ''siem.tenant'' = get_path_parts (PDict doc) [''siem'', ''tenant'']"
  by (simp_all add: get_path_def)

lemma py_get_siem:
  assumes "py_get (py_or (dget doc ''siem'') (PDict [])) k = Inr v"
  shows "v = get_path_parts (PDict doc) [''siem'', k]"
proof (cases "od_get doc ''siem''")
  case None
  with assms show ?thesis by (simp add: dget_def py_or_def)
next
  case (Some w)
  with assms show ?thesis
    by (cases w) (auto simp: dget_def py_or_def path_two get_default_def split: if_splits option.splits)
qed

lemma family_cases:
  assumes "family_of v = Some f"
  shows "v = PStr (if f = ''dc'' then ''datacenter'' else f)" and "f \<in> {''bank'', ''dc'', ''common''}"
  using assms by (auto simp: family_of_def sector_to_family_def split: pyval.splits if_splits)

text \<open>A routed document: its index is the name of its kind, tenant and day.\<close>

definition kind_ok :: "shape \<Rightarrow> bool" where
  "kind_ok s = (case s of Event_doc f \<Rightarrow> f \<in> {''bank'', ''dc'', ''common''} | _ \<Rightarrow> True)"

lemma route_index:
  assumes "route ho now doc = Inr (i, x)" "0 \<le> now"
  shows "i = index_name (doc_shape doc) (doc_tenant doc) (doc_day now doc)"
    and "kind_ok (doc_shape doc)" and "\<forall>n. doc_day now doc = Some n \<longrightarrow> 0 \<le> n"
proof -
  let ?G = "has_key doc ''nodes'' \<and> has_key doc ''incident_id''"
  let ?E = "has_key doc ''entity_id'' \<and> has_key doc ''entity_type''"
  let ?I = "has_key doc ''incident_id''" and ?A = "has_key doc ''alert_id''"
  consider (g) ?G | (e) "\<not> ?G" ?E | (i) "\<not> ?G" "\<not> ?E" ?I | (a) "\<not> ?G" "\<not> ?E" "\<not> ?I" ?A
    | (v) "\<not> ?G" "\<not> ?E" "\<not> ?I" "\<not> ?A" by blast
  then have "i = index_name (doc_shape doc) (doc_tenant doc) (doc_day now doc) \<and> kind_ok (doc_shape doc)
    \<and> (\<forall>n. doc_day now doc = Some n \<longrightarrow> 0 \<le> n)"
  proof cases
    case g
    then have s: "doc_shape doc = Graph_doc" by (simp add: doc_shape_def)
    from assms(1) g obtain t where "validated_tenant (dget doc ''tenant_id'') = Inr t" "i = tenant_base ''incident-graphs'' t"
      by (auto simp: route_def py_bind_Inr)
    with validated_tenant_Inr [OF this(1)] s show ?thesis
      by (simp add: doc_tenant_def doc_day_def index_name_def kind_ok_def)
  next
    case e
    then have s: "doc_shape doc = Entity_doc" by (simp add: doc_shape_def)
    from assms(1) e obtain t where "validated_tenant (dget doc ''tenant_id'') = Inr t" "i = tenant_base ''entities'' t"
      by (auto simp: route_def py_bind_Inr)
    with validated_tenant_Inr [OF this(1)] s show ?thesis
      by (simp add: doc_tenant_def doc_day_def index_name_def kind_ok_def)
  next
    case i
    then have s: "doc_shape doc = Incident_doc" by (simp add: doc_shape_def)
    from assms(1) i obtain t d where "validated_tenant (dget doc ''tenant_id'') = Inr t"
      "date_suffix now (dget doc ''first_seen'') = Inr d" "i = tenant_base ''incidents'' t @ ''-'' @ d"
      by (auto simp: route_def py_bind_Inr)
    with validated_tenant_Inr [OF this(1)] date_suffix_day [OF this(2) assms(2)] s show ?thesis
      by (simp add: doc_tenant_def doc_day_def index_name_def kind_ok_def)
  next
    case a
    then have s: "doc_shape doc = Alert_doc" by (auto simp: doc_shape_def)
    from assms(1) a obtain t d where "validated_tenant (dget doc ''tenant_id'') = Inr t"
      "date_suffix now (dget doc ''time'') = Inr d" "i = tenant_base ''alerts'' t @ ''-'' @ d"
      by (auto simp: route_def py_bind_Inr)
    with validated_tenant_Inr [OF this(1)] date_suffix_day [OF this(2) assms(2)] s show ?thesis
      by (simp add: doc_tenant_def doc_day_def index_name_def kind_ok_def)
  next
    case v
    with assms(1) have "route_event ho now doc = Inr (i, x)" by (simp add: route_def)
    then obtain sec f tid t d where r: "py_get (py_or (dget doc ''siem'') (PDict [])) ''sector'' = Inr sec"
      "family_of sec = Some f" "py_get (py_or (dget doc ''siem'') (PDict [])) ''tenant'' = Inr tid"
      "validated_tenant tid = Inr t" "date_suffix now (dget doc ''time'') = Inr d"
      "i = tenant_base (''events-'' @ f) t @ ''-'' @ d"
      by (auto simp: route_event_def py_bind_Inr Let_def split: option.splits if_splits)
    have sec: "get_path doc ''siem.sector'' = PStr (if f = ''dc'' then ''datacenter'' else f)"
      using py_get_siem [OF r(1)] family_cases(1) [OF r(2)] by (simp add: siem_paths)
    with v family_cases(2) [OF r(2)] have s: "doc_shape doc = Event_doc f"
      by (auto simp: doc_shape_def)
    have "get_path doc ''siem.tenant'' = tid" using py_get_siem [OF r(3)] by (simp add: siem_paths)
    with validated_tenant_Inr [OF r(4)] have "doc_tenant doc = t" using s by (simp add: doc_tenant_def)
    with date_suffix_day [OF r(5) assms(2)] s r(6) family_cases(2) [OF r(2)] show ?thesis
      by (simp add: doc_day_def index_name_def kind_ok_def)
  qed
  then show "i = index_name (doc_shape doc) (doc_tenant doc) (doc_day now doc)"
    "kind_ok (doc_shape doc)" "\<forall>n. doc_day now doc = Some n \<longrightarrow> 0 \<le> n" by blast+
qed

lemma tenant_base_inject:
  "tenant_base b t = tenant_base b t' \<longleftrightarrow> t = t'"
  by (auto simp: tenant_base_def)

lemma dated: "doc_day now doc = None \<longleftrightarrow> doc_shape doc \<in> {Graph_doc, Entity_doc}"
  by (auto simp: doc_day_def split: shape.splits)

lemma starts_with_simps [simp]:
  "starts_with [] s" "starts_with (c # p) (d # s) \<longleftrightarrow> c = d \<and> starts_with p s" "\<not> starts_with (c # p) []"
  by (auto simp: starts_with_def)

lemma template_of_base:
  "template_for (''incident-graphs'' @ r) = ''incident-graphs''" "template_for (''entities'' @ r) = ''entities''"
  "template_for (''incidents'' @ ''-'' @ r) = ''incidents''" "template_for (''alerts'' @ ''-'' @ r) = ''alerts''"
  "template_for (''events-bank'' @ ''-'' @ r) = ''events-bank''" "template_for (''events-dc'' @ ''-'' @ r) = ''events-dc''"
  "template_for (''events-common'' @ ''-'' @ r) = ''events-common''"
  by (simp_all add: template_for_def)

lemma template_of_index:
  assumes "kind_ok s" "n = None \<longleftrightarrow> s \<in> {Graph_doc, Entity_doc}"
  shows "template_for (index_name s t n) = shape_base s"
proof (cases n)
  case None
  obtain r where "index_name s t n = shape_base s @ r"
    by (cases "t = default_tenant_name") (auto simp: index_name_def tenant_base_def)
  with assms None template_of_base(1,2) [of r] show ?thesis by auto
next
  case (Some d)
  obtain r where "index_name s t n = shape_base s @ ''-'' @ r"
    using Some by (cases "t = default_tenant_name") (auto simp: index_name_def tenant_base_def)
  with assms Some template_of_base(3-) [of r] show ?thesis
    by (cases s) (auto simp: kind_ok_def)
qed

text \<open>The name gives its parts back.\<close>

lemma index_name_inject:
  assumes "kind_ok s" "kind_ok s'" "n = None \<longleftrightarrow> s \<in> {Graph_doc, Entity_doc}"
    "n' = None \<longleftrightarrow> s' \<in> {Graph_doc, Entity_doc}"
    "\<forall>d. n = Some d \<longrightarrow> 0 \<le> d" "\<forall>d. n' = Some d \<longrightarrow> 0 \<le> d"
    "index_name s t n = index_name s' t' n'"
  shows "s = s' \<and> t = t' \<and> n = n'"
proof -
  have "shape_base s = shape_base s'"
    using template_of_index [OF assms(1,3)] template_of_index [OF assms(2,4)] assms(7) by metis
  then have s: "s = s'" by (cases s; cases s') auto
  show ?thesis
  proof (cases n)
    case None
    with assms(3,4) s have "n' = None" by simp
    with None s assms(7) show ?thesis by (simp add: index_name_def tenant_base_inject)
  next
    case (Some d)
    with assms(3,4) s obtain d' where n': "n' = Some d'" by (cases n') auto
    have "tenant_base (shape_base s) t @ CHR ''-'' # day_string d = tenant_base (shape_base s) t' @ CHR ''-'' # day_string d'"
      using assms(7) Some n' s by (simp add: index_name_def)
    moreover have d: "0 \<le> d" "0 \<le> d'" using assms(5,6) Some n' by auto
    ultimately have "tenant_base (shape_base s) t = tenant_base (shape_base s) t' \<and> day_string d = day_string d'"
      by (intro split_at_last_mark [OF day_string_no_hyphen [OF d(1)] day_string_no_hyphen [OF d(2)]])
    with d s Some n' show ?thesis using tenant_base_inject day_string_inject by blast
  qed
qed

text \<open>C10. An index name says exactly what is in it: two routed documents share an index just when they are
of the same kind, name the same tenant and fall on the same day (graphs and entities have no day), and
the template chosen for an index is that of the kind.\<close>

theorem route_exact:
  assumes "route ho now doc = Inr (i, x)" "route ho' now' doc' = Inr (i', x')" "0 \<le> now" "0 \<le> now'"
  shows "(i = i' \<longleftrightarrow> doc_shape doc = doc_shape doc' \<and> doc_tenant doc = doc_tenant doc' \<and> doc_day now doc = doc_day now' doc') \<and>
    template_for i = shape_base (doc_shape doc)"
proof
  note r = route_index [OF assms(1,3)] and r' = route_index [OF assms(2,4)]
  show "i = i' \<longleftrightarrow> doc_shape doc = doc_shape doc' \<and> doc_tenant doc = doc_tenant doc' \<and> doc_day now doc = doc_day now' doc'"
    using index_name_inject [OF r(2) r'(2) dated dated r(3) r'(3)] unfolding r(1) r'(1) by metis
  show "template_for i = shape_base (doc_shape doc)"
    unfolding r(1) by (rule template_of_index [OF r(2) dated])
qed

definition acme_alert :: event where
  "acme_alert = [(''alert_id'', PStr ''a1''), (''tenant_id'', PStr ''acme''), (''time'', PInt 86400000)]"

definition bank_event :: event where
  "bank_event = [(''siem'', PDict [(''sector'', PStr ''bank''), (''ingest_id'', PStr ''e1'')]), (''time'', PInt 1000)]"

lemma sample_routes:
  "route ho 0 acme_alert = Inr (''alerts-acme-1970.01.02'', ''a1'')"
  "route ho 5 bank_event = Inr (''events-bank-1970.01.01'', ''e1'')"
  by code_simp+

lemma sample_kinds: "doc_shape acme_alert = Alert_doc" "doc_shape bank_event = Event_doc ''bank''"
  by code_simp+

theorem route_exact_witness:
  "\<forall>ho. case (route ho 0 acme_alert, route ho 5 bank_event) of
     (Inr (i, x), Inr (i', x')) \<Rightarrow> i \<noteq> i' \<and> template_for i = ''alerts''
   | _ \<Rightarrow> False"
  using route_exact [OF sample_routes] by (simp add: sample_routes sample_kinds)

end
