(* ===== verification/Store.thy ===== *)
theory Store
  imports Router Operators
begin

text \<open>
  \<open>src/services/ws3-indexer/storage/memory.py\<close>: the in-memory document store behind the indexer and the
  triage API. Every method holds the store's lock, so it is one step of the model. Documents are
  values (the code hands out the stored dictionaries themselves; its callers copy before they change
  one). An index keeps its documents in insertion order, the order every scan goes through them.
\<close>

type_synonym docs = "(string, event) odict"

record store =
  st_indices :: "(string, docs) odict"
  st_versions :: "string \<times> string \<rightharpoonup> nat"
  st_templates :: "(string, event) odict"

definition store0 :: store where
  "store0 = \<lparr>st_indices = [], st_versions = Map.empty, st_templates = []\<rparr>"

definition docs_of :: "store \<Rightarrow> string \<Rightarrow> docs" where
  "docs_of s i = get_default (od_get (st_indices s)) i []"

definition version_of :: "store \<Rightarrow> string \<Rightarrow> string \<Rightarrow> nat" where
  "version_of s i x = get_default (st_versions s) (i, x) 0"

subsection \<open>Writes\<close>

definition ensure_template :: "string \<Rightarrow> event \<Rightarrow> store \<Rightarrow> store" where
  "ensure_template name template s = s\<lparr>st_templates := od_set (st_templates s) name template\<rparr>"

definition ensure_index :: "string \<Rightarrow> store \<Rightarrow> store" where
  "ensure_index i s =
     (case od_get (st_indices s) i of
        None \<Rightarrow> s\<lparr>st_indices := od_set (st_indices s) i []\<rparr> | Some _ \<Rightarrow> s)"

definition put :: "string \<Rightarrow> string \<Rightarrow> event \<Rightarrow> store \<Rightarrow> store \<times> bool" where
  "put i x doc s =
     (let bucket = docs_of s i
      in (s\<lparr>st_indices := od_set (st_indices s) i (od_set bucket x doc),
            st_versions := (st_versions s)((i, x) \<mapsto> version_of s i x + 1)\<rparr>,
          od_get bucket x = None))"

definition put_if_absent :: "string \<Rightarrow> string \<Rightarrow> event \<Rightarrow> store \<Rightarrow> store \<times> bool" where
  "put_if_absent i x doc s = (if od_get (docs_of s i) x \<noteq> None then (s, False) else put i x doc s)"

text \<open>\<open>index_cas\<close>: without a version the write is unconditional.\<close>

definition index_cas :: "string \<Rightarrow> string \<Rightarrow> event \<Rightarrow> nat option \<Rightarrow> store \<Rightarrow> store \<times> bool" where
  "index_cas i x doc version s =
     (case version of
        None \<Rightarrow> (fst (put i x doc s), True)
      | Some v \<Rightarrow> if version_of s i x \<noteq> v then (s, False) else (fst (put i x doc s), True))"

subsection \<open>Reads\<close>

definition doc_count :: "store \<Rightarrow> string \<Rightarrow> nat" where
  "doc_count s i = length (docs_of s i)"

definition index_names :: "store \<Rightarrow> string list" where
  "index_names s = map fst (filter (\<lambda>e. snd e \<noteq> []) (st_indices s))"

definition get_doc :: "store \<Rightarrow> string \<Rightarrow> string \<Rightarrow> event option" where
  "get_doc s i x = od_get (docs_of s i) x"

definition all_docs :: "store \<Rightarrow> string \<Rightarrow> event list" where
  "all_docs s i = map snd (docs_of s i)"

text \<open>The scan every \<open>find_*\<close> makes: the first index of the family that holds the id.\<close>

fun scan :: "(string \<Rightarrow> bool) \<Rightarrow> string \<Rightarrow> (string, docs) odict \<Rightarrow> (string \<times> event) option" where
  "scan fam x [] = None"
| "scan fam x ((i, docs) # rest) =
     (if fam i then (case od_get docs x of Some d \<Rightarrow> Some (i, d) | None \<Rightarrow> scan fam x rest)
      else scan fam x rest)"

definition find_alert :: "store \<Rightarrow> string \<Rightarrow> (string \<times> event) option" where
  "find_alert s x = scan (starts_with ''alerts-'') x (st_indices s)"

definition find_entity :: "store \<Rightarrow> string \<Rightarrow> (string \<times> event) option" where
  "find_entity s x = scan (\<lambda>i. i = ''entities'' \<or> starts_with ''entities-'' i) x (st_indices s)"

definition find_incident_graph :: "store \<Rightarrow> string \<Rightarrow> (string \<times> event) option" where
  "find_incident_graph s x =
     scan (\<lambda>i. i = ''incident-graphs'' \<or> starts_with ''incident-graphs-'' i) x (st_indices s)"

definition find_incident :: "store \<Rightarrow> string \<Rightarrow> (string \<times> event) option" where
  "find_incident s x = scan (starts_with ''incidents-'') x (st_indices s)"

text \<open>The bulk lookups: alerts once per id, events in every index that holds them.\<close>

definition entries :: "string \<Rightarrow> store \<Rightarrow> (string \<times> event) list" where
  "entries p s = concat (map snd (filter (\<lambda>e. starts_with p (fst e)) (st_indices s)))"

fun pick_first :: "string list \<Rightarrow> string list \<Rightarrow> (string \<times> event) list \<Rightarrow> event list" where
  "pick_first wanted seen [] = []"
| "pick_first wanted seen ((x, d) # rest) =
     (if x \<in> set wanted \<and> x \<notin> set seen then d # pick_first wanted (x # seen) rest
      else pick_first wanted seen rest)"

definition find_alerts :: "store \<Rightarrow> string list \<Rightarrow> event list" where
  "find_alerts s ids = pick_first ids [] (entries ''alerts-'' s)"

definition find_events :: "store \<Rightarrow> string list \<Rightarrow> event list" where
  "find_events s ids = map snd (filter (\<lambda>e. fst e \<in> set ids) (entries ''events'' s))"

definition find_alert_versioned :: "store \<Rightarrow> string \<Rightarrow> (string \<times> event \<times> nat) option" where
  "find_alert_versioned s x =
     (case find_alert s x of None \<Rightarrow> None | Some (i, d) \<Rightarrow> Some (i, d, version_of s i x))"

definition get_versioned :: "store \<Rightarrow> string \<Rightarrow> string \<Rightarrow> (event \<times> nat) option" where
  "get_versioned s i x =
     (case get_doc s i x of None \<Rightarrow> None | Some d \<Rightarrow> Some (d, version_of s i x))"

subsection \<open>Newest report, listings\<close>

text \<open>\<open>a < b\<close> of two values (strict), \<open>a <= b\<close> otherwise; lists compare at their first difference.\<close>

function py_less :: "bool \<Rightarrow> pyval \<Rightarrow> pyval \<Rightarrow> bool py" where
  "py_less strict a b =
     (case (num a, num b) of
        (Some x, Some y) \<Rightarrow> Inr (float_lt x y \<or> \<not> strict \<and> float_eq x y)
      | _ \<Rightarrow>
        (case (a, b) of
           (PStr s, PStr t) \<Rightarrow> Inr (s < t \<or> \<not> strict \<and> s = t)
         | (PList [], PList ys) \<Rightarrow> Inr (ys \<noteq> [] \<or> \<not> strict)
         | (PList (x # xs), PList []) \<Rightarrow> Inr False
         | (PList (x # xs), PList (y # ys)) \<Rightarrow>
             if py_eq x y then py_less strict (PList xs) (PList ys) else py_less strict x y
         | _ \<Rightarrow> Inl TypeError))"
  by pat_completeness auto
termination by (relation "measure (\<lambda>(s, a, b). size a)") auto

declare py_less.simps [simp del]

text \<open>The scan of \<open>find_report\<close>: the current best with its time stamp, or none yet.\<close>

fun best_report :: "string \<Rightarrow> (event \<times> pyval) option \<Rightarrow> (string, docs) odict \<Rightarrow> event option py" where
  "best_report rid best [] = Inr (map_option fst best)"
| "best_report rid best ((i, docs) # rest) =
     (if \<not> starts_with ''reports-'' i then best_report rid best rest
      else case od_get docs rid of
             None \<Rightarrow> best_report rid best rest
           | Some doc \<Rightarrow>
               (let generated = py_or (dget doc ''generated_at'') (PInt 0)
                in case best of
                     None \<Rightarrow> best_report rid (Some (doc, generated)) rest
                   | Some (_, g) \<Rightarrow>
                       py_bind (py_less False g generated) (\<lambda>newer.
                         best_report rid (if newer then Some (doc, generated) else best) rest)))"

definition find_report :: "store \<Rightarrow> string \<Rightarrow> event option py" where
  "find_report s alert_id = best_report (alert_id @ '':report'') None (st_indices s)"

text \<open>
  \<open>docs.sort(key=..., reverse=True)\<close> is the stable descending sort when the keys are all numbers (no
  NaN among them) or all strings. On other keys what the interpreter does is the argument \<open>by_host\<close>.
\<close>

definition total_keys :: "pyval list \<Rightarrow> bool" where
  "total_keys ks \<longleftrightarrow>
     (\<forall>k\<in>set ks. case num k of None \<Rightarrow> False | Some x \<Rightarrow> x \<noteq> NaN) \<or> (\<forall>k\<in>set ks. is_str k)"

fun insert_desc :: "(event \<Rightarrow> pyval) \<Rightarrow> event \<Rightarrow> event list \<Rightarrow> event list" where
  "insert_desc key x [] = [x]"
| "insert_desc key x (y # ys) =
     (if py_less True (key x) (key y) = Inr True then y # insert_desc key x ys else x # y # ys)"

definition sort_desc :: "(event list \<Rightarrow> event list py) \<Rightarrow> (event \<Rightarrow> pyval) \<Rightarrow> event list \<Rightarrow> event list py" where
  "sort_desc by_host key docs =
     (if length docs < 2 then Inr docs
      else if total_keys (map key docs) then Inr (foldr (insert_desc key) docs []) else by_host docs)"

definition slice :: "int \<Rightarrow> 'a list \<Rightarrow> 'a list" where
  "slice limit xs = (if 0 \<le> limit then take (nat limit) xs else take (length xs - nat (- limit)) xs)"

fun filter_py :: "(event \<Rightarrow> bool py) \<Rightarrow> event list \<Rightarrow> event list py" where
  "filter_py P [] = Inr []"
| "filter_py P (d # ds) =
     py_bind (P d) (\<lambda>keep. py_bind (filter_py P ds) (\<lambda>ds'. Inr (if keep then d # ds' else ds')))"

definition when_given :: "'a option \<Rightarrow> ('a \<Rightarrow> event \<Rightarrow> bool py) \<Rightarrow> event list \<Rightarrow> event list py" where
  "when_given wanted P docs = (case wanted of None \<Rightarrow> Inr docs | Some w \<Rightarrow> filter_py (P w) docs)"

text \<open>\<open>(d.get(k) or {})\<close>, and \<open>(d.get("tenant_id") or "default")\<close>.\<close>

definition sub_doc :: "pyval \<Rightarrow> pyval" where
  "sub_doc v = py_or v (PDict [])"

definition in_tenant :: "string \<Rightarrow> pyval \<Rightarrow> bool" where
  "in_tenant t v = py_eq (py_or v (PStr ''default'')) (PStr t)"

fun get_else :: "pyval \<Rightarrow> string \<Rightarrow> pyval \<Rightarrow> pyval py" where
  "get_else (PDict d) k v = Inr (get_default (od_get d) k v)"
| "get_else _ k v = Inl AttributeError"

definition docs_in :: "string \<Rightarrow> store \<Rightarrow> event list" where
  "docs_in p s = map snd (entries p s)"

definition list_alerts ::
    "(event list \<Rightarrow> event list py) \<Rightarrow> store \<Rightarrow> string option \<Rightarrow> string option \<Rightarrow> int
     \<Rightarrow> string option \<Rightarrow> string option \<Rightarrow> event list py" where
  "list_alerts by_host s tenant_id status limit actor src_ip =
     py_bind (when_given tenant_id (\<lambda>t d. Inr (in_tenant t (dget d ''tenant_id''))) (docs_in ''alerts'' s)) (\<lambda>docs.
     py_bind (when_given status (\<lambda>w d. py_bind (get_else (sub_doc (dget d ''triage'')) ''status'' (PStr ''new''))
                (\<lambda>v. Inr (py_eq v (PStr w)))) docs) (\<lambda>docs.
     py_bind (when_given actor (\<lambda>w d. py_bind (get_else (sub_doc (dget d ''actor'')) ''user'' (PDict []))
                (\<lambda>u. py_bind (py_get u ''name'') (\<lambda>v. Inr (py_eq v (PStr w))))) docs) (\<lambda>docs.
     py_bind (when_given src_ip (\<lambda>w d. py_bind (py_get (sub_doc (dget d ''src_endpoint'')) ''ip'')
                (\<lambda>v. Inr (py_eq v (PStr w)))) docs) (\<lambda>docs.
     py_bind (sort_desc by_host (\<lambda>d. py_or (dget d ''time'') (PInt 0)) docs) (\<lambda>docs.
     Inr (slice limit docs))))))"

definition list_incidents ::
    "(event list \<Rightarrow> event list py) \<Rightarrow> store \<Rightarrow> string option \<Rightarrow> string option \<Rightarrow> string option
     \<Rightarrow> int \<Rightarrow> event list py" where
  "list_incidents by_host s tenant_id entity_type entity_value limit =
     py_bind (when_given tenant_id (\<lambda>t d. Inr (in_tenant t (dget d ''tenant_id''))) (docs_in ''incidents'' s)) (\<lambda>docs.
     py_bind (when_given entity_type (\<lambda>w d. Inr (py_eq (dget d ''entity_type'') (PStr w))) docs) (\<lambda>docs.
     py_bind (when_given entity_value (\<lambda>w d. Inr (py_eq (dget d ''entity_value'') (PStr w))) docs) (\<lambda>docs.
     py_bind (sort_desc by_host (\<lambda>d. py_or (dget d ''last_seen'') (PInt 0)) docs) (\<lambda>docs.
     Inr (slice limit docs)))))"

definition list_events ::
    "(event list \<Rightarrow> event list py) \<Rightarrow> store \<Rightarrow> string option \<Rightarrow> string option \<Rightarrow> int \<Rightarrow> event list py" where
  "list_events by_host s family tenant_id limit =
     (let docs = map snd (concat (map snd (filter (\<lambda>e. starts_with ''events'' (fst e) \<and>
                   (case family of None \<Rightarrow> True | Some f \<Rightarrow> substring (''events-'' @ f) (fst e))) (st_indices s))))
      in py_bind (when_given tenant_id (\<lambda>t d. py_bind (py_get (sub_doc (dget d ''siem'')) ''tenant'')
                   (\<lambda>v. Inr (in_tenant t v))) docs) (\<lambda>docs.
         py_bind (sort_desc by_host (\<lambda>d. py_or (dget d ''time'') (PInt 0)) docs) (\<lambda>docs.
         Inr (slice limit docs))))"

subsection \<open>The store as a transition system\<close>

text \<open>Any caller's operation that may change the store.\<close>

datatype store_op =
    Ensure_template string event
  | Ensure_index string
  | Put string string event
  | Put_if_absent string string event
  | Cas string string event "nat option"

fun store_step :: "store_op \<Rightarrow> store \<Rightarrow> store" where
  "store_step (Ensure_template n t) s = ensure_template n t s"
| "store_step (Ensure_index i) s = ensure_index i s"
| "store_step (Put i x d) s = fst (put i x d s)"
| "store_step (Put_if_absent i x d) s = fst (put_if_absent i x d s)"
| "store_step (Cas i x d v) s = fst (index_cas i x d v s)"

definition store_run :: "store_op list \<Rightarrow> store \<Rightarrow> store" where
  "store_run ops s = fold store_step ops s"

lemma store_run_simps [simp]:
  "store_run [] s = s" "store_run (o1 # ops) s = store_run ops (store_step o1 s)"
  "store_run (ops @ ops') s = store_run ops' (store_run ops s)"
  by (simp_all add: store_run_def)

named_theorems store_simps \<open>reads after writes\<close>

lemma docs_of_put [store_simps]:
  "docs_of (fst (put i x d s)) j = (if j = i then od_set (docs_of s i) x d else docs_of s j)"
  by (simp add: put_def docs_of_def Let_def)

lemma get_doc_put [store_simps]:
  "get_doc (fst (put i x d s)) j y = (if j = i \<and> y = x then Some d else get_doc s j y)"
  by (simp add: get_doc_def docs_of_put)

lemma version_put [store_simps]:
  "version_of (fst (put i x d s)) j y = (if j = i \<and> y = x then version_of s i x + 1 else version_of s j y)"
  by (simp add: put_def version_of_def Let_def)

lemma put_new [store_simps]: "snd (put i x d s) \<longleftrightarrow> get_doc s i x = None"
  by (simp add: put_def get_doc_def docs_of_def Let_def)

lemma ensure_frame [store_simps]:
  "get_doc (ensure_index i s) j y = get_doc s j y" "version_of (ensure_index i s) j y = version_of s j y"
  "get_doc (ensure_template n t s) j y = get_doc s j y" "version_of (ensure_template n t s) j y = version_of s j y"
  by (auto simp: ensure_index_def ensure_template_def get_doc_def docs_of_def version_of_def get_default_def
      split: option.splits)

lemma put_if_absent_simps [store_simps]:
  "get_doc s i x = None \<Longrightarrow> put_if_absent i x d s = put i x d s"
  "get_doc s i x = Some d' \<Longrightarrow> put_if_absent i x d s = (s, False)"
  by (simp_all add: put_if_absent_def get_doc_def)

text \<open>A document is stored just when its version is positive; indices and ids are distinct.\<close>

definition store_ok :: "store \<Rightarrow> bool" where
  "store_ok s \<longleftrightarrow>
     od_wf (st_indices s) \<and> (\<forall>e\<in>set (st_indices s). od_wf (snd e)) \<and>
     (\<forall>i x. get_doc s i x = None \<longleftrightarrow> version_of s i x = 0)"

lemma set_od_set: "od_wf d \<Longrightarrow> set (od_set d k v) = insert (k, v) {e \<in> set d. fst e \<noteq> k}"
  by (induction d k v rule: od_set.induct) (auto simp: image_iff)

lemma store_ok_put:
  assumes "store_ok s"
  shows "store_ok (fst (put i x d s))"
proof -
  have wf: "od_wf (st_indices s)" "\<forall>e\<in>set (st_indices s). od_wf (snd e)"
    and v: "\<forall>j y. get_doc s j y = None \<longleftrightarrow> version_of s j y = 0"
    using assms unfolding store_ok_def by auto
  have "od_wf (docs_of s i)"
    using wf(2) by (auto simp: docs_of_def get_default_def split: option.splits dest!: map_of_SomeD)
  with wf have "od_wf (st_indices (fst (put i x d s))) \<and> (\<forall>e\<in>set (st_indices (fst (put i x d s))). od_wf (snd e))"
    by (auto simp: put_def Let_def set_od_set)
  moreover have "\<forall>j y. get_doc (fst (put i x d s)) j y = None \<longleftrightarrow> version_of (fst (put i x d s)) j y = 0"
    using v by (simp add: store_simps)
  ultimately show ?thesis unfolding store_ok_def by blast
qed

lemma store_ok_ensure:
  assumes "store_ok s"
  shows "store_ok (ensure_index i s)" "store_ok (ensure_template n t s)"
proof -
  show "store_ok (ensure_template n t s)"
    using assms by (auto simp: store_ok_def ensure_template_def get_doc_def docs_of_def version_of_def)
  have "od_wf (st_indices (ensure_index i s)) \<and> (\<forall>e\<in>set (st_indices (ensure_index i s)). od_wf (snd e))"
    using assms by (auto simp: store_ok_def ensure_index_def set_od_set split: option.splits)
  with assms show "store_ok (ensure_index i s)" unfolding store_ok_def by (simp add: store_simps)
qed

text \<open>What any step does to one document: nothing, or a new version.\<close>

lemma step_versions:
  "version_of s i x \<le> version_of (store_step a s) i x"
  "version_of (store_step a s) i x = version_of s i x \<Longrightarrow> get_doc (store_step a s) i x = get_doc s i x"
  by (cases a; auto simp: store_simps put_if_absent_def index_cas_def split: option.splits)+

lemma store_ok_step: "store_ok s \<Longrightarrow> store_ok (store_step a s)"
  by (cases a) (auto simp: store_ok_put store_ok_ensure put_if_absent_def index_cas_def split: option.splits)

lemma store_ok_run: "store_ok s \<Longrightarrow> store_ok (store_run ops s)"
  by (induction ops arbitrary: s) (auto simp: store_ok_step)

lemma store_ok_empty: "store_ok store0"
  by (simp add: store_ok_def store0_def get_doc_def docs_of_def version_of_def)

lemma run_versions:
  "version_of s i x \<le> version_of (store_run ops s) i x"
  "version_of (store_run ops s) i x = version_of s i x \<Longrightarrow> get_doc (store_run ops s) i x = get_doc s i x"
proof (induction ops arbitrary: s)
  case (Cons a ops)
  { case 1 show ?case using Cons(1) [of "store_step a s"] step_versions(1) [of s i x a] by simp }
  { case 2
    have "version_of (store_step a s) i x = version_of s i x"
      "version_of (store_run ops (store_step a s)) i x = version_of (store_step a s) i x"
      using 2 Cons(1) [of "store_step a s"] step_versions(1) [of s i x a] by simp_all
    with Cons(2) [of "store_step a s"] step_versions(2) [of a s i x] show ?case by simp }
qed simp_all

subsection \<open>The optimistic-concurrency contract\<close>

text \<open>
  What a read-modify-write client relies on: a read returns a document with its version, any move of
  the other writers either leaves the document or raises its version, and a conditional write lands
  just when the version is still the one that was read.
\<close>

locale versioned_store =
  fixes rd :: "'s \<Rightarrow> 'k \<Rightarrow> ('d \<times> nat) option"
    and cas :: "'k \<Rightarrow> 'd \<Rightarrow> nat option \<Rightarrow> 's \<Rightarrow> 's \<times> bool"
    and good :: "'s \<Rightarrow> bool"
    and moves :: "'s \<Rightarrow> 's \<Rightarrow> bool"
  assumes moves_good: "good s \<Longrightarrow> moves s s' \<Longrightarrow> good s'"
    and moves_trans: "moves s s' \<Longrightarrow> moves s' s'' \<Longrightarrow> moves s s''"
    and moves_read: "good s \<Longrightarrow> moves s s' \<Longrightarrow> rd s k = Some (d, v) \<Longrightarrow>
      \<exists>d' v'. rd s' k = Some (d', v') \<and> v \<le> v' \<and> (v' = v \<longrightarrow> d' = d)"
    and cas_lands: "good s \<Longrightarrow> rd s k = Some (d, v) \<Longrightarrow>
      \<exists>s'. cas k e (Some v) s = (s', True) \<and> rd s' k = Some (e, Suc v)"
    and cas_refused: "good s \<Longrightarrow> rd s k = Some (d, v') \<Longrightarrow> v' \<noteq> v \<Longrightarrow> cas k e (Some v) s = (s, False)"
begin

lemma read_stays: "good s \<Longrightarrow> moves s s' \<Longrightarrow> rd s k \<noteq> None \<Longrightarrow> rd s' k \<noteq> None"
  using moves_read by fastforce

lemma cas_verdict:
  assumes "good s" "moves s s'" "rd s k = Some (d, v)"
  shows "(\<exists>t. cas k e (Some v) s' = (t, True) \<and> rd s' k = Some (d, v) \<and> rd t k = Some (e, Suc v)) \<or>
    cas k e (Some v) s' = (s', False)"
proof -
  obtain d' v' where r: "rd s' k = Some (d', v')" "v' = v \<longrightarrow> d' = d"
    using moves_read [OF assms] by blast
  have g: "good s'" using assms moves_good by blast
  show ?thesis
  proof (cases "v' = v")
    case True
    with r cas_lands [OF g r(1), of e] show ?thesis by auto
  next
    case False
    with cas_refused [OF g r(1)] show ?thesis by blast
  qed
qed

lemma no_lost_update:
  assumes "good s" "moves s s'" "rd s k = Some (d, v)" "cas k e (Some v) s' = (t, True)"
  shows "rd s' k = Some (d, v)" and "rd t k = Some (e, Suc v)"
  using cas_verdict [OF assms(1-3), of e] assms(4) by auto


end

definition reaches :: "store \<Rightarrow> store \<Rightarrow> bool" where
  "reaches s s' \<longleftrightarrow> (\<exists>ops. s' = store_run ops s)"

definition read_at :: "store \<Rightarrow> string \<times> string \<Rightarrow> (event \<times> nat) option" where
  "read_at s k = get_versioned s (fst k) (snd k)"

definition cas_at :: "string \<times> string \<Rightarrow> event \<Rightarrow> nat option \<Rightarrow> store \<Rightarrow> store \<times> bool" where
  "cas_at k d v s = index_cas (fst k) (snd k) d v s"

interpretation mem: versioned_store read_at cas_at store_ok reaches
proof unfold_locales
  fix s s' k d v and e :: event
  show "store_ok s \<Longrightarrow> reaches s s' \<Longrightarrow> store_ok s'"
    by (auto simp: reaches_def store_ok_run)
  show "reaches s s' \<Longrightarrow> reaches s' s'' \<Longrightarrow> reaches s s''" for s''
    unfolding reaches_def by (metis store_run_simps(3))
  show "\<exists>s'. cas_at k e (Some v) s = (s', True) \<and> read_at s' k = Some (e, Suc v)"
    if "read_at s k = Some (d, v)"
    using that by (auto simp: read_at_def cas_at_def get_versioned_def index_cas_def store_simps split: option.splits)
  show "cas_at k e (Some v) s = (s, False)" if "read_at s k = Some (d, v')" "v' \<noteq> v" for v'
    using that by (auto simp: read_at_def cas_at_def get_versioned_def index_cas_def split: option.splits)
  assume ok: "store_ok s" and r: "reaches s s'" and rd: "read_at s k = Some (d, v)"
  obtain ops where s': "s' = store_run ops s" using r by (auto simp: reaches_def)
  obtain i x where k: "k = (i, x)" by fastforce
  have here: "get_doc s i x = Some d" "v = version_of s i x"
    using rd k by (auto simp: read_at_def get_versioned_def split: option.splits)
  then have "version_of s i x \<noteq> 0" using ok by (metis option.distinct(1) store_ok_def)
  then have "version_of s' i x \<noteq> 0" using run_versions(1) [where s = s and i = i and x = x and ops = ops] s' by simp
  moreover have "store_ok s'" using ok s' by (simp add: store_ok_run)
  ultimately obtain d' where d': "get_doc s' i x = Some d'" unfolding store_ok_def by fastforce
  show "\<exists>d' v'. read_at s' k = Some (d', v') \<and> v \<le> v' \<and> (v' = v \<longrightarrow> d' = d)"
    using d' here k s' run_versions [where s = s and i = i and x = x and ops = ops] by (auto simp: read_at_def get_versioned_def)
qed

text \<open>C15. No lost update: whatever the other writers did since a document was read, a conditional write
with the version that was read lands only if the document is still the one that was read; otherwise it
leaves the store alone.\<close>

theorem cas_no_lost_update:
  assumes "store_ok s" "get_versioned s i x = Some (d, v)"
  shows "case index_cas i x e (Some v) (store_run ops s) of (t, ok) \<Rightarrow>
    if ok then get_doc (store_run ops s) i x = Some d \<and> get_versioned t i x = Some (e, Suc v)
    else t = store_run ops s"
proof -
  have rd: "read_at s (i, x) = Some (d, v)" using assms(2) by (simp add: read_at_def)
  have "reaches s (store_run ops s)" by (auto simp: reaches_def)
  from mem.cas_verdict [OF assms(1) this rd, of e] show ?thesis
    by (auto simp: cas_at_def read_at_def get_versioned_def split: option.splits)
qed

definition two_writers :: store where
  "two_writers = fst (put ''alerts-x'' ''a1'' [(''n'', PInt 0)] store0)"

theorem cas_no_lost_update_witness:
  "\<not> snd (index_cas ''alerts-x'' ''a1'' [(''n'', PInt 2)] (Some 1)
      (store_run [Put ''alerts-x'' ''a1'' [(''n'', PInt 1)]] two_writers))"
proof -
  have ok: "store_ok two_writers" unfolding two_writers_def by (intro store_ok_put store_ok_empty)
  have "get_versioned two_writers ''alerts-x'' ''a1'' = Some ([(''n'', PInt 0)], 1)" by code_simp
  from cas_no_lost_update [OF ok this, where e = "[(''n'', PInt 2)]" and ops = "[Put ''alerts-x'' ''a1'' [(''n'', PInt 1)]]"]
  show ?thesis by (auto simp: two_writers_def store_simps split: prod.splits if_splits)
qed

subsection \<open>What listings and lookups return\<close>

lemma py_bind_InrE: "py_bind r f = Inr y \<Longrightarrow> (\<And>x. r = Inr x \<Longrightarrow> f x = Inr y \<Longrightarrow> P) \<Longrightarrow> P"
  by (auto simp: py_bind_Inr)

lemma filter_py_set: "filter_py P ds = Inr ds' \<Longrightarrow> set ds' \<subseteq> {d \<in> set ds. P d = Inr True}"
  by (induction ds arbitrary: ds') (fastforce simp: py_bind_Inr split: if_splits)+

lemma when_given_set: "when_given w P ds = Inr ds' \<Longrightarrow> set ds' \<subseteq> set ds"
  using filter_py_set by (fastforce simp: when_given_def split: option.splits)

lemma when_given_Some: "when_given (Some t) P ds = Inr ds' \<Longrightarrow> set ds' \<subseteq> {d \<in> set ds. P t d = Inr True}"
  using filter_py_set by (simp add: when_given_def)

lemma set_insert_desc: "set (insert_desc key x ys) = insert x (set ys)"
  by (induction key x ys rule: insert_desc.induct) auto

lemma set_foldr_desc: "set (foldr (insert_desc key) ds []) = set ds"
  by (induction ds) (simp_all add: set_insert_desc)

definition reorders :: "(event list \<Rightarrow> event list py) \<Rightarrow> bool" where
  "reorders by_host \<longleftrightarrow> (\<forall>xs ys. by_host xs = Inr ys \<longrightarrow> mset ys = mset xs)"

lemma sort_desc_set: "reorders by_host \<Longrightarrow> sort_desc by_host key ds = Inr ds' \<Longrightarrow> set ds' = set ds"
  by (auto simp: sort_desc_def set_foldr_desc reorders_def split: if_splits dest: mset_eq_setD)

lemma slice_set: "set (slice n ds) \<subseteq> set ds" "0 \<le> n \<Longrightarrow> length (slice n ds) \<le> nat n"
  by (auto simp: slice_def dest: in_set_takeD)

text \<open>C36. A listing for a tenant shows that tenant's stored documents only, and at most as many as asked for;
this holds of alerts, incidents and events.\<close>

theorem listing_isolated:
  assumes "reorders by_host" "0 \<le> limit"
  shows "(case list_alerts by_host s (Some t) status limit actor src_ip of
      Inr ds \<Rightarrow> (\<forall>d\<in>set ds. d \<in> set (docs_in ''alerts'' s) \<and> in_tenant t (dget d ''tenant_id'')) \<and> length ds \<le> nat limit
    | Inl e \<Rightarrow> True) \<and>
    (case list_incidents by_host s (Some t) kind who limit of
      Inr ds \<Rightarrow> (\<forall>d\<in>set ds. d \<in> set (docs_in ''incidents'' s) \<and> in_tenant t (dget d ''tenant_id'')) \<and> length ds \<le> nat limit
    | Inl e \<Rightarrow> True) \<and>
    (case list_events by_host s family (Some t) limit of
      Inr ds \<Rightarrow> (\<forall>d\<in>set ds. \<exists>v. py_get (sub_doc (dget d ''siem'')) ''tenant'' = Inr v \<and> in_tenant t v) \<and> length ds \<le> nat limit
    | Inl e \<Rightarrow> True)"
proof (intro conjI)
  have sl: "set (slice limit x) \<subseteq> set x" "length (slice limit x) \<le> nat limit" for x :: "event list"
    by (rule slice_set(1)) (rule slice_set(2) [OF assms(2)])
  have "(\<forall>d\<in>set ds. d \<in> set (docs_in ''alerts'' s) \<and> in_tenant t (dget d ''tenant_id'')) \<and> length ds \<le> nat limit"
    if ds: "list_alerts by_host s (Some t) status limit actor src_ip = Inr ds" for ds
  proof -
    have "set ds \<subseteq> {d \<in> set (docs_in ''alerts'' s). Inr (in_tenant t (dget d ''tenant_id'')) = (Inr True :: bool py)} \<and> length ds \<le> nat limit"
      using ds unfolding list_alerts_def
      by (elim py_bind_InrE)
         (drule when_given_Some, drule when_given_set, drule when_given_set, drule when_given_set,
          drule sort_desc_set [OF assms(1)], drule sum.inject(2) [THEN iffD1], use sl in blast)
    then show ?thesis by auto
  qed
  then show "case list_alerts by_host s (Some t) status limit actor src_ip of
      Inr ds \<Rightarrow> (\<forall>d\<in>set ds. d \<in> set (docs_in ''alerts'' s) \<and> in_tenant t (dget d ''tenant_id'')) \<and> length ds \<le> nat limit
    | Inl e \<Rightarrow> True" by (simp split: sum.split)
  have "(\<forall>d\<in>set ds. d \<in> set (docs_in ''incidents'' s) \<and> in_tenant t (dget d ''tenant_id'')) \<and> length ds \<le> nat limit"
    if ds: "list_incidents by_host s (Some t) kind who limit = Inr ds" for ds
  proof -
    have "set ds \<subseteq> {d \<in> set (docs_in ''incidents'' s). Inr (in_tenant t (dget d ''tenant_id'')) = (Inr True :: bool py)} \<and> length ds \<le> nat limit"
      using ds unfolding list_incidents_def
      by (elim py_bind_InrE)
         (drule when_given_Some, drule when_given_set, drule when_given_set,
          drule sort_desc_set [OF assms(1)], drule sum.inject(2) [THEN iffD1], use sl in blast)
    then show ?thesis by auto
  qed
  then show "case list_incidents by_host s (Some t) kind who limit of
      Inr ds \<Rightarrow> (\<forall>d\<in>set ds. d \<in> set (docs_in ''incidents'' s) \<and> in_tenant t (dget d ''tenant_id'')) \<and> length ds \<le> nat limit
    | Inl e \<Rightarrow> True" by (simp split: sum.split)
  have "(\<forall>d\<in>set ds. \<exists>v. py_get (sub_doc (dget d ''siem'')) ''tenant'' = Inr v \<and> in_tenant t v) \<and> length ds \<le> nat limit"
    if ds: "list_events by_host s family (Some t) limit = Inr ds" for ds
  proof -
    have "set ds \<subseteq> {d. py_bind (py_get (sub_doc (dget d ''siem'')) ''tenant'') (\<lambda>v. Inr (in_tenant t v)) = Inr True} \<and> length ds \<le> nat limit"
      using ds unfolding list_events_def Let_def
      by (elim py_bind_InrE)
         (drule when_given_Some, drule sort_desc_set [OF assms(1)], drule sum.inject(2) [THEN iffD1], use sl in blast)
    then show ?thesis by (auto simp: py_bind_Inr)
  qed
  then show "case list_events by_host s family (Some t) limit of
      Inr ds \<Rightarrow> (\<forall>d\<in>set ds. \<exists>v. py_get (sub_doc (dget d ''siem'')) ''tenant'' = Inr v \<and> in_tenant t v) \<and> length ds \<le> nat limit
    | Inl e \<Rightarrow> True" by (simp split: sum.split)
qed

definition tenant_store :: store where
  "tenant_store = store_run [Put ''alerts-x'' ''a1'' [(''tenant_id'', PStr ''acme'')], Put ''alerts-y'' ''a2'' []] store0"

theorem listing_isolated_witness:
  "case list_alerts Inr tenant_store (Some ''acme'') None 10 None None of
     Inr ds \<Rightarrow> \<forall>d\<in>set ds. in_tenant ''acme'' (dget d ''tenant_id'')
   | Inl e \<Rightarrow> False"
proof -
  have r: "reorders Inr" "0 \<le> (10::int)" by (auto simp: reorders_def)
  have "list_alerts Inr tenant_store (Some ''acme'') None 10 None None = Inr [[(''tenant_id'', PStr ''acme'')]]"
    by code_simp
  with listing_isolated [OF r, of tenant_store "''acme''" None None None] show ?thesis by simp
qed

text \<open>The copies of a report, as the scan meets them.\<close>

fun copies :: "string \<Rightarrow> (string, docs) odict \<Rightarrow> event list" where
  "copies rid [] = []"
| "copies rid ((i, docs) # rest) =
     (if starts_with ''reports-'' i
      then (case od_get docs rid of None \<Rightarrow> copies rid rest | Some d \<Rightarrow> d # copies rid rest)
      else copies rid rest)"

definition stamp_of :: "event \<Rightarrow> int" where
  "stamp_of d = (case dget d ''generated_at'' of PInt n \<Rightarrow> n | _ \<Rightarrow> 0)"

definition int_stamp :: "event \<Rightarrow> bool" where
  "int_stamp d \<longleftrightarrow> (case dget d ''generated_at'' of PInt n \<Rightarrow> True | PNone \<Rightarrow> True | _ \<Rightarrow> False)"

lemma int_stamp: "int_stamp d \<Longrightarrow> py_or (dget d ''generated_at'') (PInt 0) = PInt (stamp_of d)"
  by (auto simp: int_stamp_def stamp_of_def py_or_def split: pyval.splits)

lemma py_less_int: "py_less strict (PInt a) (PInt b) = Inr (a < b \<or> \<not> strict \<and> a = b)"
  by (subst py_less.simps) simp

lemma no_copy:
  assumes "\<not> (starts_with ''reports-'' i \<and> od_get docs rid \<noteq> None)"
  shows "copies rid ((i, docs) # ix) = copies rid ix" "best_report rid best ((i, docs) # ix) = best_report rid best ix"
  using assms by (auto split: option.splits)

lemma best_report_from:
  assumes "\<forall>d\<in>set (copies rid ix). int_stamp d"
  shows "\<exists>b. best_report rid (Some (d, PInt n)) ix = Inr (Some b) \<and>
    (b = d \<and> (\<forall>c\<in>set (copies rid ix). stamp_of c < n) \<or>
     b \<in> set (copies rid ix) \<and> n \<le> stamp_of b \<and> (\<forall>c\<in>set (copies rid ix). stamp_of c \<le> stamp_of b))"
  using assms
proof (induction ix arbitrary: d n)
  case (Cons e ix)
  obtain i docs where e: "e = (i, docs)" by fastforce
  show ?case
  proof (cases "starts_with ''reports-'' i \<and> od_get docs rid \<noteq> None")
    case False
    with Cons show ?thesis unfolding e no_copy [OF False] by blast
  next
    case True
    then obtain c where c: "od_get docs rid = Some c" by blast
    with Cons.prems True e have int: "int_stamp c" "\<forall>d\<in>set (copies rid ix). int_stamp d" by auto
    show ?thesis
    proof (cases "n \<le> stamp_of c")
      case le: True
      obtain b where b: "best_report rid (Some (c, PInt (stamp_of c))) ix = Inr (Some b)"
        "b = c \<and> (\<forall>c'\<in>set (copies rid ix). stamp_of c' < stamp_of c) \<or>
         b \<in> set (copies rid ix) \<and> stamp_of c \<le> stamp_of b \<and> (\<forall>c\<in>set (copies rid ix). stamp_of c \<le> stamp_of b)"
        using Cons.IH [OF int(2)] by blast
      have "best_report rid (Some (d, PInt n)) (e # ix) = best_report rid (Some (c, PInt (stamp_of c))) ix"
        using True c e le by (auto simp: int_stamp [OF int(1)] py_less_int Let_def)
      with b True c e le show ?thesis by fastforce
    next
      case gt: False
      have "best_report rid (Some (d, PInt n)) (e # ix) = best_report rid (Some (d, PInt n)) ix"
        using True c e gt by (auto simp: int_stamp [OF int(1)] py_less_int Let_def)
      with Cons.IH [OF int(2), of d n] True c e gt show ?thesis by fastforce
    qed
  qed
qed simp

text \<open>When the copies of a report carry integer time stamps, the lookup returns one of them with the
greatest stamp, and nothing just when there is no copy.\<close>

theorem find_report_newest:
  assumes "\<forall>d\<in>set (copies (alert_id @ '':report'') (st_indices s)). int_stamp d"
  shows "case find_report s alert_id of
      Inr None \<Rightarrow> copies (alert_id @ '':report'') (st_indices s) = []
    | Inr (Some d) \<Rightarrow> d \<in> set (copies (alert_id @ '':report'') (st_indices s)) \<and>
        (\<forall>c\<in>set (copies (alert_id @ '':report'') (st_indices s)). stamp_of c \<le> stamp_of d)
    | Inl e \<Rightarrow> False"
proof -
  have "case best_report rid None ix of
      Inr None \<Rightarrow> copies rid ix = []
    | Inr (Some d) \<Rightarrow> d \<in> set (copies rid ix) \<and> (\<forall>c\<in>set (copies rid ix). stamp_of c \<le> stamp_of d)
    | Inl e \<Rightarrow> False" if "\<forall>d\<in>set (copies rid ix). int_stamp d" for rid ix
    using that
  proof (induction ix)
    case (Cons e ix)
    obtain i docs where e: "e = (i, docs)" by fastforce
    show ?case
    proof (cases "starts_with ''reports-'' i \<and> od_get docs rid \<noteq> None")
      case False
      from Cons show ?thesis unfolding e no_copy [OF False] by blast
    next
      case True
      then obtain c where c: "od_get docs rid = Some c" by blast
      with Cons.prems True e have int: "int_stamp c" "\<forall>d\<in>set (copies rid ix). int_stamp d" by auto
      have "best_report rid None (e # ix) = best_report rid (Some (c, PInt (stamp_of c))) ix"
        using True c e by (auto simp: int_stamp [OF int(1)])
      with best_report_from [OF int(2), of c "stamp_of c"] True c e show ?thesis by fastforce
    qed
  qed simp
  with assms show ?thesis by (simp add: find_report_def)
qed

definition report_store :: store where
  "report_store = store_run [Put ''reports-1'' ''a:report'' [(''generated_at'', PInt 1)],
     Put ''reports-2'' ''a:report'' [(''generated_at'', PInt 2)]] store0"

theorem find_report_newest_witness: "\<exists>d. find_report report_store ''a'' = Inr (Some d) \<and> stamp_of d = 2"
proof -
  have "\<forall>d\<in>set (copies (''a'' @ '':report'') (st_indices report_store)). int_stamp d" by code_simp
  moreover have "find_report report_store ''a'' = Inr (Some [(''generated_at'', PInt 2)])" by code_simp
  moreover have "stamp_of [(''generated_at'', PInt 2)] = 2" by code_simp
  ultimately show ?thesis using find_report_newest [of "''a''" report_store] by simp
qed

end
