(* ===== verification/Indexer.thy ===== *)
theory Indexer
  imports Store Bus
begin

text \<open>
  \<open>src/services/ws3-indexer/main.py\<close>: one document written at a time (\<open>index_doc\<close>, the alert write that
  keeps the analyst's triage) and the batch drain \<open>run\<close>. The store is shared with other threads and
  processes: \<open>others n\<close> is what they do to it at the \<open>n\<close>-th point where they may come in, between a read
  and the write that follows it and during the pauses between attempts. Log lines and pauses are not
  modelled.
\<close>

subsection \<open>The alert write\<close>

datatype store_error = Py py_exn | AlertCasExhausted

definition alert_cas_max_retries :: nat where
  "alert_cas_max_retries = 5"

text \<open>
  The compare-and-swap loop, over the three store calls it makes on its document: the versioned read,
  the drift test (is the id indexed elsewhere), and the conditional write.
\<close>

fun alert_attempts ::
    "('s \<Rightarrow> ('d \<times> nat) option) \<Rightarrow> ('s \<Rightarrow> bool) \<Rightarrow> ('d \<Rightarrow> nat option \<Rightarrow> 's \<Rightarrow> 's \<times> bool) \<Rightarrow> ('d \<Rightarrow> 'd \<Rightarrow> 'd) \<Rightarrow>
     (nat \<Rightarrow> 's \<Rightarrow> 's) \<Rightarrow> bool \<Rightarrow> 'd \<Rightarrow> nat \<Rightarrow> nat \<Rightarrow> 's \<Rightarrow> 's \<times> (store_error + bool)" where
  "alert_attempts rd drifted cas keep others strict doc 0 n s =
     (s, if strict then Inl AlertCasExhausted else Inr False)"
| "alert_attempts rd drifted cas keep others strict doc (Suc attempts) n s =
     (case rd s of
        None \<Rightarrow>
          (let s = others n s
           in if drifted s then (s, Inr False)
              else (let (s', created) = cas doc None (others (Suc n) s) in (s', Inr created)))
      | Some (existing, version) \<Rightarrow>
          (let (s', ok) = cas (keep existing doc) (Some version) (others n s)
           in if ok then (s', Inr False)
              else alert_attempts rd drifted cas keep others strict doc attempts (n + 2)
                     (if attempts = 0 then s' else others (Suc n) s')))"

text \<open>\<open>merged = dict(doc)\<close> with the stored \<open>triage\<close> carried over.\<close>

definition keep_triage :: "event \<Rightarrow> event \<Rightarrow> event" where
  "keep_triage existing doc =
     (if dget existing ''triage'' \<noteq> PNone then od_set doc ''triage'' (dget existing ''triage'') else doc)"

definition drift_of :: "string \<Rightarrow> string \<Rightarrow> store \<Rightarrow> bool" where
  "drift_of i x s = (case find_alert_versioned s x of None \<Rightarrow> False | Some (j, _) \<Rightarrow> j \<noteq> i)"

definition write_alert ::
    "(nat \<Rightarrow> store \<Rightarrow> store) \<Rightarrow> bool \<Rightarrow> string \<Rightarrow> string \<Rightarrow> event \<Rightarrow> store \<Rightarrow> store \<times> (store_error + bool)" where
  "write_alert others strict i x doc s =
     alert_attempts (\<lambda>s. read_at s (i, x)) (drift_of i x) (cas_at (i, x)) keep_triage others strict doc
       alert_cas_max_retries 0 s"

subsection \<open>One document\<close>

definition index_doc ::
    "host \<Rightarrow> int \<Rightarrow> (nat \<Rightarrow> store \<Rightarrow> store) \<Rightarrow> event \<Rightarrow> bool \<Rightarrow> bool \<Rightarrow> store \<Rightarrow> store \<times> (store_error + bool)" where
  "index_doc ho now others doc create_only strict s =
     (case route ho now doc of
        Inl e \<Rightarrow> (s, Inl (Py e))
      | Inr (i, x) \<Rightarrow>
          if create_only then (let (s', new) = put_if_absent i x doc s in (s', Inr new))
          else if has_key doc ''alert_id'' then write_alert others strict i x doc s
          else (let (s', new) = put i x doc s in (s', Inr new)))"

text \<open>The daemon's handler for one payload: an unroutable document is dropped.\<close>

definition handle_one ::
    "host \<Rightarrow> int \<Rightarrow> (nat \<Rightarrow> store \<Rightarrow> store) \<Rightarrow> bool \<Rightarrow> event \<Rightarrow> store \<Rightarrow> store \<times> store_error option" where
  "handle_one ho now others create_only doc s =
     (case index_doc ho now others doc create_only True s of
        (s', Inr _) \<Rightarrow> (s', None)
      | (s', Inl (Py ValueError)) \<Rightarrow> (s', None)
      | (s', Inl e) \<Rightarrow> (s', Some e))"


definition create_only_topic :: "string \<Rightarrow> bool" where
  "create_only_topic t \<longleftrightarrow> t = ''normalized.events''"

subsection \<open>The batch drain\<close>

record drain_stats =
  ds_indexed :: nat
  ds_duplicates :: nat
  ds_unroutable :: nat

fun drain_msgs ::
    "host \<Rightarrow> int \<Rightarrow> event list \<Rightarrow> store \<Rightarrow> drain_stats \<Rightarrow> store \<times> (store_error + drain_stats)" where
  "drain_msgs ho now [] s st = (s, Inr st)"
| "drain_msgs ho now (m # ms) s st =
     (case index_doc ho now (\<lambda>n s. s) m False False s of
        (s', Inr created) \<Rightarrow>
          drain_msgs ho now ms s'
            (if created then st\<lparr>ds_indexed := ds_indexed st + 1\<rparr>
             else st\<lparr>ds_duplicates := ds_duplicates st + 1\<rparr>)
      | (s', Inl (Py ValueError)) \<Rightarrow> drain_msgs ho now ms s' (st\<lparr>ds_unroutable := ds_unroutable st + 1\<rparr>)
      | (s', Inl e) \<Rightarrow> (s', Inl e))"



subsection \<open>The alert write is one atomic update\<close>

text \<open>The moves of the other writers between two points of the run.\<close>

definition moved :: "(nat \<Rightarrow> 's \<Rightarrow> 's) \<Rightarrow> nat \<Rightarrow> nat \<Rightarrow> 's \<Rightarrow> 's" where
  "moved others m n s = fold others [m..<n] s"

lemma moved_simps [simp]:
  "moved others n n s = s" "m \<le> n \<Longrightarrow> moved others m (Suc n) s = others n (moved others m n s)"
  by (simp_all add: moved_def)

lemma moved_step: "m < n \<Longrightarrow> moved others m n s = moved others (Suc m) n (others m s)"
  by (simp add: moved_def upt_conv_Cons)

context versioned_store
begin

lemma alert_attempts_linear:
  assumes "\<And>n s. good s \<Longrightarrow> moves s (others n s)" "good s" "rd s k \<noteq> None"
    "alert_attempts (\<lambda>s. rd s k) drifted (cas k) keep others strict doc a n s = (s', r)"
  shows "(\<exists>m cur v. n \<le> m \<and> rd (moved others n m s) k = Some (cur, v) \<and> r = Inr False \<and>
            cas k (keep cur doc) (Some v) (moved others n m s) = (s', True)) \<or>
         (\<exists>m. n \<le> m \<and> s' = moved others n m s) \<and> r = (if strict then Inl AlertCasExhausted else Inr False)"
  using assms(2-4)
proof (induction a arbitrary: n s)
  case 0
  then have "s' = moved others n n s" by simp
  with 0 show ?case by auto
next
  case (Suc a)
  obtain cur v where rd: "rd s k = Some (cur, v)" using Suc.prems(2) by auto
  have mv: "moves s (others n s)" by (rule assms(1) [OF Suc.prems(1)])
  note g = moves_good [OF Suc.prems(1) mv]
  consider (lands) t where "cas k (keep cur doc) (Some v) (others n s) = (t, True)" "rd (others n s) k = Some (cur, v)"
    | (refused) "cas k (keep cur doc) (Some v) (others n s) = (others n s, False)"
    using cas_verdict [OF Suc.prems(1) mv rd, of "keep cur doc"] by blast
  then show ?case
  proof cases
    case lands
    with Suc.prems(3) rd have "s' = t" "r = Inr False" by auto
    moreover have "moved others n (Suc n) s = others n s" by simp
    ultimately show ?thesis using lands by (metis le_SucI order_refl)
  next
    case refused
    show ?thesis
    proof (cases a)
      case 0
      with refused Suc.prems(3) rd have "s' = moved others n (Suc n) s"
        "r = (if strict then Inl AlertCasExhausted else Inr False)" by (auto split: if_splits)
      then show ?thesis by (metis le_SucI order_refl)
    next
      case (Suc a')
      let ?t = "others (Suc n) (others n s)"
      have mv2: "moves (others n s) ?t" by (rule assms(1) [OF g])
      have t: "good ?t" "rd ?t k \<noteq> None"
        using moves_good [OF g mv2] read_stays [OF g mv2] read_stays [OF \<open>good s\<close> mv \<open>rd s k \<noteq> None\<close>] by auto
      have eq: "alert_attempts (\<lambda>s. rd s k) drifted (cas k) keep others strict doc a (n + 2) ?t = (s', r)"
        using refused Suc.prems(3) rd Suc by (simp add: numeral_2_eq_2)
      have shift: "moved others (n + 2) m ?t = moved others n m s" if "n + 2 \<le> m" for m
        using that moved_step [of n m others s] moved_step [of "Suc n" m others "others n s"] by simp
      from Suc.IH [OF t eq] shift show ?thesis
        by (metis add_leD1)
    qed
  qed
qed

end

lemma reaches_refl: "reaches s s"
  unfolding reaches_def by (metis store_run_simps(1))

lemma moved_good:
  assumes "\<And>n s. store_ok s \<Longrightarrow> reaches s (others n s)" "store_ok s" "n \<le> m"
  shows "store_ok (moved others n m s) \<and> reaches s (moved others n m s)"
  using assms(3)
proof (induction m rule: dec_induct)
  case base
  show ?case using assms(2) reaches_refl by simp
next
  case (step m)
  then show ?case using assms(1) [of "moved others n m s" m] mem.moves_good mem.moves_trans by auto
qed

text \<open>C4. Writing an alert that is already stored is one atomic update, whatever other writers do meanwhile:
either at some point of the run the new payload replaces the stored document and carries over the
triage stored at that very point, or every attempt was refused and nothing of this write is stored,
which the daemon reports as a failure.\<close>

theorem alert_write_atomic:
  assumes "\<And>n s. store_ok s \<Longrightarrow> reaches s (others n s)" "store_ok s" "get_doc s i x = Some d0"
  shows "case write_alert others strict i x doc s of (s', r) \<Rightarrow>
    (\<exists>m d. let t = moved others 0 m s in
       get_doc t i x = Some d \<and> s' = fst (put i x (keep_triage d doc) t) \<and> r = Inr False) \<or>
    (\<exists>m. s' = moved others 0 m s) \<and> r = (if strict then Inl AlertCasExhausted else Inr False)"
proof -
  obtain s' r where w: "write_alert others strict i x doc s = (s', r)" by fastforce
  have rd: "read_at s (i, x) \<noteq> None" using assms(3) by (simp add: read_at_def get_versioned_def)
  consider (lands) m cur v where "read_at (moved others 0 m s) (i, x) = Some (cur, v)" "r = Inr False"
      "cas_at (i, x) (keep_triage cur doc) (Some v) (moved others 0 m s) = (s', True)"
    | (refused) "\<exists>m. s' = moved others 0 m s" "r = (if strict then Inl AlertCasExhausted else Inr False)"
    using mem.alert_attempts_linear [OF assms(1,2) rd w [unfolded write_alert_def]] by blast
  then show ?thesis
  proof cases
    case lands
    let ?t = "moved others 0 m s"
    have "get_doc ?t i x = Some cur" using lands(1)
      by (auto simp: read_at_def get_versioned_def split: option.splits)
    moreover have "s' = fst (put i x (keep_triage cur doc) ?t)"
      using lands(3) by (auto simp: cas_at_def index_cas_def split: if_splits)
    ultimately show ?thesis using w lands(2) by (auto simp: Let_def)
  qed (use w in auto)
qed

definition triaged :: event where
  "triaged = [(''alert_id'', PStr ''a1''), (''triage'', PStr ''closed'')]"

definition seen_before :: store where
  "seen_before = fst (put ''alerts-d'' ''a1'' [(''alert_id'', PStr ''a1'')] store0)"

text \<open>An analyst who closes the alert between the first read and the write.\<close>

definition analyst :: "nat \<Rightarrow> store \<Rightarrow> store" where
  "analyst n s = (if n = 0 then fst (put ''alerts-d'' ''a1'' triaged s) else s)"

theorem alert_write_atomic_witness:
  "snd (write_alert analyst True ''alerts-d'' ''a1'' [(''alert_id'', PStr ''a1'')] seen_before) = Inr False \<and>
   get_doc (fst (write_alert analyst True ''alerts-d'' ''a1'' [(''alert_id'', PStr ''a1'')] seen_before)) ''alerts-d'' ''a1''
     = Some triaged"
proof -
  let ?w = "write_alert analyst True ''alerts-d'' ''a1'' [(''alert_id'', PStr ''a1'')] seen_before"
  have "reaches s (analyst n s)" for n s
    unfolding reaches_def analyst_def
    by (metis store_run_simps(1,2) store_step.simps(3))
  moreover have "store_ok seen_before" unfolding seen_before_def by (intro store_ok_put store_ok_empty)
  moreover have "get_doc seen_before ''alerts-d'' ''a1'' = Some [(''alert_id'', PStr ''a1'')]" by code_simp
  ultimately have "case ?w of (s', r) \<Rightarrow>
    (\<exists>m d. let t = moved analyst 0 m seen_before in
       get_doc t ''alerts-d'' ''a1'' = Some d \<and>
       s' = fst (put ''alerts-d'' ''a1'' (keep_triage d [(''alert_id'', PStr ''a1'')]) t) \<and> r = Inr False) \<or>
    (\<exists>m. s' = moved analyst 0 m seen_before) \<and> r = (if True then Inl AlertCasExhausted else Inr False)"
    by (intro alert_write_atomic)
  moreover have "snd ?w = Inr False" by code_simp
  moreover have "get_doc (fst ?w) ''alerts-d'' ''a1'' = Some triaged" by code_simp
  ultimately show ?thesis by simp
qed



subsection \<open>Two copies of an event\<close>

text \<open>Deliveries in the order the store sees them; the flag is that of a create-only topic.\<close>

definition deliver :: "host \<Rightarrow> int \<Rightarrow> (bool \<times> event) list \<Rightarrow> store \<Rightarrow> store" where
  "deliver ho now ds s = fold (\<lambda>(c, d) s. fst (handle_one ho now (\<lambda>n s. s) c d s)) ds s"

lemma handle_one_plain:
  assumes "\<not> has_key d ''alert_id''"
  shows "fst (handle_one ho now others c d s) =
    (case route ho now d of Inl e \<Rightarrow> s
     | Inr (i, x) \<Rightarrow> if c then fst (put_if_absent i x d s) else fst (put i x d s))"
  using assms
  by (auto simp: handle_one_def index_doc_def split: sum.splits prod.splits store_error.splits py_exn.splits)

text \<open>C14. The scored copy of an event is never overwritten by the raw one, in whatever order, and however often,
the two topics deliver it: the stored document is the last full write of that id, and a create-only
write matters only when nothing was stored.\<close>

theorem scored_copy_survives:
  assumes "\<forall>(c, d)\<in>set ds. \<not> has_key d ''alert_id''"
  shows "get_doc (deliver ho now ds s) i x =
    (let mine = filter (\<lambda>(c, d). route ho now d = Inr (i, x)) ds;
         full = filter (\<lambda>(c, d). \<not> c) mine
     in if full \<noteq> [] then Some (snd (last full))
        else if get_doc s i x \<noteq> None then get_doc s i x
        else if mine \<noteq> [] then Some (snd (hd mine)) else None)"
  using assms
proof (induction ds rule: rev_induct)
  case Nil
  show ?case by (simp add: deliver_def)
next
  case (snoc cd ds)
  obtain c d where cd: "cd = (c, d)" by fastforce
  let ?t = "deliver ho now ds s"
  have "\<not> has_key d ''alert_id''" using snoc.prems cd by auto
  then have step: "deliver ho now (ds @ [cd]) s =
    (case route ho now d of Inl e \<Rightarrow> ?t
     | Inr (i, x) \<Rightarrow> if c then fst (put_if_absent i x d ?t) else fst (put i x d ?t))"
    by (simp add: deliver_def cd handle_one_plain split: sum.splits)
  have IH: "get_doc ?t i x =
    (let mine = filter (\<lambda>(c, d). route ho now d = Inr (i, x)) ds; full = filter (\<lambda>(c, d). \<not> c) mine
     in if full \<noteq> [] then Some (snd (last full))
        else if get_doc s i x \<noteq> None then get_doc s i x
        else if mine \<noteq> [] then Some (snd (hd mine)) else None)"
    using snoc by simp
  show ?case
  proof (cases "route ho now d = Inr (i, x)")
    case False
    then have "get_doc (deliver ho now (ds @ [cd]) s) i x = get_doc ?t i x"
      unfolding step by (auto simp: store_simps put_if_absent_def split: sum.splits)
    with IH False cd show ?thesis by simp
  next
    case True
    then have "get_doc (deliver ho now (ds @ [cd]) s) i x =
        (if c \<and> get_doc ?t i x \<noteq> None then get_doc ?t i x else Some d)"
      unfolding step by (auto simp: store_simps put_if_absent_def get_doc_def)
    with IH True cd show ?thesis
      by (auto simp: Let_def filter_empty_conv hd_append split: if_splits)
  qed
qed

definition raw_copy :: event where
  "raw_copy = [(''siem'', PDict [(''sector'', PStr ''bank''), (''ingest_id'', PStr ''e1'')]), (''time'', PInt 1000)]"

definition scored_copy :: event where
  "scored_copy = [(''siem'', PDict [(''sector'', PStr ''bank''), (''ingest_id'', PStr ''e1''), (''score'', PInt 9)]),
     (''time'', PInt 1000)]"

theorem scored_copy_survives_witness:
  "\<forall>ho. get_doc (deliver ho 0 [(False, scored_copy), (True, raw_copy)] store0) ''events-bank-1970.01.01'' ''e1'' = Some scored_copy"
proof
  fix ho
  have r: "route ho 0 raw_copy = Inr (''events-bank-1970.01.01'', ''e1'')"
    "route ho 0 scored_copy = Inr (''events-bank-1970.01.01'', ''e1'')" by code_simp+
  have "\<forall>(c, d)\<in>set [(False, scored_copy), (True, raw_copy)]. \<not> has_key d ''alert_id''" by code_simp
  from scored_copy_survives [OF this, of ho 0 store0 "''events-bank-1970.01.01''" "''e1''"]
  show "get_doc (deliver ho 0 [(False, scored_copy), (True, raw_copy)] store0) ''events-bank-1970.01.01'' ''e1'' = Some scored_copy"
    by (simp add: r)
qed

subsection \<open>The drain\<close>







text \<open>A document whose \<open>siem\<close> is a list is not "unroutable": the router raises AttributeError, which
neither the handler nor the drain catches, and the documents after it in the drain are not indexed.\<close>

definition poison :: event where
  "poison = [(''siem'', PList [PInt 1])]"

theorem poison_aborts_drain:
  "\<forall>ho. snd (handle_one ho 0 (\<lambda>n s. s) True poison store0) = Some (Py AttributeError) \<and>
     (case drain_msgs ho 0 [poison, raw_copy] store0 \<lparr>ds_indexed = 0, ds_duplicates = 0, ds_unroutable = 0\<rparr> of
        (s, r) \<Rightarrow> r = Inl (Py AttributeError) \<and> get_doc s ''events-bank-1970.01.01'' ''e1'' = None)"
proof
  fix ho
  have "snd (handle_one ho 0 (\<lambda>n s. s) True poison store0) = Some (Py AttributeError)" by code_simp
  moreover have "case drain_msgs ho 0 [poison, raw_copy] store0 \<lparr>ds_indexed = 0, ds_duplicates = 0, ds_unroutable = 0\<rparr> of
        (s, r) \<Rightarrow> r = Inl (Py AttributeError) \<and> get_doc s ''events-bank-1970.01.01'' ''e1'' = None" by code_simp
  ultimately show "snd (handle_one ho 0 (\<lambda>n s. s) True poison store0) = Some (Py AttributeError) \<and>
     (case drain_msgs ho 0 [poison, raw_copy] store0 \<lparr>ds_indexed = 0, ds_duplicates = 0, ds_unroutable = 0\<rparr> of
        (s, r) \<Rightarrow> r = Inl (Py AttributeError) \<and> get_doc s ''events-bank-1970.01.01'' ''e1'' = None)" by blast
qed

end
