(* ===== verification/Bulk.thy ===== *)
theory Bulk
  imports Indexer
begin

text \<open>
  \<open>BatchIndexHandler\<close> of \<open>src/services/ws3-indexer/main.py\<close>: a read pass of one topic written as one bulk
  request. The search server is not part of the repository: its bulk and multi-get requests are the
  arguments \<open>bulk\<close> and \<open>mget\<close> (None: the request itself failed), and what the handler relies on is the
  locale \<open>bulk_server\<close>. Counters and pauses are not modelled.
\<close>

subsection \<open>Items\<close>

type_synonym key = "string \<times> string"

record item =
  it_pos :: "nat list"
  it_create :: bool
  it_key :: key
  it_doc :: event
  it_version :: "nat option"
  it_orig :: event

text \<open>One item of a bulk request: create or index, the key, the document, the expected version.\<close>

type_synonym bulk_op = "bool \<times> key \<times> event \<times> nat option"

type_synonym 's bulk = "bulk_op list \<Rightarrow> 's \<Rightarrow> 's \<times> nat list option"

datatype bulk_error = Rejected nat | Read_failed | Fallback_failed store_error | Request_failed

type_synonym results = "bulk_error option list"

definition retryable :: "nat set" where
  "retryable = {429, 500, 502, 503, 504}"

definition op_of :: "item \<Rightarrow> bulk_op" where
  "op_of it = (it_create it, it_key it, it_doc it, it_version it)"

text \<open>\<open>for pos in positions: results[pos] = err\<close>.\<close>

definition fail_at :: "bulk_error \<Rightarrow> nat list \<Rightarrow> results \<Rightarrow> results" where
  "fail_at err ps rs = fold (\<lambda>p rs. rs[p := Some err]) ps rs"

subsection \<open>One item per key\<close>



subsection \<open>The flush loop\<close>

text \<open>
  The verdict on one item: done, handed to the per-document path (with its original payload), to be
  retried, or failed at its positions.
\<close>

type_synonym fallback = "(nat list \<times> key \<times> event) list"

fun judge ::
    "nat \<Rightarrow> nat \<Rightarrow> bool \<Rightarrow> (item \<times> nat) list \<Rightarrow> results \<Rightarrow> fallback \<Rightarrow> item list \<times> results \<times> fallback" where
  "judge retries attempt failed [] rs fb = ([], rs, fb)"
| "judge retries attempt failed ((it, status) # rest) rs fb =
     (if status < 300 \<or> status = 409 \<and> it_create it then judge retries attempt failed rest rs fb
      else if status = 409 \<and> it_version it \<noteq> None
      then judge retries attempt failed rest rs (fb @ [(it_pos it, it_key it, it_orig it)])
      else if status \<in> retryable \<and> attempt < retries
      then (let (again, out) = judge retries attempt failed rest rs fb in (it # again, out))
      else judge retries attempt failed rest
             (fail_at (if failed then Request_failed else Rejected status) (it_pos it) rs) fb)"

function flush ::
    "'s bulk \<Rightarrow> nat \<Rightarrow> nat \<Rightarrow> item list \<Rightarrow> results \<Rightarrow> fallback \<Rightarrow> 's \<Rightarrow> 's \<times> results \<times> fallback" where
  "flush bulk retries attempt pending rs fb s =
     (if pending = [] then (s, rs, fb)
      else
        (let (s', answer) = bulk (map op_of pending) s;
             statuses = (case answer of None \<Rightarrow> replicate (length pending) 503 | Some os \<Rightarrow> os);
             (again, rs', fb') = judge retries attempt (answer = None) (zip pending statuses) rs fb
         in if again = [] then (s', rs', fb')
            else if attempt < retries then flush bulk retries (attempt + 1) again rs' fb' s'
            else (s', rs', fb')))"
  by pat_completeness auto
termination by (relation "measure (\<lambda>(b, retries, attempt, p, rs, fb, s). retries - attempt)") auto

subsection \<open>Alerts in a batch\<close>






subsection \<open>The batch\<close>





subsection \<open>What an acknowledgement means\<close>


text \<open>A position with its key is still on its way, stored, or reported as failed.\<close>

definition pends :: "item list \<Rightarrow> nat \<Rightarrow> key \<Rightarrow> bool" where
  "pends pending i k \<longleftrightarrow> (\<exists>it\<in>set pending. i \<in> set (it_pos it) \<and> it_key it = k)"


lemma fail_at_nth:
  "length (fail_at e ps rs) = length rs"
  "i < length rs \<Longrightarrow> fail_at e ps rs ! i = (if i \<in> set ps then Some e else rs ! i)"
proof -
  have "length (fail_at e ps rs) = length rs \<and>
    (i < length rs \<longrightarrow> fail_at e ps rs ! i = (if i \<in> set ps then Some e else rs ! i))"
    unfolding fail_at_def by (induction ps arbitrary: rs) auto
  then show "length (fail_at e ps rs) = length rs"
    "i < length rs \<Longrightarrow> fail_at e ps rs ! i = (if i \<in> set ps then Some e else rs ! i)" by blast+
qed


lemma pends_simps [simp]:
  "\<not> pends [] i k" "pends (it # xs) i k \<longleftrightarrow> i \<in> set (it_pos it) \<and> it_key it = k \<or> pends xs i k"
  by (auto simp: pends_def)


























lemma judge_refused:
  "attempt < retries \<Longrightarrow> judge retries attempt failed (map (\<lambda>it. (it, 503)) pending) rs fb = (pending, rs, fb)"
  "\<not> attempt < retries \<Longrightarrow> judge retries attempt True (map (\<lambda>it. (it, 503)) pending) rs fb =
     ([], fold (\<lambda>it. fail_at Request_failed (it_pos it)) pending rs, fb)"
  by (induction pending arbitrary: rs) (auto simp: retryable_def)

lemma fail_all:
  "p < length rs \<Longrightarrow> rs ! p \<noteq> None \<or> (\<exists>it\<in>set pending. p \<in> set (it_pos it)) \<Longrightarrow>
     fold (\<lambda>it. fail_at e (it_pos it)) pending rs ! p \<noteq> None"
proof (induction pending arbitrary: rs)
  case (Cons it pending)
  have "fail_at e (it_pos it) rs ! p \<noteq> None \<or> (\<exists>it\<in>set pending. p \<in> set (it_pos it))"
    using Cons.prems by (auto simp: fail_at_nth(2))
  with Cons.IH [of "fail_at e (it_pos it) rs"] Cons.prems(1) show ?case by (simp add: fail_at_nth(1))
qed simp

text \<open>C38. Retrying ends: when every bulk request breaks off, the loop still returns, every payload it was sent
has an error and nothing was written.\<close>

theorem dead_server_acks_nothing:
  assumes "\<forall>ops s. bulk ops s = (s, None)" "\<forall>it\<in>set pending. \<forall>p\<in>set (it_pos it). p < length rs"
  shows "case flush bulk retries attempt pending rs [] s of (s', rs', fb) \<Rightarrow>
     s' = s \<and> fb = [] \<and> (\<forall>it\<in>set pending. \<forall>p\<in>set (it_pos it). rs' ! p \<noteq> None)"
proof (induction "retries - attempt" arbitrary: attempt rule: less_induct)
  case less
  have z: "zip pending (replicate (length pending) 503) = map (\<lambda>it. (it, 503)) pending"
    by (induction pending) auto
  show ?case
  proof (cases "pending = [] \<or> \<not> attempt < retries")
    case True
    have "fold (\<lambda>it. fail_at Request_failed (it_pos it)) pending rs ! p \<noteq> None"
      if "it \<in> set pending" "p \<in> set (it_pos it)" for it p
      using assms(2) that by (intro fail_all) auto
    with True assms(1) show ?thesis
      by (subst flush.simps) (auto simp: z judge_refused(2))
  next
    case False
    then have "retries - (attempt + 1) < retries - attempt" by auto
    from less [OF this] False assms show ?thesis
      by (subst flush.simps) (simp add: z judge_refused(1))
  qed
qed

definition no_server :: "unit bulk" where
  "no_server ops s = (s, None)"

definition one_item :: item where
  "one_item = \<lparr>it_pos = [0], it_create = True, it_key = (''i'', ''x''), it_doc = [], it_version = None, it_orig = []\<rparr>"

theorem dead_server_acks_nothing_witness:
  "fst (snd (flush no_server 2 0 [one_item] [None] [] ())) ! 0 \<noteq> None"
proof -
  have "\<forall>ops s. no_server ops s = (s, None)" "\<forall>it\<in>set [one_item]. \<forall>p\<in>set (it_pos it). p < length [None :: bulk_error option]"
    by (simp_all add: no_server_def one_item_def)
  from dead_server_acks_nothing [OF this, where retries = 2 and attempt = 0 and s = "()"] show ?thesis
    by (auto simp: one_item_def split: prod.splits)
qed

end
