(* ===== verification/Mfa.thy ===== *)
theory Mfa
  imports PyVal "HOL-Library.Word"
begin

unbundle bit_operations_syntax

text \<open>
  \<open>src/services/shared/mfa.py\<close>: time-based one-time passwords (RFC 6238). Bytes are words of 8 bits. The
  keyed hash of the standard library is the argument \<open>mac\<close> (HMAC-SHA1, 20 bytes); base32 and the dynamic
  truncation are written out. A character is a code point below 256, so the digits outside ASCII that
  \<open>str.isdigit\<close> accepts are the three superscripts of Latin-1.
\<close>

subsection \<open>Base32\<close>

definition alphabet :: string where
  "alphabet = ''ABCDEFGHIJKLMNOPQRSTUVWXYZ234567''"

text \<open>The bits of a number, most significant first.\<close>

fun to_bits :: "nat \<Rightarrow> nat \<Rightarrow> bool list" where
  "to_bits 0 n = []"
| "to_bits (Suc w) n = to_bits w (n div 2) @ [odd n]"

definition of_bits :: "bool list \<Rightarrow> nat" where
  "of_bits bs = foldl (\<lambda>n b. 2 * n + (if b then 1 else 0)) 0 bs"

fun groups :: "nat \<Rightarrow> nat \<Rightarrow> 'a list \<Rightarrow> 'a list list" where
  "groups w 0 xs = []"
| "groups w (Suc n) xs = take w xs # groups w n (drop w xs)"

definition bytes_bits :: "8 word list \<Rightarrow> bool list" where
  "bytes_bits bs = concat (map (\<lambda>b. to_bits 8 (unat b)) bs)"

definition bits_bytes :: "nat \<Rightarrow> bool list \<Rightarrow> 8 word list" where
  "bits_bytes n bits = map (\<lambda>g. word_of_nat (of_bits g)) (groups 8 n bits)"

text \<open>\<open>b32encode(bs).rstrip("=")\<close>: the last group is filled with zero bits.\<close>

definition b32_text :: "8 word list \<Rightarrow> string" where
  "b32_text bs =
     (let bits = bytes_bits bs; n = (length bits + 4) div 5
      in map (\<lambda>g. alphabet ! of_bits g) (groups 5 n (bits @ replicate (5 * n - length bits) False)))"

fun index_of_char :: "char \<Rightarrow> string \<Rightarrow> nat option" where
  "index_of_char c [] = None"
| "index_of_char c (x # xs) = (if x = c then Some 0 else map_option Suc (index_of_char c xs))"

fun char_values :: "string \<Rightarrow> nat list option" where
  "char_values [] = Some []"
| "char_values (c # cs) =
     (case index_of_char c alphabet of
        None \<Rightarrow> None
      | Some v \<Rightarrow> map_option (Cons v) (char_values cs))"

text \<open>
  \<open>b32decode\<close> of a text without padding, as long as the padding it was given: a length that no encoding
  has, or a character outside the alphabet, raises \<open>binascii.Error\<close>, a ValueError.
\<close>

definition b32_bytes :: "string \<Rightarrow> (8 word list) py" where
  "b32_bytes s =
     (case char_values s of
        None \<Rightarrow> Inl ValueError
      | Some vs \<Rightarrow>
          if length s mod 8 \<notin> {0, 2, 4, 5, 7} then Inl ValueError
          else Inr (bits_bytes (5 * length s div 8) (concat (map (to_bits 5) vs))))"

definition upper_char :: "char \<Rightarrow> char" where
  "upper_char c = (if is_lower c then char_of (ord c - 32) else c)"

definition rstrip_eq :: "string \<Rightarrow> string" where
  "rstrip_eq s = rev (dropWhile (\<lambda>c. c = CHR ''='') (rev s))"

definition normalize_key :: "string \<Rightarrow> (8 word list) py" where
  "normalize_key secret = b32_bytes (rstrip_eq (strip (map upper_char secret)))"

text \<open>\<open>generate_secret\<close>, with the random bytes as an argument.\<close>

definition generate_secret :: "8 word list \<Rightarrow> string" where
  "generate_secret random = b32_text random"

subsection \<open>Codes\<close>

type_synonym mac = "8 word list \<Rightarrow> 8 word list \<Rightarrow> 8 word list"

definition step_seconds :: int where
  "step_seconds = 30"

text \<open>\<open>counter.to_bytes(8, "big")\<close>.\<close>

definition counter_bytes :: "int \<Rightarrow> (8 word list) py" where
  "counter_bytes c =
     (if c < 0 \<or> 2 ^ 64 \<le> c then Inl OverflowError
      else Inr (map (\<lambda>k. word_of_int (c div 256 ^ k)) [7, 6, 5, 4, 3, 2, 1, 0]))"

text \<open>The 31-bit dynamic binary code, from the four bytes at the offset in the last byte.\<close>

definition truncate :: "8 word list \<Rightarrow> 32 word" where
  "truncate hs =
     (let offset = unat (last hs AND 15);
          byte = (\<lambda>k. ucast (hs ! (offset + k)) :: 32 word)
      in (push_bit 24 (byte 0) OR push_bit 16 (byte 1) OR push_bit 8 (byte 2) OR byte 3) AND 0x7FFFFFFF)"

text \<open>\<open>f"{n:06d}"\<close> of a number below a million.\<close>

definition six_digits :: "nat \<Rightarrow> string" where
  "six_digits n = map (\<lambda>k. char_of (48 + n div 10 ^ k mod 10)) [5, 4, 3, 2, 1, 0]"

definition code_for_counter :: "mac \<Rightarrow> string \<Rightarrow> int \<Rightarrow> string py" where
  "code_for_counter mac secret counter =
     py_bind (normalize_key secret) (\<lambda>key.
     py_bind (counter_bytes counter) (\<lambda>msg.
     Inr (six_digits (unat (truncate (mac key msg)) mod 1000000))))"

definition counter_at :: "rat \<Rightarrow> int" where
  "counter_at now = \<lfloor>now / of_int step_seconds\<rfloor>"

definition generate_code :: "mac \<Rightarrow> string \<Rightarrow> rat \<Rightarrow> string py" where
  "generate_code mac secret now = code_for_counter mac secret (counter_at now)"

definition py_isdigit :: "char \<Rightarrow> bool" where
  "py_isdigit c \<longleftrightarrow> is_digit c \<or> ord c \<in> {178, 179, 185}"

text \<open>\<open>hmac.compare_digest\<close> of two strings takes ASCII only.\<close>

definition compare_digest :: "string \<Rightarrow> string \<Rightarrow> bool py" where
  "compare_digest a b = (if \<exists>c\<in>set (a @ b). 128 \<le> ord c then Inl TypeError else Inr (a = b))"

fun try_counters :: "mac \<Rightarrow> string \<Rightarrow> string \<Rightarrow> int list \<Rightarrow> int option py" where
  "try_counters mac secret code [] = Inr None"
| "try_counters mac secret code (c # cs) =
     py_bind (code_for_counter mac secret c) (\<lambda>expected.
     py_bind (compare_digest expected code) (\<lambda>same.
     if same then Inr (Some c) else try_counters mac secret code cs))"

definition verify_code_returning_counter :: "mac \<Rightarrow> string \<Rightarrow> pyval \<Rightarrow> nat \<Rightarrow> rat \<Rightarrow> int option py" where
  "verify_code_returning_counter mac secret code window now =
     (case code of
        PStr s \<Rightarrow>
          if length s \<noteq> 6 \<or> \<not> (\<forall>c\<in>set s. py_isdigit c) then Inr None
          else try_counters mac secret s (map (\<lambda>k. counter_at now + k) [- int window .. int window])
      | _ \<Rightarrow> Inr None)"

definition verify_code :: "mac \<Rightarrow> string \<Rightarrow> pyval \<Rightarrow> nat \<Rightarrow> rat \<Rightarrow> bool py" where
  "verify_code mac secret code window now =
     py_bind (verify_code_returning_counter mac secret code window now) (\<lambda>r. Inr (r \<noteq> None))"

subsection \<open>Secrets come back\<close>

lemma length_to_bits [simp]: "length (to_bits w n) = w"
  by (induction w n rule: to_bits.induct) auto

lemma of_bits_snoc [simp]: "of_bits (bs @ [b]) = 2 * of_bits bs + (if b then 1 else 0)"
  by (simp add: of_bits_def)

lemma of_to_bits: "of_bits (to_bits w n) = n mod 2 ^ w"
proof (induction w n rule: to_bits.induct)
  case (2 w n)
  have "n mod (2 * 2 ^ w) = 2 * (n div 2 mod 2 ^ w) + n mod 2" by (rule mod_mult2_eq)
  with 2 show ?case by (auto simp: odd_iff_mod_2_eq_one even_iff_mod_2_eq_zero)
qed (simp add: of_bits_def)

lemma to_of_bits: "length bs = w \<Longrightarrow> to_bits w (of_bits bs) = bs"
proof (induction bs arbitrary: w rule: rev_induct)
  case (snoc b bs)
  then show ?case by auto
qed simp

lemma bits_again: "\<forall>g\<in>set gs. length g = w \<Longrightarrow> map (to_bits w) (map of_bits gs) = gs"
  by (induction gs) (auto simp: to_of_bits)

lemma of_bits_less: "of_bits bs < 2 ^ length bs"
  by (induction bs rule: rev_induct) (auto simp: of_bits_def)

lemma concat_groups: "concat (groups w n xs) = take (w * n) xs"
  by (induction w n xs rule: groups.induct) (simp_all add: take_add [symmetric] ac_simps)

lemma length_in_groups: "w * n \<le> length xs \<Longrightarrow> g \<in> set (groups w n xs) \<Longrightarrow> length g = w"
proof (induction n arbitrary: xs)
  case (Suc n)
  have le: "w + w * n \<le> length xs" using Suc.prems(1) by simp
  then have "w * n \<le> length (drop w xs)" unfolding length_drop by linarith
  note IH = Suc.IH [OF this]
  have "length (take w xs) = w" using le unfolding length_take by linarith
  with IH Suc.prems(2) show ?case by auto
qed simp

lemma groups_concat: "\<forall>g\<in>set gs. length g = w \<Longrightarrow> groups w (length gs) (concat gs @ rest) = gs"
  by (induction gs) auto

lemma length_groups [simp]: "length (groups w n xs) = n"
  by (induction w n xs rule: groups.induct) auto

lemma alphabet_facts:
  assumes "k < 32"
  shows "index_of_char (alphabet ! k) alphabet = Some k" "upper_char (alphabet ! k) = alphabet ! k"
    "\<not> is_space (alphabet ! k)" "alphabet ! k \<noteq> CHR ''=''"
proof -
  have "list_all (\<lambda>k. index_of_char (alphabet ! k) alphabet = Some k \<and> upper_char (alphabet ! k) = alphabet ! k \<and>
      \<not> is_space (alphabet ! k) \<and> alphabet ! k \<noteq> CHR ''='') [0..<32]" by code_simp
  moreover have "k \<in> set [0..<32]" using assms by simp
  ultimately show "index_of_char (alphabet ! k) alphabet = Some k" "upper_char (alphabet ! k) = alphabet ! k"
    "\<not> is_space (alphabet ! k)" "alphabet ! k \<noteq> CHR ''=''" unfolding list_all_iff by blast+
qed

lemma char_values_text: "\<forall>v\<in>set vs. v < 32 \<Longrightarrow> char_values (map (\<lambda>v. alphabet ! v) vs) = Some vs"
  by (induction vs) (auto simp: alphabet_facts)

lemma normalize_text:
  assumes "\<forall>v\<in>set vs. v < 32"
  shows "normalize_key (map (\<lambda>v. alphabet ! v) vs) = b32_bytes (map (\<lambda>v. alphabet ! v) vs)"
proof -
  let ?s = "map (\<lambda>v. alphabet ! v) vs"
  have c: "upper_char c = c" "\<not> is_space c" "c \<noteq> CHR ''=''" if "c \<in> set ?s" for c
    using that assms alphabet_facts by auto
  have "map upper_char ?s = ?s" by (rule map_idI) (rule c(1))
  moreover have "dropWhile is_space ?s = ?s" "dropWhile is_space (rev ?s) = rev ?s"
    "dropWhile (\<lambda>c. c = CHR ''='') (rev ?s) = rev ?s"
    using c(2,3) by (auto simp: dropWhile_eq_self_iff hd_rev last_map hd_map last_in_set)
  ultimately show ?thesis unfolding normalize_key_def strip_def rstrip_eq_def by (simp only: rev_rev_ident)
qed

lemma length_bytes_bits: "length (bytes_bits bs) = 8 * length bs"
  by (induction bs) (auto simp: bytes_bits_def)

lemma bits_bytes_bits: "bits_bytes (length bs) (bytes_bits bs @ rest) = bs"
proof -
  let ?gs = "map (\<lambda>b. to_bits 8 (unat b)) bs"
  have "groups 8 (length ?gs) (concat ?gs @ rest) = ?gs" by (rule groups_concat) simp
  then have "bits_bytes (length bs) (bytes_bits bs @ rest) = map (\<lambda>g. word_of_nat (of_bits g)) ?gs"
    by (simp add: bits_bytes_def bytes_bits_def)
  also have "\<dots> = bs"
  proof -
    have "word_of_nat (of_bits (to_bits 8 (unat b))) = b" for b :: "8 word"
    proof -
      have "unat b < 2 ^ LENGTH(8)" by (rule unsigned_less)
      then show ?thesis by (simp add: of_to_bits)
    qed
    then show ?thesis by (simp add: comp_def)
  qed
  finally show ?thesis .
qed

text \<open>C23. A provisioned secret is the key it was made from: reading back the base32 text of any bytes, as the
authenticator and the server do, gives those bytes.\<close>

theorem secret_roundtrip: "normalize_key (generate_secret random) = Inr random"
proof -
  let ?bits = "bytes_bits random"
  let ?n = "(length ?bits + 4) div 5"
  let ?padded = "?bits @ replicate (5 * ?n - length ?bits) False"
  let ?gs = "groups 5 ?n ?padded"
  have le: "length ?bits \<le> 5 * ?n" "5 * ?n \<le> length ?bits + 4" by linarith+
  have g5: "length g = 5" if "g \<in> set ?gs" for g
    using length_in_groups [OF _ that] le by simp
  let ?vs = "map of_bits ?gs"
  have v: "\<forall>v\<in>set ?vs. v < 32"
  proof
    fix v assume "v \<in> set ?vs"
    then obtain g where g: "g \<in> set ?gs" "v = of_bits g" unfolding set_map by blast
    show "v < 32" using of_bits_less [of g] unfolding g5 [OF g(1)] g(2) by simp
  qed
  have enc: "generate_secret random = map (\<lambda>v. alphabet ! v) ?vs"
    by (simp add: generate_secret_def b32_text_def Let_def comp_def)
  have "concat (map (to_bits 5) ?vs) = concat ?gs"
  proof -
    have "map (to_bits 5) ?vs = ?gs" by (rule bits_again) (use g5 in blast)
    then show ?thesis by (rule arg_cong)
  qed
  also have "\<dots> = ?padded" using le by (simp add: concat_groups)
  finally have bits: "concat (map (to_bits 5) ?vs) = ?padded" .
  have size: "5 * ?n div 8 = length random"
    using le length_bytes_bits [of random] by linarith
  have mod8: "?n mod 8 \<in> {0, 2, 4, 5, 7}"
    unfolding length_bytes_bits by (simp; presburger)
  have "b32_bytes (map (\<lambda>v. alphabet ! v) ?vs) = Inr (bits_bytes (5 * ?n div 8) ?padded)"
    using char_values_text [OF v] mod8 bits by (simp add: b32_bytes_def)
  then show ?thesis
    unfolding enc normalize_text [OF v] size by (simp add: bits_bytes_bits)
qed

subsection \<open>Which codes are accepted\<close>

lemma six_digits_shape: "length (six_digits n) = 6" "\<forall>c\<in>set (six_digits n). is_digit c"
proof -
  show "length (six_digits n) = 6" by (simp add: six_digits_def)
  have "is_digit (char_of (48 + m mod 10))" for m :: nat
    unfolding is_digit_def by (subst (1 2) ord_digit) simp_all
  then show "\<forall>c\<in>set (six_digits n). is_digit c" by (auto simp: six_digits_def)
qed

lemma compare_digits:
  assumes "\<forall>c\<in>set a. is_digit c" "\<forall>c\<in>set b. is_digit c"
  shows "compare_digest a b = Inr (a = b)"
  using assms by (force simp: compare_digest_def is_digit_def)

lemma code_defined:
  assumes "normalize_key secret = Inr key" "0 \<le> c" "c < 2 ^ 64"
  obtains s where "code_for_counter mac secret c = Inr s" "length s = 6" "\<forall>x\<in>set s. is_digit x"
  using assms six_digits_shape by (force simp: code_for_counter_def counter_bytes_def)

lemma try_counters_exact:
  assumes "normalize_key secret = Inr key" "\<forall>c\<in>set cs. 0 \<le> c \<and> c < 2 ^ 64" "\<forall>x\<in>set s. is_digit x"
  shows "\<exists>r. try_counters mac secret s cs = Inr r \<and>
    (case r of None \<Rightarrow> \<forall>c\<in>set cs. code_for_counter mac secret c \<noteq> Inr s
     | Some c \<Rightarrow> c \<in> set cs \<and> code_for_counter mac secret c = Inr s)"
  using assms(2)
proof (induction cs)
  case (Cons c cs)
  obtain e where e: "code_for_counter mac secret c = Inr e" "\<forall>x\<in>set e. is_digit x"
  proof -
    have "0 \<le> c" "c < 2 ^ 64" using Cons.prems by simp_all
    with code_defined [OF assms(1), of c mac] that show thesis by blast
  qed
  have cmp: "compare_digest e s = Inr (e = s)" by (rule compare_digits [OF e(2) assms(3)])
  from Cons obtain r where r: "try_counters mac secret s cs = Inr r"
    "case r of None \<Rightarrow> \<forall>c\<in>set cs. code_for_counter mac secret c \<noteq> Inr s
     | Some c \<Rightarrow> c \<in> set cs \<and> code_for_counter mac secret c = Inr s" by auto
  show ?case
  proof (cases "e = s")
    case True
    with e(1) cmp show ?thesis by simp
  next
    case False
    with e(1) cmp have "try_counters mac secret s (c # cs) = Inr r" using r(1) by simp
    with r(2) e(1) False show ?thesis by (auto split: option.splits)
  qed
qed simp

text \<open>C26. With a readable secret, a six-digit code is accepted exactly when it is the code of one of the steps within
the window around the server's clock, and the step returned is such a step; nothing raises.\<close>

theorem code_window_exact:
  assumes "normalize_key secret = Inr key" "length s = 6" "\<forall>c\<in>set s. is_digit c"
    and "int window \<le> counter_at now" "counter_at now + int window < 2 ^ 64"
  shows "\<exists>r. verify_code_returning_counter mac secret (PStr s) window now = Inr r \<and>
    (case r of
       None \<Rightarrow> \<forall>c. \<bar>c - counter_at now\<bar> \<le> int window \<longrightarrow> code_for_counter mac secret c \<noteq> Inr s
     | Some c \<Rightarrow> \<bar>c - counter_at now\<bar> \<le> int window \<and> code_for_counter mac secret c = Inr s)"
proof -
  let ?cs = "map (\<lambda>k. counter_at now + k) [- int window .. int window]"
  have cs: "c \<in> set ?cs \<longleftrightarrow> \<bar>c - counter_at now\<bar> \<le> int window" for c
  proof
    assume "\<bar>c - counter_at now\<bar> \<le> int window"
    then show "c \<in> set ?cs" by (auto intro!: image_eqI [where x = "c - counter_at now"])
  qed auto
  have "\<forall>c\<in>set ?cs. 0 \<le> c \<and> c < 2 ^ 64" using assms(4,5) by auto
  from try_counters_exact [OF assms(1) this assms(3), of mac] obtain r where
    r: "try_counters mac secret s ?cs = Inr r"
    "case r of None \<Rightarrow> \<forall>c\<in>set ?cs. code_for_counter mac secret c \<noteq> Inr s
     | Some c \<Rightarrow> c \<in> set ?cs \<and> code_for_counter mac secret c = Inr s" by blast
  have "verify_code_returning_counter mac secret (PStr s) window now = Inr r"
    using r(1) assms(2,3) by (simp add: verify_code_returning_counter_def py_isdigit_def)
  with r(2) show ?thesis unfolding Ball_def cs by (cases r) (auto simp del: set_map simp: cs)
qed

definition mac_zero :: mac where
  "mac_zero key msg = replicate 20 0"

lemma mac_zero_code:
  assumes "normalize_key secret = Inr key" "0 \<le> c" "c < 2 ^ 64"
  shows "code_for_counter mac_zero secret c = Inr ''000000''"
proof -
  have "last (replicate 20 (0 :: 8 word)) = 0" "replicate 20 (0 :: 8 word) ! k = 0" if "k < 4" for k
    using that by simp_all
  then have t: "truncate (replicate 20 0) = 0"
    unfolding truncate_def Let_def by (simp del: replicate.simps)
  have "char_of (48 :: nat) = CHR ''0''" by code_simp
  then have z: "six_digits 0 = ''000000''" unfolding six_digits_def list.map div_0 mod_0 add_0_right by simp
  obtain msg where msg: "counter_bytes c = Inr msg" using assms(2,3) by (auto simp: counter_bytes_def)
  have "code_for_counter mac_zero secret c = Inr (six_digits (unat (0 :: 32 word) mod 1000000))"
    unfolding code_for_counter_def assms(1) msg py_bind_simps mac_zero_def t by (rule refl)
  then show ?thesis by (simp only: unsigned_0 mod_0 z)
qed

lemma abc_key: "normalize_key ''MFRGG'' = Inr [97, 98, 99]"
  by code_simp

lemma counter_60: "counter_at 60 = 2"
  by (simp add: counter_at_def step_seconds_def)

theorem code_window_exact_witness:
  "\<exists>c. verify_code_returning_counter mac_zero ''MFRGG'' (PStr ''000000'') 1 60 = Inr (Some c)"
proof -
  have s: "length ''000000'' = 6" "\<forall>c\<in>set ''000000''. is_digit c" by code_simp+
  have n: "int 1 \<le> counter_at 60" "counter_at 60 + int 1 < 2 ^ 64" by (simp_all add: counter_60)
  have c: "code_for_counter mac_zero ''MFRGG'' 2 = Inr ''000000''" by (rule mac_zero_code [OF abc_key]) simp_all
  from code_window_exact [OF abc_key s n, of mac_zero] c counter_60 show ?thesis by (fastforce split: option.splits)
qed

lemma zero_code_matches: "verify_code_returning_counter mac_zero ''MFRGG'' (PStr ''000000'') 1 60 = Inr (Some 1)"
proof -
  have shape: "length ''000000'' = 6" "\<forall>c\<in>set ''000000''. py_isdigit c" by code_simp+
  have first: "map (\<lambda>k. counter_at 60 + k) [- int 1..int 1] = [1, 2, 3]" by (simp add: counter_60 upto.simps)
  have "code_for_counter mac_zero ''MFRGG'' 1 = Inr ''000000''" by (rule mac_zero_code [OF abc_key]) simp_all
  moreover have "compare_digest ''000000'' ''000000'' = Inr True" by code_simp
  ultimately have "try_counters mac_zero ''MFRGG'' ''000000'' [1, 2, 3] = Inr (Some 1)" by simp
  moreover have "\<not> (length ''000000'' \<noteq> 6 \<or> \<not> (\<forall>c\<in>set ''000000''. py_isdigit c))" using shape by blast
  ultimately show ?thesis unfolding verify_code_returning_counter_def first pyval.case by (simp only: if_False)
qed

definition superscripts :: string where
  "superscripts = replicate 6 (char_of (178 :: nat))"

text \<open>A code of six superscript digits passes the shape test and makes the check raise TypeError, although it is
documented to fail closed and never to raise.\<close>

theorem superscript_code_raises:
  "verify_code mac_zero ''MFRGG'' (PStr superscripts) 1 60 = Inl TypeError \<and>
   verify_code mac_zero ''MFRGG'' (PStr ''12345a'') 1 60 = Inr False"
proof
  have shape: "length superscripts = 6" "\<forall>c\<in>set superscripts. py_isdigit c" by code_simp+
  have first: "map (\<lambda>k. counter_at 60 + k) [- int 1..int 1] = [1, 2, 3]" by (simp add: counter_60 upto.simps)
  have "code_for_counter mac_zero ''MFRGG'' 1 = Inr ''000000''" by (rule mac_zero_code [OF abc_key]) simp_all
  moreover have "compare_digest ''000000'' superscripts = Inl TypeError" by code_simp
  ultimately show "verify_code mac_zero ''MFRGG'' (PStr superscripts) 1 60 = Inl TypeError"
    using shape unfolding verify_code_def verify_code_returning_counter_def first by simp
  have "\<not> (\<forall>c\<in>set ''12345a''. py_isdigit c)" by code_simp
  then show "verify_code mac_zero ''MFRGG'' (PStr ''12345a'') 1 60 = Inr False"
    unfolding verify_code_def verify_code_returning_counter_def pyval.case by (simp only: if_True simp_thms py_bind_simps)
qed

end
