(* ===== verification/Users.thy ===== *)
theory Users
  imports Rule_Load Mfa
begin

text \<open>
  \<open>src/services/shared/users.py\<close>: the user store. A table row is the record \<open>user\<close>, the table a list of rows
  with distinct names (PRIMARY KEY), in insertion order. Statements run under the store's lock, so each
  is one step; \<open>verify_totp\<close> and \<open>confirm_totp\<close> read the secret before they take the lock, and \<open>others\<close> is
  what other threads do in between. The key derivation function of the standard library is the argument
  \<open>scrypt\<close> (None: it raises). The schema migrations and the import of \<open>mfa\<close> are not modelled.
\<close>

subsection \<open>Password hashes\<close>

type_synonym kdf = "string \<Rightarrow> 8 word list \<Rightarrow> int \<Rightarrow> 8 word list option"

definition scrypt_n :: int where "scrypt_n = 65536"
definition scrypt_n_max :: int where "scrypt_n_max = 1048576"
definition legacy_scrypt_n :: int where "legacy_scrypt_n = 16384"

definition hex_digits :: string where
  "hex_digits = ''0123456789abcdef''"

definition hex_text :: "8 word list \<Rightarrow> string" where
  "hex_text bs = concat (map (\<lambda>b. [hex_digits ! (unat b div 16), hex_digits ! (unat b mod 16)]) bs)"

definition hex_value :: "char \<Rightarrow> nat option" where
  "hex_value c = index_of_char (lower_char c) hex_digits"

definition hex_space :: "char \<Rightarrow> bool" where
  "hex_space c \<longleftrightarrow> ord c = 32 \<or> 9 \<le> ord c \<and> ord c \<le> 13"

text \<open>\<open>bytes.fromhex\<close>: white space between the bytes is skipped, anything else raises.\<close>

fun fromhex :: "string \<Rightarrow> 8 word list option" where
  "fromhex [] = Some []"
| "fromhex (c # cs) =
     (if hex_space c then fromhex cs
      else case cs of
             [] \<Rightarrow> None
           | d # ds \<Rightarrow>
               (case (hex_value c, hex_value d) of
                  (Some a, Some b) \<Rightarrow> map_option (Cons (word_of_nat (16 * a + b))) (fromhex ds)
                | _ \<Rightarrow> None))"

definition hash_password :: "kdf \<Rightarrow> 8 word list \<Rightarrow> string \<Rightarrow> string option" where
  "hash_password scrypt salt password =
     (case scrypt password salt scrypt_n of
        None \<Rightarrow> None
      | Some dk \<Rightarrow> Some (''scrypt$'' @ int_str scrypt_n @ ''$'' @ hex_text salt @ ''$'' @ hex_text dk))"

definition check_digest :: "kdf \<Rightarrow> string \<Rightarrow> string \<Rightarrow> int \<Rightarrow> string \<Rightarrow> string \<Rightarrow> bool" where
  "check_digest scrypt password algo n salt_hex hash_hex =
     (if algo \<noteq> ''scrypt'' then False
      else case fromhex salt_hex of
             None \<Rightarrow> False
           | Some salt \<Rightarrow>
               (case scrypt password salt n of
                  None \<Rightarrow> False
                | Some dk \<Rightarrow> compare_digest (hex_text dk) hash_hex = Inr True))"

definition verify_password :: "kdf \<Rightarrow> string \<Rightarrow> string \<Rightarrow> bool" where
  "verify_password scrypt password stored =
     (case split_on (CHR ''$'') stored of
        [algo, n_str, salt_hex, hash_hex] \<Rightarrow>
          (case int_text n_str of
             None \<Rightarrow> False
           | Some n \<Rightarrow> if n \<le> 0 \<or> scrypt_n_max < n then False
                       else check_digest scrypt password algo n salt_hex hash_hex)
      | [algo, salt_hex, hash_hex] \<Rightarrow> check_digest scrypt password algo legacy_scrypt_n salt_hex hash_hex
      | _ \<Rightarrow> False)"

definition password_problem :: "pyval \<Rightarrow> string option" where
  "password_problem v =
     (case v of
        PStr s \<Rightarrow>
          if length s < 12 then Some ''password must be at least 12 characters''
          else if 256 < length s then Some ''password must be at most 256 characters'' else None
      | _ \<Rightarrow> Some ''password must be a string'')"

subsection \<open>The table\<close>

record user =
  us_name :: string
  us_hash :: string
  us_role :: string
  us_tenant :: string
  us_created :: int
  us_last_login :: "int option"
  us_secret :: "string option"
  us_active :: bool
  us_counter :: int
  us_disabled :: bool

type_synonym users = "user list"

datatype user_error = Unknown_role | Integrity_error | Last_admin_error | Hash_failed

definition roles :: "string list" where
  "roles = [''read_only'', ''analyst'', ''admin'']"

text \<open>\<open>UPDATE users SET ... WHERE username = ?\<close>.\<close>

definition update_row :: "string \<Rightarrow> (user \<Rightarrow> user) \<Rightarrow> users \<Rightarrow> users" where
  "update_row name f us = map (\<lambda>u. if us_name u = name then f u else u) us"

definition get_user :: "users \<Rightarrow> string \<Rightarrow> user option" where
  "get_user us name = find (\<lambda>u. us_name u = name) us"

definition user_count :: "users \<Rightarrow> nat" where
  "user_count us = length us"

definition active_admin :: "user \<Rightarrow> bool" where
  "active_admin u \<longleftrightarrow> us_role u = ''admin'' \<and> \<not> us_disabled u"

definition count_admins :: "users \<Rightarrow> nat" where
  "count_admins us = length (filter active_admin us)"

definition create_user ::
    "kdf \<Rightarrow> 8 word list \<Rightarrow> int \<Rightarrow> string \<Rightarrow> string \<Rightarrow> string \<Rightarrow> string \<Rightarrow> users \<Rightarrow> user_error + users" where
  "create_user scrypt salt now name password role tenant us =
     (if role \<notin> set roles then Inl Unknown_role
      else case hash_password scrypt salt password of
             None \<Rightarrow> Inl Hash_failed
           | Some h \<Rightarrow>
               if get_user us name \<noteq> None then Inl Integrity_error
               else Inr (us @ [\<lparr>us_name = name, us_hash = h, us_role = role, us_tenant = tenant,
                                us_created = now, us_last_login = None, us_secret = None,
                                us_active = False, us_counter = -1, us_disabled = False\<rparr>]))"

text \<open>The unknown name still costs one key derivation, whose answer is not used.\<close>

definition verify_login :: "kdf \<Rightarrow> int \<Rightarrow> string \<Rightarrow> string \<Rightarrow> users \<Rightarrow> user option \<times> users" where
  "verify_login scrypt now name password us =
     (case get_user us name of
        None \<Rightarrow> (None, us)
      | Some row \<Rightarrow>
          if \<not> verify_password scrypt password (us_hash row) then (None, us)
          else if us_disabled row then (None, us)
          else (Some row, update_row name (\<lambda>u. u\<lparr>us_last_login := Some now\<rparr>) us))"

definition set_password :: "kdf \<Rightarrow> 8 word list \<Rightarrow> string \<Rightarrow> string \<Rightarrow> users \<Rightarrow> user_error + users" where
  "set_password scrypt salt name password us =
     (case hash_password scrypt salt password of
        None \<Rightarrow> Inl Hash_failed
      | Some h \<Rightarrow> Inr (update_row name (\<lambda>u. u\<lparr>us_hash := h\<rparr>) us))"

subsection \<open>One-time passwords\<close>

definition enable_totp :: "string \<Rightarrow> string \<Rightarrow> users \<Rightarrow> users" where
  "enable_totp name secret us = update_row name (\<lambda>u. u\<lparr>us_secret := Some secret, us_active := False\<rparr>) us"

definition provision_totp :: "8 word list \<Rightarrow> string \<Rightarrow> users \<Rightarrow> string \<times> users" where
  "provision_totp random name us = (let s = generate_secret random in (s, enable_totp name s us))"

definition is_totp_enabled :: "users \<Rightarrow> string \<Rightarrow> bool" where
  "is_totp_enabled us name = (case get_user us name of None \<Rightarrow> False | Some u \<Rightarrow> us_active u)"

text \<open>The step a code matches for the account's stored secret; None also for an unknown user or no secret.\<close>

definition matched_counter :: "mac \<Rightarrow> rat \<Rightarrow> users \<Rightarrow> string \<Rightarrow> pyval \<Rightarrow> int option py" where
  "matched_counter mac now us name code =
     (case get_user us name of
        None \<Rightarrow> Inr None
      | Some row \<Rightarrow>
          (case us_secret row of
             None \<Rightarrow> Inr None
           | Some secret \<Rightarrow> if secret = [] then Inr None
                            else verify_code_returning_counter mac secret code 1 now))"

text \<open>The section under the lock: the replay check and the update.\<close>

definition accept_counter :: "string \<Rightarrow> int \<Rightarrow> users \<Rightarrow> bool \<times> users" where
  "accept_counter name c us =
     (case get_user us name of
        None \<Rightarrow> (False, us)
      | Some row \<Rightarrow>
          if c \<le> us_counter row then (False, us)
          else (True, update_row name (\<lambda>u. u\<lparr>us_active := True, us_counter := c\<rparr>) us))"


definition confirm_totp ::
    "mac \<Rightarrow> rat \<Rightarrow> (users \<Rightarrow> users) \<Rightarrow> string \<Rightarrow> pyval \<Rightarrow> users \<Rightarrow> bool py \<times> users" where
  "confirm_totp mac now others name code us =
     (case matched_counter mac now us name code of
        Inl e \<Rightarrow> (Inl e, us)
      | Inr None \<Rightarrow> (Inr False, us)
      | Inr (Some c) \<Rightarrow> (Inr True, update_row name (\<lambda>u. u\<lparr>us_active := True\<rparr>) (others us)))"

subsection \<open>Administration\<close>

text \<open>\<open>list_users\<close>: the columns that may leave the store, ordered by name.\<close>

definition public_row :: "user \<Rightarrow> string \<times> string \<times> string \<times> int \<times> int option \<times> bool \<times> bool" where
  "public_row u =
     (us_name u, us_role u, us_tenant u, us_created u, us_last_login u, us_active u, us_disabled u)"

definition list_users :: "users \<Rightarrow> (string \<times> string \<times> string \<times> int \<times> int option \<times> bool \<times> bool) list" where
  "list_users us = map public_row (sort_key us_name us)"

definition update_user ::
    "kdf \<Rightarrow> 8 word list \<Rightarrow> string \<Rightarrow> string option \<Rightarrow> string option \<Rightarrow> bool option \<Rightarrow> users \<Rightarrow>
     user_error + bool \<times> users" where
  "update_user scrypt salt name role password disabled us =
     (if (case role of None \<Rightarrow> False | Some r \<Rightarrow> r \<notin> set roles) then Inl Unknown_role
      else if password \<noteq> None \<and> hash_password scrypt salt (the password) = None then Inl Hash_failed
      else case get_user us name of
             None \<Rightarrow> Inr (False, us)
           | Some row \<Rightarrow>
               (let new_role = (case role of None \<Rightarrow> us_role row | Some r \<Rightarrow> r);
                    new_disabled = (case disabled of None \<Rightarrow> us_disabled row | Some b \<Rightarrow> b)
                in if active_admin row \<and> (new_role \<noteq> ''admin'' \<or> new_disabled) \<and> count_admins us \<le> 1
                   then Inl Last_admin_error
                   else
                     (let us1 = update_row name (\<lambda>u. u\<lparr>us_role := new_role, us_disabled := new_disabled\<rparr>) us;
                          us2 = (case password of
                                   None \<Rightarrow> us1
                                 | Some p \<Rightarrow> update_row name
                                     (\<lambda>u. u\<lparr>us_hash := the (hash_password scrypt salt p)\<rparr>) us1)
                      in Inr (True, us2))))"

definition ensure_first_boot_admin ::
    "kdf \<Rightarrow> 8 word list \<Rightarrow> int \<Rightarrow> string option \<Rightarrow> string \<Rightarrow> users \<Rightarrow> user_error + string option \<times> users" where
  "ensure_first_boot_admin scrypt salt now env name us =
     (if us \<noteq> [] then Inr (None, us)
      else case env of
             None \<Rightarrow> Inr (None, us)
           | Some password \<Rightarrow>
               if password = [] then Inr (None, us)
               else (case create_user scrypt salt now name password ''admin'' ''default'' us of
                       Inl e \<Rightarrow> Inl e
                     | Inr us' \<Rightarrow> Inr (Some name, us')))"

subsection \<open>The store as a transition system\<close>

text \<open>
  Every step that may change the table. \<open>Accept\<close> and \<open>Activate\<close> are the locked sections of the two
  one-time-password checks, for whatever step was matched before; so a sequence of steps covers every
  interleaving of the calls.
\<close>

datatype user_op =
    Create "8 word list" int string string string string
  | Login int string string
  | Set_password "8 word list" string string
  | Enable string string
  | Accept string int
  | Activate string
  | Update "8 word list" string "string option" "string option" "bool option"

fun user_step :: "kdf \<Rightarrow> user_op \<Rightarrow> users \<Rightarrow> users" where
  "user_step k (Create salt now name pw role tenant) us =
     (case create_user k salt now name pw role tenant us of Inl e \<Rightarrow> us | Inr us' \<Rightarrow> us')"
| "user_step k (Login now name pw) us = snd (verify_login k now name pw us)"
| "user_step k (Set_password salt name pw) us = (case set_password k salt name pw us of Inl e \<Rightarrow> us | Inr us' \<Rightarrow> us')"
| "user_step k (Enable name secret) us = enable_totp name secret us"
| "user_step k (Accept name c) us = snd (accept_counter name c us)"
| "user_step k (Activate name) us = update_row name (\<lambda>u. u\<lparr>us_active := True\<rparr>) us"
| "user_step k (Update salt name role pw disabled) us =
     (case update_user k salt name role pw disabled us of Inl e \<Rightarrow> us | Inr (_, us') \<Rightarrow> us')"

definition user_run :: "kdf \<Rightarrow> user_op list \<Rightarrow> users \<Rightarrow> users" where
  "user_run k ops us = fold (user_step k) ops us"

definition users_ok :: "users \<Rightarrow> bool" where
  "users_ok us \<longleftrightarrow> distinct (map us_name us) \<and> (\<forall>u\<in>set us. us_role u \<in> set roles \<and> -1 \<le> us_counter u)"

text \<open>Every step is a sequence of row updates that keep the name, or appends a fresh row.\<close>

definition keeps_name :: "(user \<Rightarrow> user) \<Rightarrow> bool" where
  "keeps_name f \<longleftrightarrow> (\<forall>u. us_name (f u) = us_name u)"

lemma names_update: "keeps_name f \<Longrightarrow> map us_name (update_row name f us) = map us_name us"
  by (simp add: update_row_def keeps_name_def)


lemma get_user_Some: "get_user us n = Some u \<Longrightarrow> u \<in> set us \<and> us_name u = n"
  by (auto simp: get_user_def find_Some_iff)

lemma get_user_None: "get_user us n = None \<longleftrightarrow> n \<notin> us_name ` set us"
  by (auto simp: get_user_def find_None_iff)

lemma users_ok_update:
  assumes "users_ok us" "keeps_name f"
    and "\<And>u. get_user us name = Some u \<Longrightarrow> us_role (f u) \<in> set roles \<and> -1 \<le> us_counter (f u)"
  shows "users_ok (update_row name f us)"
proof -
  have d: "distinct (map us_name us)" using assms(1) by (simp add: users_ok_def)
  have row: "get_user us name = Some u" if m: "u \<in> set us" "us_name u = name" for u
  proof -
    obtain v where v: "get_user us name = Some v"
      using m get_user_None [of us name] by (cases "get_user us name") auto
    with m d get_user_Some [OF v] have "v = u" by (metis distinct_map inj_on_eq_iff)
    with v show ?thesis by simp
  qed
  have "us_role u' \<in> set roles \<and> -1 \<le> us_counter u'" if u': "u' \<in> set (update_row name f us)" for u'
  proof -
    from u' obtain u where u: "u \<in> set us" "u' = (if us_name u = name then f u else u)"
      by (auto simp: update_row_def)
    show ?thesis
    proof (cases "us_name u = name")
      case True
      with u assms(3) [OF row [OF u(1) True]] show ?thesis by simp
    next
      case False
      with u assms(1) show ?thesis unfolding users_ok_def by simp
    qed
  qed
  with d names_update [OF assms(2)] show ?thesis unfolding users_ok_def by metis
qed

lemma count_update:
  assumes "distinct (map us_name us)" "get_user us name = Some row" "keeps_name f"
  shows "count_admins (update_row name f us) + (if active_admin row then 1 else 0) =
    count_admins us + (if active_admin (f row) then 1 else 0)"
  using assms(1,2)
proof (induction us)
  case (Cons u us)
  show ?case
  proof (cases "us_name u = name")
    case True
    have "us_name x \<noteq> name" if "x \<in> set us" for x
      using Cons.prems(1) True that by (metis distinct.simps(2) image_eqI list.map(2) list.set_map)
    then have "update_row name f us = us" by (auto simp: update_row_def intro!: map_idI)
    moreover have "row = u" using Cons.prems(2) True by (simp add: get_user_def)
    ultimately show ?thesis using True by (simp add: count_admins_def update_row_def)
  next
    case False
    with Cons.prems Cons.IH show ?thesis by (auto simp: count_admins_def update_row_def get_user_def)
  qed
qed (simp add: get_user_def)

lemma update_unknown: "get_user us name = None \<Longrightarrow> update_row name f us = us"
  by (auto simp: get_user_None update_row_def intro!: map_idI)

text \<open>An update that does not touch role and disabled.\<close>

lemma count_same:
  assumes "\<And>u. active_admin (f u) = active_admin u"
  shows "count_admins (update_row name f us) = count_admins us"
  by (induction us) (auto simp: count_admins_def update_row_def assms)

lemma step_keeps:
  assumes "users_ok us"
  shows "users_ok (user_step k op us)" "1 \<le> count_admins us \<Longrightarrow> 1 \<le> count_admins (user_step k op us)"
proof -
  have row: "us_role u \<in> set roles \<and> -1 \<le> us_counter u" if "get_user us n = Some u" for n u
    using assms get_user_Some [OF that] unfolding users_ok_def by blast
  have plain: "users_ok (update_row n f us) \<and> count_admins (update_row n f us) = count_admins us"
    if "keeps_name f" "\<And>u. us_role (f u) = us_role u" "\<And>u. us_disabled (f u) = us_disabled u"
      "\<And>u. get_user us n = Some u \<Longrightarrow> -1 \<le> us_counter (f u)" for n f
    using that users_ok_update [OF assms that(1), of n] row count_same [of f n us] by (auto simp: active_admin_def)
  have "users_ok (user_step k op us) \<and> (1 \<le> count_admins us \<longrightarrow> 1 \<le> count_admins (user_step k op us))"
  proof (cases op)
    case (Create salt now name pw role tenant)
    show ?thesis
    proof (cases "create_user k salt now name pw role tenant us")
      case (Inl e)
      with Create assms show ?thesis by simp
    next
      case (Inr us')
      then obtain u where "us' = us @ [u]" "us_name u \<notin> us_name ` set us" "us_role u \<in> set roles" "us_counter u = -1"
        by (auto simp: create_user_def get_user_None split: if_splits option.splits)
      with Create Inr assms show ?thesis by (auto simp: users_ok_def count_admins_def)
    qed
  next
    case (Login now name pw)
    have "users_ok (update_row name (\<lambda>u. u\<lparr>us_last_login := Some now\<rparr>) us) \<and>
      count_admins (update_row name (\<lambda>u. u\<lparr>us_last_login := Some now\<rparr>) us) = count_admins us"
      by (rule plain) (use row in \<open>auto simp: keeps_name_def\<close>)
    with Login assms show ?thesis by (auto simp: verify_login_def split: option.splits)
  next
    case (Set_password salt name pw)
    have "users_ok (update_row name (\<lambda>u. u\<lparr>us_hash := h\<rparr>) us) \<and>
      count_admins (update_row name (\<lambda>u. u\<lparr>us_hash := h\<rparr>) us) = count_admins us" for h
      by (rule plain) (use row in \<open>auto simp: keeps_name_def\<close>)
    with Set_password assms show ?thesis by (auto simp: set_password_def split: option.splits)
  next
    case (Enable name secret)
    have "users_ok (update_row name (\<lambda>u. u\<lparr>us_secret := Some secret, us_active := False\<rparr>) us) \<and>
      count_admins (update_row name (\<lambda>u. u\<lparr>us_secret := Some secret, us_active := False\<rparr>) us) = count_admins us"
      by (rule plain) (use row in \<open>auto simp: keeps_name_def\<close>)
    with Enable show ?thesis by (simp add: enable_totp_def)
  next
    case (Accept name c)
    have "users_ok (update_row name (\<lambda>u. u\<lparr>us_active := True, us_counter := c\<rparr>) us) \<and>
      count_admins (update_row name (\<lambda>u. u\<lparr>us_active := True, us_counter := c\<rparr>) us) = count_admins us"
      if "get_user us name = Some u" "us_counter u < c" for u
      by (rule plain) (use row that in \<open>fastforce simp: keeps_name_def\<close>)+
    with Accept assms show ?thesis by (auto simp: accept_counter_def split: option.splits)
  next
    case (Activate name)
    have "users_ok (update_row name (\<lambda>u. u\<lparr>us_active := True\<rparr>) us) \<and>
      count_admins (update_row name (\<lambda>u. u\<lparr>us_active := True\<rparr>) us) = count_admins us"
      by (rule plain) (use row in \<open>auto simp: keeps_name_def\<close>)
    with Activate show ?thesis by simp
  next
    case (Update salt name role pw disabled)
    show ?thesis
    proof (cases "update_user k salt name role pw disabled us")
      case (Inl e)
      with Update assms show ?thesis by simp
    next
      case (Inr r)
      show ?thesis
      proof (cases "get_user us name")
        case None
        with Inr have "snd r = us" by (auto simp: update_user_def split: if_splits)
        with Update Inr assms show ?thesis by (cases r) auto
      next
        case (Some u)
        define nr where "nr = (case role of None \<Rightarrow> us_role u | Some r \<Rightarrow> r)"
        define nd where "nd = (case disabled of None \<Rightarrow> us_disabled u | Some b \<Rightarrow> b)"
        define f where "f = (\<lambda>u :: user. u\<lparr>us_role := nr, us_disabled := nd\<rparr>)"
        define us1 where "us1 = update_row name f us"
        define h where "h = the (hash_password k salt (the pw))"
        have guard: "\<not> (active_admin u \<and> (nr \<noteq> ''admin'' \<or> nd) \<and> count_admins us \<le> 1)"
          and out: "snd r = (if pw = None then us1 else update_row name (\<lambda>u. u\<lparr>us_hash := h\<rparr>) us1)"
          and valid: "case role of None \<Rightarrow> True | Some r \<Rightarrow> r \<in> set roles"
          using Inr Some unfolding nr_def nd_def f_def us1_def h_def
          by (auto simp: update_user_def Let_def split: if_splits option.splits)
        have f: "keeps_name f" by (simp add: f_def keeps_name_def)
        have role_ok: "us_role (f u) \<in> set roles"
          using valid row [OF Some] by (auto simp: f_def nr_def split: option.splits)
        have ok1: "users_ok us1" unfolding us1_def
          by (rule users_ok_update [OF assms f]) (use Some role_ok row [OF Some] in \<open>auto simp: f_def\<close>)
        have n: "count_admins us1 + (if active_admin u then 1 else 0) = count_admins us + (if active_admin (f u) then 1 else 0)"
          unfolding us1_def using assms by (intro count_update [OF _ Some f]) (simp add: users_ok_def)
        have "1 \<le> count_admins us \<Longrightarrow> 1 \<le> count_admins us1"
          using n guard by (auto simp: f_def active_admin_def split: if_splits)
        moreover have "users_ok (update_row name (\<lambda>u. u\<lparr>us_hash := h\<rparr>) us1)"
          by (rule users_ok_update [OF ok1]) (use ok1 get_user_Some in \<open>auto simp: keeps_name_def users_ok_def\<close>)
        moreover have "count_admins (update_row name (\<lambda>u. u\<lparr>us_hash := h\<rparr>) us1) = count_admins us1"
          by (rule count_same) (simp add: active_admin_def)
        ultimately show ?thesis using Update Inr out ok1 by (cases r) auto
      qed
    qed
  qed
  then show "users_ok (user_step k op us)" "1 \<le> count_admins us \<Longrightarrow> 1 \<le> count_admins (user_step k op us)" by blast+
qed

lemma run_keeps:
  assumes "users_ok us"
  shows "users_ok (user_run k ops us) \<and> (1 \<le> count_admins us \<longrightarrow> 1 \<le> count_admins (user_run k ops us))"
  using assms
proof (induction ops arbitrary: us)
  case (Cons a ops)
  from Cons.IH [OF step_keeps(1) [OF Cons.prems]] step_keeps(2) [OF Cons.prems] show ?case
    by (simp add: user_run_def)
qed (simp add: user_run_def)

text \<open>C17. Whatever the users and admins do, in any order, the table keeps its rows well formed (distinct names,
known roles), and a deployment that has an active admin never loses its last one.\<close>

theorem last_admin_kept:
  assumes "users_ok us" "1 \<le> count_admins us"
  shows "users_ok (user_run k ops us) \<and> 1 \<le> count_admins (user_run k ops us)"
  using run_keeps [OF assms(1)] assms(2) by blast

definition two_users :: users where
  "two_users =
     [\<lparr>us_name = ''admin'', us_hash = [], us_role = ''admin'', us_tenant = ''default'', us_created = 0,
       us_last_login = None, us_secret = Some ''MFRGG'', us_active = True, us_counter = 0, us_disabled = False\<rparr>,
      \<lparr>us_name = ''bob'', us_hash = [], us_role = ''analyst'', us_tenant = ''acme'', us_created = 0,
       us_last_login = None, us_secret = None, us_active = False, us_counter = -1, us_disabled = False\<rparr>]"

definition kdf_zero :: kdf where
  "kdf_zero password salt n = Some [0]"

theorem last_admin_kept_witness:
  "1 \<le> count_admins (user_run kdf_zero
     [Update [] ''admin'' (Some ''analyst'') None None, Update [] ''admin'' None None (Some True)] two_users)"
proof -
  have "users_ok two_users" "1 \<le> count_admins two_users" by code_simp+
  from last_admin_kept [OF this] show ?thesis by blast
qed








subsection \<open>Passwords\<close>

lemma hex_pair:
  "hex_value (hex_digits ! (unat b div 16)) = Some (unat b div 16)" "hex_value (hex_digits ! (unat b mod 16)) = Some (unat b mod 16)"
  "\<not> hex_space (hex_digits ! (unat b div 16))" for b :: "8 word"
proof -
  have "list_all (\<lambda>k. hex_value (hex_digits ! k) = Some k \<and> \<not> hex_space (hex_digits ! k)) [0..<16]" by code_simp
  moreover have "unat b < 2 ^ LENGTH(8)" by (rule unsigned_less)
  then have "unat b div 16 \<in> set [0..<16]" "unat b mod 16 \<in> set [0..<16]" by auto
  ultimately show "hex_value (hex_digits ! (unat b div 16)) = Some (unat b div 16)"
    "hex_value (hex_digits ! (unat b mod 16)) = Some (unat b mod 16)"
    "\<not> hex_space (hex_digits ! (unat b div 16))" unfolding list_all_iff by blast+
qed

lemma fromhex_text: "fromhex (hex_text bs) = Some bs"
proof (induction bs)
  case (Cons b bs)
  have "word_of_nat (16 * (unat b div 16) + unat b mod 16) = b" by simp
  with Cons show ?case by (simp add: hex_text_def hex_pair)
qed (simp add: hex_text_def)

lemma hex_chars:
  assumes "c \<in> set (hex_text bs)"
  shows "c \<noteq> CHR ''$'' \<and> ord c < 128"
proof -
  have "list_all (\<lambda>k. hex_digits ! k \<noteq> CHR ''$'' \<and> ord (hex_digits ! k) < 128) [0..<16]" by code_simp
  moreover have "\<exists>b\<in>set bs. c = hex_digits ! (unat b div 16) \<or> c = hex_digits ! (unat b mod 16)"
    using assms by (auto simp: hex_text_def)
  moreover have "unat b < 2 ^ LENGTH(8)" for b :: "8 word" by (rule unsigned_less)
  then have "unat b div 16 \<in> set [0..<16]" "unat b mod 16 \<in> set [0..<16]" for b :: "8 word"
    by (auto simp: less_mult_imp_div_less)
  ultimately show ?thesis unfolding list_all_iff by metis
qed

lemma split_on_mark: "c \<notin> set s \<Longrightarrow> split_on c (s @ c # t) = s # split_on c t"
proof (induction s)
  case Nil
  have "split_on c t \<noteq> []" by (cases t) (auto split: list.splits)
  then show ?case by (cases "split_on c t") auto
qed auto

lemma split_on_none: "c \<notin> set s \<Longrightarrow> split_on c s = [s]"
  by (induction s) auto

text \<open>Reading a printed number back.\<close>

lemma int_text_int_str:
  assumes "0 \<le> i"
  shows "int_text (int_str i) = Some i"
proof -
  let ?s = "nat_digits (nat i)"
  have d: "\<forall>c\<in>set ?s. is_digit c" by (rule nat_digits_spec(2))
  have ne: "?s \<noteq> []" by (subst nat_digits.simps) simp
  have sp: "\<not> is_space c" "c \<noteq> CHR ''-''" "c \<noteq> CHR ''+''" "c \<noteq> CHR ''_''" if "is_digit c" for c
    using that by (auto simp: is_digit_def is_space_def ord_def)
  have st: "strip ?s = ?s"
  proof -
    have "dropWhile is_space xs = xs" if "\<forall>c\<in>set xs. is_digit c" for xs
      using that sp(1) by (cases xs) auto
    then show ?thesis using d by (simp add: strip_def)
  qed
  obtain c cs where s: "?s = c # cs" using ne by (cases ?s) auto
  have "digit_groups ?s = Some (int (digits_value (filter is_digit ?s)))"
  proof -
    have "CHR ''_'' \<notin> set ?s" using d sp(4) by blast
    then show ?thesis using d ne by (simp add: digit_groups_def split_on_none)
  qed
  moreover have "filter is_digit ?s = ?s" using d by (simp add: filter_id_conv)
  ultimately have "digit_groups ?s = Some i" using assms by (simp add: nat_digits_spec(1))
  then show ?thesis using assms st s d sp(2,3) by (simp add: int_text_def int_str_def)
qed

text \<open>C28. What is stored for a password accepts exactly the passwords with the same derived key under the stored salt:
the password itself in any case, and one whose derivation raises never.\<close>

theorem password_roundtrip:
  assumes "hash_password scrypt salt password = Some stored"
  shows "verify_password scrypt password stored \<and>
    (verify_password scrypt other stored \<longleftrightarrow> scrypt other salt scrypt_n = scrypt password salt scrypt_n)"
proof -
  have n: "int_text (int_str scrypt_n) = Some scrypt_n" by (rule int_text_int_str) (simp add: scrypt_n_def)
  let ?n = "int_str scrypt_n"
  obtain dk where dk: "scrypt password salt scrypt_n = Some dk"
    and st: "stored = ''scrypt'' @ CHR ''$'' # (?n @ CHR ''$'' # (hex_text salt @ CHR ''$'' # hex_text dk))"
    using assms by (auto simp: hash_password_def split: option.splits)
  have h: "CHR ''$'' \<notin> set (hex_text bs)" for bs using hex_chars by blast
  have "is_digit c" if "c \<in> set ?n" for c
    using that nat_digits_spec(2) by (auto simp: int_str_def scrypt_n_def)
  moreover have "\<not> is_digit (CHR ''$'')" by code_simp
  ultimately have lit: "CHR ''$'' \<notin> set ''scrypt''" "CHR ''$'' \<notin> set ?n" by auto
  have parts: "split_on (CHR ''$'') stored = [''scrypt'', ?n, hex_text salt, hex_text dk]"
    unfolding st split_on_mark [OF lit(1)] split_on_mark [OF lit(2)] split_on_mark [OF h] split_on_none [OF h] by (rule refl)
  have dig: "compare_digest (hex_text a) (hex_text b) = Inr (a = b)" for a b
  proof -
    have "hex_text a = hex_text b \<longleftrightarrow> a = b" using fromhex_text by (metis option.inject)
    moreover have "\<not> 128 \<le> ord c" if "c \<in> set (hex_text a @ hex_text b)" for c
      using that hex_chars by fastforce
    ultimately show ?thesis by (auto simp: compare_digest_def)
  qed
  have "verify_password scrypt p stored \<longleftrightarrow> (case scrypt p salt scrypt_n of None \<Rightarrow> False | Some k \<Rightarrow> k = dk)" for p
    unfolding verify_password_def parts list.case n option.case
    by (simp add: check_digest_def fromhex_text dig scrypt_n_def scrypt_n_max_def split: option.splits)
  with dk show ?thesis by (auto split: option.splits)
qed

theorem password_roundtrip_witness:
  "\<exists>stored. hash_password kdf_zero [1, 2] ''correct horse'' = Some stored \<and> verify_password kdf_zero ''correct horse'' stored"
proof -
  obtain stored where h: "hash_password kdf_zero [1, 2] ''correct horse'' = Some stored"
    by (simp add: hash_password_def kdf_zero_def)
  with password_roundtrip [OF h] show ?thesis by blast
qed

end
