(* ===== verification/Access.thy ===== *)
theory Access
  imports PyVal
begin

text \<open>
  \<open>src/services/shared/rbac.py\<close> (roles, tenant scope, the login rate limiter) and
  \<open>src/services/shared/sessions.py\<close> (session tokens, in memory and in Redis). Clocks are arguments, in
  seconds; every method runs under its object's lock and is one step. Random tokens are arguments. Redis
  itself is not modelled: the row it stores is what \<open>create\<close> hands it, and \<open>resolve\<close> is given the row it
  returned.
\<close>

subsection \<open>Roles\<close>

definition role_rank :: "(string, int) odict" where
  "role_rank = [(''read_only'', 0), (''analyst'', 1), (''admin'', 2)]"

definition role_at_least :: "string \<Rightarrow> string \<Rightarrow> bool" where
  "role_at_least role minimum \<longleftrightarrow>
     get_default (od_get role_rank) role (-1) \<ge> get_default (od_get role_rank) minimum 999"

definition can_access_tenant :: "string \<Rightarrow> string \<Rightarrow> string option \<Rightarrow> bool" where
  "can_access_tenant user_role user_tenant resource_tenant \<longleftrightarrow>
     (if user_role = ''admin'' then True
      else user_tenant = (case resource_tenant of None \<Rightarrow> ''default'' | Some t \<Rightarrow> if t = [] then ''default'' else t))"

subsection \<open>The login rate limiter\<close>

definition sweep_every :: nat where
  "sweep_every = 256"

record limiter =
  li_max :: nat
  li_window :: rat
  li_attempts :: "string \<rightharpoonup> rat list"
  li_last :: "string \<rightharpoonup> rat"
  li_calls :: nat

definition new_limiter :: "nat \<Rightarrow> rat \<Rightarrow> limiter" where
  "new_limiter m w = \<lparr>li_max = m, li_window = w, li_attempts = Map.empty, li_last = Map.empty, li_calls = 0\<rparr>"

definition sweep_locked :: "rat \<Rightarrow> limiter \<Rightarrow> limiter" where
  "sweep_locked now l =
     (let l = l\<lparr>li_calls := li_calls l + 1\<rparr>
      in if li_calls l mod sweep_every \<noteq> 0 then l
         else
           (let horizon = now - li_window l;
                stale = {u. case li_last l u of None \<Rightarrow> False | Some t \<Rightarrow> t < horizon}
            in l\<lparr>li_attempts := (\<lambda>u. if u \<in> stale then None else li_attempts l u),
                 li_last := (\<lambda>u. if u \<in> stale then None else li_last l u)\<rparr>))"

definition is_locked_out :: "rat \<Rightarrow> string \<Rightarrow> limiter \<Rightarrow> bool \<times> limiter" where
  "is_locked_out now name l =
     (let recent = filter (\<lambda>t. now - li_window l < t) (get_default (li_attempts l) name []);
          l = (if recent \<noteq> []
               then l\<lparr>li_attempts := (li_attempts l)(name \<mapsto> recent), li_last := (li_last l)(name \<mapsto> last recent)\<rparr>
               else l\<lparr>li_attempts := (li_attempts l)(name := None), li_last := (li_last l)(name := None)\<rparr>);
          l = sweep_locked now l
      in (li_max l \<le> length recent, l))"

definition record_failure :: "rat \<Rightarrow> string \<Rightarrow> limiter \<Rightarrow> limiter" where
  "record_failure now name l =
     sweep_locked now
       (l\<lparr>li_attempts := (li_attempts l)(name \<mapsto> get_default (li_attempts l) name [] @ [now]),
          li_last := (li_last l)(name \<mapsto> now)\<rparr>)"

definition record_success :: "string \<Rightarrow> limiter \<Rightarrow> limiter" where
  "record_success name l =
     l\<lparr>li_attempts := (li_attempts l)(name := None), li_last := (li_last l)(name := None)\<rparr>"

subsection \<open>What the limiter counts\<close>

text \<open>The reference: every failure of a name since its last success, for ever.\<close>

datatype attempt = Check rat string | Failed rat string | Succeeded rat string

fun attempt_time :: "attempt \<Rightarrow> rat" where
  "attempt_time (Check t u) = t" | "attempt_time (Failed t u) = t" | "attempt_time (Succeeded t u) = t"

fun limiter_step :: "attempt \<Rightarrow> limiter \<Rightarrow> limiter" where
  "limiter_step (Check t u) l = snd (is_locked_out t u l)"
| "limiter_step (Failed t u) l = record_failure t u l"
| "limiter_step (Succeeded t u) l = record_success u l"

fun seen_step :: "attempt \<Rightarrow> (string \<Rightarrow> rat list) \<Rightarrow> string \<Rightarrow> rat list" where
  "seen_step (Check t v) seen u = seen u"
| "seen_step (Failed t v) seen u = (if v = u then seen u @ [t] else seen u)"
| "seen_step (Succeeded t v) seen u = (if v = u then [] else seen u)"

definition failures :: "attempt list \<Rightarrow> string \<Rightarrow> rat list" where
  "failures as = fold seen_step as (\<lambda>u. [])"

definition limiter_run :: "attempt list \<Rightarrow> limiter \<Rightarrow> limiter" where
  "limiter_run as l = fold limiter_step as l"

lemma sorted_last: "sorted xs \<Longrightarrow> x \<in> set xs \<Longrightarrow> x \<le> last (xs :: rat list)"
  by (induction xs) auto

text \<open>What is kept of a name agrees with the reference as far as any later check can see.\<close>

definition tracks :: "rat \<Rightarrow> limiter \<Rightarrow> (string \<Rightarrow> rat list) \<Rightarrow> bool" where
  "tracks now l seen \<longleftrightarrow>
     (\<forall>u h. now - li_window l \<le> h \<longrightarrow> filter (\<lambda>t. h < t) (get_default (li_attempts l) u []) = filter (\<lambda>t. h < t) (seen u)) \<and>
     (\<forall>u. sorted (get_default (li_attempts l) u [])) \<and>
     (\<forall>u. \<forall>t\<in>set (get_default (li_attempts l) u []). \<exists>m. li_last l u = Some m \<and> t \<le> m) \<and>
     (\<forall>u m. li_last l u = Some m \<longrightarrow> m \<le> now)"

lemma tracks_later: "tracks now l seen \<Longrightarrow> now \<le> now' \<Longrightarrow> tracks now' l seen"
  unfolding tracks_def by (metis diff_right_mono order_trans)

lemma tracks_sweep:
  assumes "tracks now l seen"
  shows "tracks now (sweep_locked now l) seen"
proof -
  define c where "c = l\<lparr>li_calls := li_calls l + 1\<rparr>"
  have c: "tracks now c seen" using assms by (simp add: tracks_def c_def)
  show ?thesis
  proof (cases "li_calls c mod sweep_every \<noteq> 0")
    case True
    with c show ?thesis by (simp add: sweep_locked_def Let_def c_def)
  next
    case False
    define stale where "stale = {u. case li_last c u of None \<Rightarrow> False | Some t \<Rightarrow> t < now - li_window c}"
    have eq: "sweep_locked now l = c\<lparr>li_attempts := (\<lambda>u. if u \<in> stale then None else li_attempts c u),
        li_last := (\<lambda>u. if u \<in> stale then None else li_last c u)\<rparr>"
      using False unfolding sweep_locked_def Let_def stale_def by (simp only: c_def [symmetric] if_False)
    have none: "filter (\<lambda>t. h < t) (get_default (li_attempts c) u []) = []" if u: "u \<in> stale" and h: "now - li_window c \<le> h" for u h
    proof -
      have "\<not> h < t" if t: "t \<in> set (get_default (li_attempts c) u [])" for t
      proof -
        obtain m where "li_last c u = Some m" "t \<le> m" using c t unfolding tracks_def by blast
        with u h show ?thesis by (simp add: stale_def)
      qed
      then show ?thesis by (simp add: filter_empty_conv)
    qed
    have g: "get_default (\<lambda>u. if u \<in> stale then None else li_attempts c u) u [] =
        (if u \<in> stale then [] else get_default (li_attempts c) u [])" for u by (simp add: get_default_def)
    have "filter (\<lambda>t. h < t) (if u \<in> stale then [] else get_default (li_attempts c) u []) = filter (\<lambda>t. h < t) (seen u)"
      if "now - li_window c \<le> h" for u h
      using none [OF _ that, of u] c that unfolding tracks_def by (cases "u \<in> stale") auto
    with c show ?thesis unfolding eq tracks_def by (auto simp: g)
  qed
qed

lemma tracks_step:
  assumes "tracks now l seen" "now \<le> attempt_time a"
  shows "tracks (attempt_time a) (limiter_step a l) (seen_step a seen)"
proof -
  have tr: "tracks (attempt_time a) l seen" by (rule tracks_later [OF assms])
  show ?thesis
  proof (cases a)
    case (Check t v)
    define recent where "recent = filter (\<lambda>s. t - li_window l < s) (get_default (li_attempts l) v [])"
    define l1 where "l1 = (if recent \<noteq> []
               then l\<lparr>li_attempts := (li_attempts l)(v \<mapsto> recent), li_last := (li_last l)(v \<mapsto> last recent)\<rparr>
               else l\<lparr>li_attempts := (li_attempts l)(v := None), li_last := (li_last l)(v := None)\<rparr>)"
    have step: "limiter_step a l = sweep_locked t l1"
      using Check by (simp add: is_locked_out_def Let_def recent_def l1_def)
    have w: "li_window l1 = li_window l" by (simp add: l1_def)
    have g: "get_default (li_attempts l1) u [] = (if u = v then recent else get_default (li_attempts l) u [])" for u
      by (simp add: l1_def get_default_def)
    have fr: "filter (\<lambda>s. h < s) recent = filter (\<lambda>s. h < s) (get_default (li_attempts l) v [])" if "t - li_window l \<le> h" for h
      using that by (auto simp: recent_def intro!: filter_cong)
    have sorted: "sorted recent"
      using tr unfolding recent_def tracks_def by (simp add: sorted_wrt_filter)
    have old: "s \<le> t" if s: "s \<in> set recent" for s
    proof -
      have "s \<in> set (get_default (li_attempts l) v [])" using s by (simp add: recent_def)
      then obtain m where "li_last l v = Some m" "s \<le> m" using tr unfolding tracks_def by blast
      with tr show ?thesis using Check unfolding tracks_def by fastforce
    qed
    have tr': "\<forall>u h. t - li_window l \<le> h \<longrightarrow> filter (\<lambda>s. h < s) (get_default (li_attempts l) u []) = filter (\<lambda>s. h < s) (seen u)"
      "\<forall>u. sorted (get_default (li_attempts l) u [])"
      "\<forall>u. \<forall>s\<in>set (get_default (li_attempts l) u []). \<exists>m. li_last l u = Some m \<and> s \<le> m"
      "\<forall>u m. li_last l u = Some m \<longrightarrow> m \<le> t"
      using tr Check unfolding tracks_def by simp_all
    have "\<exists>m. li_last l1 u = Some m \<and> s \<le> m" if "s \<in> set (if u = v then recent else get_default (li_attempts l) u [])" for u s
      using that tr'(3) sorted_last [OF sorted] by (cases "u = v"; cases "recent = []") (auto simp: l1_def)
    moreover have "m \<le> t" if "li_last l1 u = Some m" for u m
      using that tr'(4) old by (cases "u = v"; cases "recent = []") (auto simp: l1_def)
    moreover have "filter (\<lambda>s. h < s) (if u = v then recent else get_default (li_attempts l) u []) = filter (\<lambda>s. h < s) (seen u)"
      if "t - li_window l \<le> h" for u h
      using fr [OF that] tr'(1) that by simp
    moreover have "sorted (if u = v then recent else get_default (li_attempts l) u [])" for u
      using sorted tr'(2) by simp
    ultimately have "tracks t l1 seen" unfolding tracks_def w g by blast
    from tracks_sweep [OF this] show ?thesis unfolding step by (simp add: Check tracks_def)
  next
    case (Failed t v)
    define l1 where "l1 = l\<lparr>li_attempts := (li_attempts l)(v \<mapsto> get_default (li_attempts l) v [] @ [t]),
          li_last := (li_last l)(v \<mapsto> t)\<rparr>"
    have step: "limiter_step a l = sweep_locked t l1" using Failed by (simp add: record_failure_def l1_def)
    have w: "li_window l1 = li_window l" by (simp add: l1_def)
    have g: "get_default (li_attempts l1) u [] = (if u = v then get_default (li_attempts l) v [] @ [t] else get_default (li_attempts l) u [])" for u
      by (simp add: l1_def get_default_def)
    have old: "s \<le> t" if s: "s \<in> set (get_default (li_attempts l) v [])" for s
    proof -
      obtain m where "li_last l v = Some m" "s \<le> m" using tr s unfolding tracks_def by blast
      with tr show ?thesis using Failed unfolding tracks_def by fastforce
    qed
    have "tracks t l1 (\<lambda>u. if v = u then seen u @ [t] else seen u)"
      using tr Failed old unfolding tracks_def w g by (auto simp: l1_def sorted_append)
    from tracks_sweep [OF this] show ?thesis unfolding step by (simp add: Failed tracks_def)
  next
    case (Succeeded t v)
    with tr show ?thesis unfolding tracks_def
      by (auto simp: record_success_def get_default_def)
  qed
qed

lemma limiter_config:
  "li_max (limiter_step a l) = li_max l \<and> li_window (limiter_step a l) = li_window l"
  by (cases a) (simp_all add: is_locked_out_def record_failure_def record_success_def sweep_locked_def Let_def)

lemma limiter_run_tracks:
  assumes "sorted_wrt (\<lambda>a b. attempt_time a \<le> attempt_time b) as" "\<forall>a\<in>set as. now \<le> attempt_time a" "tracks now l seen"
    "\<forall>a\<in>set as. attempt_time a \<le> later" "now \<le> later"
  shows "tracks later (limiter_run as l) (fold seen_step as seen) \<and>
    li_max (limiter_run as l) = li_max l \<and> li_window (limiter_run as l) = li_window l"
  using assms
proof (induction as arbitrary: now l seen)
  case Nil
  then show ?case by (simp add: limiter_run_def tracks_later)
next
  case (Cons a as)
  have "tracks (attempt_time a) (limiter_step a l) (seen_step a seen)"
    by (rule tracks_step) (use Cons.prems in auto)
  from Cons.IH [OF _ _ this] Cons.prems limiter_config [of a l] show ?case
    by (simp add: limiter_run_def)
qed

text \<open>C18. The limiter locks a name out exactly while the failures since its last success that lie within the window
reach the limit, whatever else was checked, failed or swept meanwhile (time never running backwards).\<close>

theorem limiter_exact:
  assumes "sorted_wrt (\<lambda>a b. attempt_time a \<le> attempt_time b) as" "\<forall>a\<in>set as. 0 \<le> attempt_time a \<and> attempt_time a \<le> now"
    "0 \<le> now"
  shows "fst (is_locked_out now name (limiter_run as (new_limiter m w))) \<longleftrightarrow>
    m \<le> length (filter (\<lambda>t. now - w < t) (failures as name))"
proof -
  have "tracks 0 (new_limiter m w) (\<lambda>u. [])" by (simp add: tracks_def new_limiter_def)
  from limiter_run_tracks [OF assms(1) _ this, of now] assms(2,3)
  have t: "tracks now (limiter_run as (new_limiter m w)) (failures as)"
    and c: "li_max (limiter_run as (new_limiter m w)) = m" "li_window (limiter_run as (new_limiter m w)) = w"
    by (simp_all add: failures_def) (simp_all add: new_limiter_def)
  have "filter (\<lambda>t. now - w < t) (get_default (li_attempts (limiter_run as (new_limiter m w))) name []) =
      filter (\<lambda>t. now - w < t) (failures as name)"
    using t c unfolding tracks_def by auto
  moreover have "li_max (sweep_locked now l) = li_max l" for l by (simp add: sweep_locked_def Let_def)
  ultimately show ?thesis by (simp add: is_locked_out_def Let_def c)
qed

theorem limiter_exact_witness:
  "fst (is_locked_out 10 ''bob'' (limiter_run [Failed 1 ''bob'', Check 2 ''eve'', Failed 3 ''bob''] (new_limiter 2 300)))"
proof -
  have p: "sorted_wrt (\<lambda>a b. attempt_time a \<le> attempt_time b) [Failed 1 ''bob'', Check 2 ''eve'', Failed 3 ''bob'']"
    "\<forall>a\<in>set [Failed 1 ''bob'', Check 2 ''eve'', Failed 3 ''bob'']. 0 \<le> attempt_time a \<and> attempt_time a \<le> 10" "0 \<le> (10 :: rat)"
    by simp_all
  show ?thesis unfolding limiter_exact [OF p] by (simp add: failures_def)
qed

subsection \<open>Sessions\<close>

record session =
  se_user :: string
  se_role :: string
  se_tenant :: string
  se_expires :: rat
  se_csrf :: string

type_synonym sessions = "string \<rightharpoonup> session"

definition session_create ::
    "rat \<Rightarrow> rat \<Rightarrow> string \<Rightarrow> string \<Rightarrow> string \<Rightarrow> string \<Rightarrow> string \<Rightarrow> sessions \<Rightarrow> string \<times> sessions" where
  "session_create ttl now token csrf user role tenant ss =
     (token,
      if ttl \<le> 0 then ss
      else ss(token \<mapsto> \<lparr>se_user = user, se_role = role, se_tenant = tenant, se_expires = now + ttl, se_csrf = csrf\<rparr>))"

definition session_resolve :: "rat \<Rightarrow> string \<Rightarrow> sessions \<Rightarrow> session option \<times> sessions" where
  "session_resolve now token ss =
     (if token = [] then (None, ss)
      else case ss token of
             None \<Rightarrow> (None, ss)
           | Some s \<Rightarrow> if se_expires s < now then (None, ss(token := None)) else (Some s, ss))"

definition session_invalidate :: "string \<Rightarrow> sessions \<Rightarrow> sessions" where
  "session_invalidate token ss = ss(token := None)"

text \<open>
  The Redis rows. \<open>mac\<close> signs the row without its signature (HMAC over its JSON with sorted keys, under
  the server's secret), \<open>show_float\<close> and \<open>read_float\<close> are \<open>str\<close> and \<open>float\<close> of the expiry.
\<close>

type_synonym row = "(string, string) odict"

definition session_row ::
    "(rat \<Rightarrow> string) \<Rightarrow> (row \<Rightarrow> string) \<Rightarrow> rat \<Rightarrow> rat \<Rightarrow> string \<Rightarrow> string \<Rightarrow> string \<Rightarrow> string \<Rightarrow> row option" where
  "session_row show_float mac ttl now csrf user role tenant =
     (if ttl \<le> 0 then None
      else (let data = [(''username'', user), (''role'', role), (''tenant_id'', tenant),
                        (''expires_at'', show_float (now + ttl)), (''csrf_token'', csrf)]
            in Some (od_set data ''sig'' (mac data))))"

text \<open>Whether the row is deleted is the flag; a row without an expected field raises, as does a bad float.\<close>

definition row_resolve ::
    "(string \<Rightarrow> rat option) \<Rightarrow> (row \<Rightarrow> string) \<Rightarrow> rat \<Rightarrow> string \<Rightarrow> row \<Rightarrow> (session option \<times> bool) py" where
  "row_resolve read_float mac now token row =
     (if token = [] \<or> row = [] then Inr (None, False)
      else
        (let data = od_del row ''sig''
         in case od_get row ''sig'' of
              None \<Rightarrow> Inr (None, False)
            | Some sig \<Rightarrow>
                if sig = [] \<or> sig \<noteq> mac data then Inr (None, False)
                else (case od_get data ''expires_at'' of
                        None \<Rightarrow> Inl KeyError
                      | Some e \<Rightarrow>
                          (case read_float e of
                             None \<Rightarrow> Inl ValueError
                           | Some expires \<Rightarrow>
                               if expires < now then Inr (None, True)
                               else (case (od_get data ''username'', od_get data ''role'',
                                           od_get data ''tenant_id'', od_get data ''csrf_token'') of
                                       (Some u, Some r, Some t, Some c) \<Rightarrow>
                                         Inr (Some \<lparr>se_user = u, se_role = r, se_tenant = t,
                                                    se_expires = expires, se_csrf = c\<rparr>, False)
                                     | _ \<Rightarrow> Inl KeyError)))))"

text \<open>C34. The two session back ends agree: a session created at one time is resolved at another, from the memory
store or from its signed row, to the same answer, and that answer is the session until its time is up.\<close>

theorem session_backends_agree:
  assumes "read_float (show_float (now + ttl)) = Some (now + ttl)" "\<And>d. mac d \<noteq> []" "token \<noteq> []"
    "\<And>r. session_row show_float mac ttl now csrf user role tenant = Some r \<Longrightarrow> row = r"
    "session_row show_float mac ttl now csrf user role tenant = None \<Longrightarrow> row = []"
  shows "\<exists>deleted. row_resolve read_float mac later token row =
      Inr (fst (session_resolve later token (snd (session_create ttl now token csrf user role tenant Map.empty))), deleted) \<and>
    fst (session_resolve later token (snd (session_create ttl now token csrf user role tenant Map.empty))) =
      (if 0 < ttl \<and> later \<le> now + ttl
       then Some \<lparr>se_user = user, se_role = role, se_tenant = tenant, se_expires = now + ttl, se_csrf = csrf\<rparr> else None)"
proof (cases "0 < ttl")
  case False
  with assms(3,5) show ?thesis
    by (auto simp: session_row_def row_resolve_def session_create_def session_resolve_def)
next
  case True
  then have "row = od_set [(''username'', user), (''role'', role), (''tenant_id'', tenant),
      (''expires_at'', show_float (now + ttl)), (''csrf_token'', csrf)] ''sig''
      (mac [(''username'', user), (''role'', role), (''tenant_id'', tenant),
      (''expires_at'', show_float (now + ttl)), (''csrf_token'', csrf)])"
    using assms(4) by (simp add: session_row_def Let_def)
  with True assms(1,2,3) show ?thesis
    by (auto simp: row_resolve_def session_create_def session_resolve_def od_del_def)
qed

text \<open>A row that was not signed with the server's key never resolves, whatever its other fields say.\<close>

theorem unsigned_row_refused:
  assumes "od_get row ''sig'' \<noteq> Some (mac (od_del row ''sig''))"
  shows "row_resolve read_float mac now token row = Inr (None, False)"
  using assms by (auto simp: row_resolve_def Let_def split: option.splits)

theorem session_backends_agree_witness:
  "fst (session_resolve 5 ''tok'' (snd (session_create 10 0 ''tok'' ''c'' ''bob'' ''analyst'' ''acme'' Map.empty))) =
     Some \<lparr>se_user = ''bob'', se_role = ''analyst'', se_tenant = ''acme'', se_expires = 10, se_csrf = ''c''\<rparr>"
proof -
  let ?row = "the (session_row (\<lambda>x. ''10.0'') (\<lambda>d. ''k'') 10 0 ''c'' ''bob'' ''analyst'' ''acme'')"
  have f: "(\<lambda>s :: string. Some (10 :: rat)) ((\<lambda>x. ''10.0'') (0 + 10 :: rat)) = Some (0 + 10)" by simp
  have "\<exists>deleted. row_resolve (\<lambda>s. Some 10) (\<lambda>d. ''k'') 5 ''tok'' ?row =
      Inr (fst (session_resolve 5 ''tok'' (snd (session_create 10 0 ''tok'' ''c'' ''bob'' ''analyst'' ''acme'' Map.empty))), deleted) \<and>
    fst (session_resolve 5 ''tok'' (snd (session_create 10 0 ''tok'' ''c'' ''bob'' ''analyst'' ''acme'' Map.empty))) =
      (if 0 < (10::rat) \<and> (5::rat) \<le> 0 + 10
       then Some \<lparr>se_user = ''bob'', se_role = ''analyst'', se_tenant = ''acme'', se_expires = 0 + 10, se_csrf = ''c''\<rparr> else None)"
    by (rule session_backends_agree [where show_float = "\<lambda>x. ''10.0''"]) (simp_all add: session_row_def)
  then show ?thesis by auto
qed

theorem unsigned_row_refused_witness:
  "row_resolve (\<lambda>s. Some 10) (\<lambda>d. ''k'') 0 ''tok'' [(''username'', ''eve''), (''role'', ''admin''), (''sig'', ''x'')] = Inr (None, False)"
  by (rule unsigned_row_refused) simp

end
