(* ===== verification/Entities.thy ===== *)
theory Entities
  imports Rule_Facts
begin

text \<open>
  What the correlator and the entity resolver share: \<open>src/services/shared/entity_helpers.py\<close>,
  \<open>src/services/shared/ip_utils.py\<close> and \<open>src/services/shared/allowlist.py\<close>.

  The standard library is the record \<open>platform\<close>: the hexadecimal SHA-256 of a text, the canonical JSON
  text of a document, \<open>ipaddress.ip_address\<close> (the printed address, and the printed IPv4 address an IPv6
  one may carry), \<open>ipaddress.ip_network\<close> and membership in a network. A text has one byte a character, as
  ASCII text has.
\<close>

record platform =
  pf_host :: host
  pf_sha256 :: "string \<Rightarrow> string"
  pf_json :: "event \<Rightarrow> string"
  pf_address :: "string \<Rightarrow> (string \<times> string option) option"
  pf_network :: "string \<Rightarrow> bool"
  pf_inside :: "string \<Rightarrow> string \<Rightarrow> bool"

subsection \<open>Addresses, ports and names\<close>

definition valid_port :: "pyval \<Rightarrow> int option" where
  "valid_port v = (case v of PInt i \<Rightarrow> if 0 \<le> i \<and> i \<le> 65535 then Some i else None | _ \<Rightarrow> None)"

text \<open>The zone of an IPv6 address is cut off, and an IPv4 address mapped into IPv6 is that address.\<close>

definition valid_ip :: "platform \<Rightarrow> pyval \<Rightarrow> string option" where
  "valid_ip pf v =
     (case v of
        PStr s \<Rightarrow> (case pf_address pf (before (CHR ''%'') s) of
                    None \<Rightarrow> None
                  | Some (addr, mapped) \<Rightarrow> Some (case mapped of Some m \<Rightarrow> m | None \<Rightarrow> addr))
      | _ \<Rightarrow> None)"

definition hex_char :: "char \<Rightarrow> bool" where
  "hex_char c \<longleftrightarrow> is_digit c \<or> 97 \<le> ord c \<and> ord c \<le> 102 \<or> 65 \<le> ord c \<and> ord c \<le> 70"

definition hex_pair :: "string \<Rightarrow> bool" where
  "hex_pair s \<longleftrightarrow> length s = 2 \<and> list_all hex_char s"

definition mac_text :: "string \<Rightarrow> bool" where
  "mac_text s \<longleftrightarrow> length (split_on (CHR '':'') s) = 6 \<and> list_all hex_pair (split_on (CHR '':'') s)"

text \<open>The dollar sign of the pattern also matches before a final newline.\<close>

definition valid_mac :: "pyval \<Rightarrow> string option" where
  "valid_mac v =
     (case v of
        PStr s \<Rightarrow> if mac_text s \<or> s \<noteq> [] \<and> last s = newline \<and> mac_text (butlast s) then Some s else None
      | _ \<Rightarrow> None)"

definition safe_str :: "pyval \<Rightarrow> string option" where
  "safe_str v = (case v of PStr s \<Rightarrow> if strip s \<noteq> [] then Some s else None | _ \<Rightarrow> None)"

subsection \<open>Allowlists\<close>

record allowlist =
  al_ok :: bool
  al_exact :: "string list"
  al_nets :: "string list"

definition allowlist_of :: "platform \<Rightarrow> pyval list \<Rightarrow> bool \<Rightarrow> allowlist" where
  "allowlist_of pf entries good =
     (let texts = concat (map (\<lambda>e. case e of PStr s \<Rightarrow> [s] | _ \<Rightarrow> []) entries)
      in \<lparr>al_ok = good, al_exact = texts, al_nets = filter (pf_network pf) texts\<rparr>)"

text \<open>\<open>in\<close> between an address and a network of the other version raises and is skipped: no member.\<close>

definition allow_matches :: "platform \<Rightarrow> allowlist \<Rightarrow> pyval \<Rightarrow> bool" where
  "allow_matches pf al v =
     (if \<not> al_ok al \<or> v = PNone then False
      else let s = py_str (pf_host pf) v
           in s \<in> set (al_exact al) \<or>
              (case pf_address pf s of
                 None \<Rightarrow> False
               | Some (addr, _) \<Rightarrow> list_ex (pf_inside pf addr) (al_nets al)))"

text \<open>The file as parsed: any failure gives a list that matches nothing. \<open>cache\<close> is the module's cache,
  keyed by the path and the name.\<close>

type_synonym allow_cache = "(string \<times> string, allowlist) odict"

definition read_allowlist :: "platform \<Rightarrow> pyval option \<Rightarrow> allowlist" where
  "read_allowlist pf content =
     (case content of
        Some (PDict d) \<Rightarrow> (case dget d ''entries'' of
                             PList es \<Rightarrow> allowlist_of pf es True
                           | _ \<Rightarrow> allowlist_of pf [] False)
      | _ \<Rightarrow> allowlist_of pf [] False)"

definition load_allowlist ::
    "platform \<Rightarrow> (string \<Rightarrow> string \<Rightarrow> pyval option) \<Rightarrow> string \<Rightarrow> string \<Rightarrow> allow_cache \<Rightarrow> allowlist \<times> allow_cache" where
  "load_allowlist pf files dir name cache =
     (case od_get cache (dir, name) of
        Some al \<Rightarrow> (al, cache)
      | None \<Rightarrow> let al = read_allowlist pf (files dir name) in (al, od_set cache (dir, name) al))"

definition invalidate_dir :: "string \<Rightarrow> allow_cache \<Rightarrow> allow_cache" where
  "invalidate_dir dir cache = filter (\<lambda>e. fst (fst e) \<noteq> dir) cache"

subsection \<open>Tenants and times\<close>

definition validated_tenant :: "pyval \<Rightarrow> string py" where
  "validated_tenant v =
     (case py_or v (PStr default_tenant_name) of
        PStr t \<Rightarrow> if t \<noteq> default_tenant_name \<and> \<not> valid_tenant_id (PStr t) then Inl ValueError else Inr t
      | _ \<Rightarrow> Inl ValueError)"

definition usable_time :: "pyval \<Rightarrow> int \<Rightarrow> int option" where
  "usable_time v now_ms =
     (case v of
        PInt i \<Rightarrow> if i > now_ms + max_clock_skew_ms then None else Some i
      | PFloat x \<Rightarrow> (case int_of_float x of
                      Inl _ \<Rightarrow> None
                    | Inr i \<Rightarrow> if i > now_ms + max_clock_skew_ms then None else Some i)
      | _ \<Rightarrow> None)"

subsection \<open>Entity values and identities\<close>



text \<open>The three kinds of entity, and any other text.\<close>

definition entity_types :: "string set" where
  "entity_types = {''actor'', ''ip'', ''device''}"

definition canonical_entity_value :: "platform \<Rightarrow> string \<Rightarrow> pyval \<Rightarrow> string option \<Rightarrow> string option py" where
  "canonical_entity_value pf ty raw tenant =
     (case raw of
        PStr s \<Rightarrow>
          if ty = ''ip'' then Inr (map_option lower (valid_ip pf raw))
          else if ty = ''actor'' then
            Inr (Some (case tenant of
                         Some t \<Rightarrow> if t \<noteq> [] then canonical_account (ho_aliases (pf_host pf)) t s
                                   else fold_account s
                       | None \<Rightarrow> fold_account s))
          else if ty = ''device'' then Inr (Some (lower (strip s)))
          else Inl ValueError
      | _ \<Rightarrow> Inr None)"

definition id_sep :: char where
  "id_sep = CHR ''|''"

definition entity_preimage :: "string \<Rightarrow> string \<Rightarrow> string \<Rightarrow> string py" where
  "entity_preimage tenant ty v =
     (if id_sep \<in> set tenant \<or> id_sep \<in> set ty then Inl ValueError
      else Inr (join [id_sep] [tenant, ty, v]))"

definition compute_entity_id :: "platform \<Rightarrow> string \<Rightarrow> string \<Rightarrow> string \<Rightarrow> string py" where
  "compute_entity_id pf tenant ty v = py_bind (entity_preimage tenant ty v) (\<lambda>p. Inr (pf_sha256 pf p))"

subsection \<open>Alert identities\<close>

definition listed :: "pyval \<Rightarrow> pyval list" where
  "listed v = (case v of PList xs \<Rightarrow> xs | _ \<Rightarrow> [v])"

definition member_parts :: "platform \<Rightarrow> event \<Rightarrow> string list" where
  "member_parts pf alert =
     (let str = py_str (pf_host pf); t = dget alert ''time''; rid = dget alert ''rule_id'';
          ids = dget alert ''event_ids''
      in (if t \<noteq> PNone then [str t] else []) @
         (if rid \<noteq> PNone then [str rid] else []) @
         (if truthy ids then [join ''|'' (map str (listed ids))] else []))"

definition deterministic_member_id :: "platform \<Rightarrow> event \<Rightarrow> string" where
  "deterministic_member_id pf alert =
     (let alert_id = dget alert ''alert_id''; parts = member_parts pf alert
      in if alert_id \<noteq> PNone \<and> alert_id \<noteq> PStr [] then py_str (pf_host pf) alert_id
         else if parts \<noteq> [] then ''anon:'' @ join '':'' parts
         else ''anon:'' @ take 16 (pf_sha256 pf (pf_json pf alert)))"

subsection \<open>Facts\<close>

lemma entity_preimage_text:
  "entity_preimage tenant ty v = Inr p \<longleftrightarrow>
     id_sep \<notin> set tenant \<and> id_sep \<notin> set ty \<and> p = tenant @ id_sep # ty @ id_sep # v"
  by (auto simp: entity_preimage_def)

lemma entity_preimage_inject:
  "entity_preimage t ty v = Inr p \<Longrightarrow> entity_preimage t' ty' v' = Inr p \<Longrightarrow> t = t' \<and> ty = ty' \<and> v = v'"
  unfolding entity_preimage_text by (metis split_at_mark)

text \<open>C11. The text hashed into an entity id determines the tenant, the kind and the value, whatever the value
  contains: two entities, of two customers or of one, never share an id by the way their fields are joined.\<close>

theorem entity_id_separates:
  assumes "entity_preimage t ty v = Inr p" "entity_preimage t' ty' v' = Inr p"
  shows "t = t' \<and> ty = ty' \<and> v = v'"
  by (rule entity_preimage_inject [OF assms])

theorem entity_id_separates_witness:
  "{(t, ty, v). entity_preimage t ty v = Inr ''acme|ip|a|b''} = {(''acme'', ''ip'', ''a|b'')}"
proof -
  have p: "entity_preimage ''acme'' ''ip'' ''a|b'' = Inr ''acme|ip|a|b''" by code_simp
  have "t = ''acme'' \<and> ty = ''ip'' \<and> v = ''a|b''" if "entity_preimage t ty v = Inr ''acme|ip|a|b''" for t ty v
    by (rule entity_id_separates [OF that p])
  with p show ?thesis by blast
qed

lemma valid_tenant_no_sep:
  assumes "validated_tenant v = Inr t"
  shows "id_sep \<notin> set t" "CHR '':'' \<notin> set t" "t \<noteq> []"
proof -
  have c: "\<not> is_lower id_sep" "\<not> is_digit id_sep" "id_sep \<noteq> CHR ''-''" "id_sep \<noteq> newline" by code_simp+
  have t: "t = default_tenant_name \<or> valid_tenant_id (PStr t)"
    using assms by (auto simp: validated_tenant_def split: pyval.splits if_splits)
  have label: "id_sep \<notin> set u" if "tenant_label u" for u
    using tenant_label_chars [OF that] c by blast
  have valid: "id_sep \<notin> set t \<and> t \<noteq> []" if v: "valid_tenant_id (PStr t)"
  proof (cases "tenant_label t")
    case True
    with label show ?thesis by (auto simp: tenant_label_def)
  next
    case False
    with v have b: "t \<noteq> []" "last t = newline" "tenant_label (butlast t)" by (simp_all add: valid_tenant_id_def)
    then have "set t = insert newline (set (butlast t))"
      by (metis append_butlast_last_id list.simps(15) rotate1.simps(2) set_rotate1)
    with label [OF b(3)] c(4) b(1) show ?thesis by auto
  qed
  have "id_sep \<notin> set default_tenant_name" "CHR '':'' \<notin> set default_tenant_name" by code_simp+
  with t valid valid_tenant_no_colon show "id_sep \<notin> set t" "CHR '':'' \<notin> set t" "t \<noteq> []"
    by (auto simp: default_tenant_name_def)
qed

text \<open>An id is computed for every validated tenant and kind of entity.\<close>

lemma compute_entity_id_total:
  assumes "validated_tenant w = Inr t" "ty \<in> entity_types"
  shows "compute_entity_id pf t ty v = Inr (pf_sha256 pf (t @ id_sep # ty @ id_sep # v))"
proof -
  have "id_sep \<notin> set ty" using assms(2) by (auto simp: entity_types_def id_sep_def)
  with valid_tenant_no_sep(1) [OF assms(1)] show ?thesis
    by (simp add: compute_entity_id_def entity_preimage_def)
qed



definition a_platform :: platform where
  "a_platform = \<lparr>pf_host = a_host, pf_sha256 = (\<lambda>s. take 64 (s @ replicate 64 (CHR ''0''))),
     pf_json = (\<lambda>_. ''{}''), pf_address = (\<lambda>s. if list_all (\<lambda>c. is_digit c \<or> c = CHR ''.'') s then Some (s, None) else None),
     pf_network = (\<lambda>_. False), pf_inside = (\<lambda>_ _. False)\<rparr>"

lemma a_platform_digest [simp]: "length (pf_sha256 a_platform s) = 64"
  by (simp add: a_platform_def)


text \<open>Alerts without an id are told apart by their time, rule and events only: two alerts of one rule at one
  time, about different accounts and addresses, are one member; and the fields are joined without a mark
  of which they are.\<close>

theorem anonymous_alerts_collide:
  "deterministic_member_id pf [(''time'', PInt 5), (''rule_id'', PStr ''r''), (''src_endpoint'', PDict [(''ip'', PStr ''10.0.0.1'')])]
   = deterministic_member_id pf [(''time'', PInt 5), (''rule_id'', PStr ''r''), (''src_endpoint'', PDict [(''ip'', PStr ''10.0.0.2'')])] \<and>
   deterministic_member_id pf [(''time'', PInt 5)] = deterministic_member_id pf [(''rule_id'', PStr ''5'')]"
proof -
  have "int_str 5 = ''5''" by code_simp
  then show ?thesis
    by (simp add: deterministic_member_id_def member_parts_def dget_def get_default_def py_str_def Let_def)
qed

text \<open>A usable time is a number, not from the future beyond the tolerated skew.\<close>

lemma usable_time_spec:
  "usable_time v now = Some t \<Longrightarrow> t \<le> now + max_clock_skew_ms \<and> num v \<noteq> None \<and> \<not> is_bool v"
  by (cases v) (auto simp: usable_time_def split: sum.splits if_splits)

end
