(* ===== verification/Campaigns.thy ===== *)
theory Campaigns
  imports Entities
begin

text \<open>
  \<open>src/services/ws8-correlation/campaigns.py\<close>: incidents grouped into campaigns by the alerts they share.
  The union-find forest is the map \<open>parent\<close>; \<open>find_root\<close> halves the paths it walks, as the code does. The
  lemmas show that two incidents are in one campaign exactly when a chain of shared alerts joins them.
\<close>

subsection \<open>Reading incidents\<close>

text \<open>The non-empty texts of a list.\<close>

definition names :: "pyval list \<Rightarrow> string list" where
  "names xs = concat (map (\<lambda>x. case x of PStr s \<Rightarrow> if s = [] then [] else [s] | _ \<Rightarrow> []) xs)"

definition alert_members :: "event \<Rightarrow> string list" where
  "alert_members incident = (case dget incident ''member_alert_ids'' of PList xs \<Rightarrow> names xs | _ \<Rightarrow> [])"

definition incident_tenant :: "event \<Rightarrow> string" where
  "incident_tenant incident =
     (case dget incident ''tenant_id'' of PStr t \<Rightarrow> if strip t = [] then [] else t | _ \<Rightarrow> [])"

definition campaign_prefix :: string where
  "campaign_prefix = ''campaign:''"

text \<open>The tenant between the prefix and the last colon.\<close>

definition cid_tenant :: "string \<Rightarrow> string option" where
  "cid_tenant cid =
     (if take 9 cid \<noteq> campaign_prefix \<or> CHR '':'' \<notin> set (drop 9 cid) then None
      else Some (rbefore (CHR '':'') (drop 9 cid)))"

text \<open>\<open>_previous_index\<close>, as the list of its (tenant, incident id, campaign id) entries.\<close>

fun previous_index :: "pyval list \<Rightarrow> (string \<times> string \<times> string) list" where
  "previous_index [] = []"
| "previous_index (PDict camp # previous) =
     (case (dget camp ''campaign_id'', dget camp ''incident_ids'') of
        (PStr cid, PList iids) \<Rightarrow>
          if cid = [] then previous_index previous
          else (case cid_tenant cid of
                  None \<Rightarrow> previous_index previous
                | Some tenant \<Rightarrow>
                    if is_str (dget camp ''tenant_id'') \<and> dget camp ''tenant_id'' \<noteq> PStr tenant
                    then previous_index previous
                    else map (\<lambda>iid. (tenant, iid, cid)) (names iids) @ previous_index previous)
      | _ \<Rightarrow> previous_index previous)"
| "previous_index (_ # previous) = previous_index previous"

text \<open>The digest of an incident's canonical JSON breaks ties between two versions of one incident.\<close>

definition version_digest :: "platform \<Rightarrow> event \<Rightarrow> string" where
  "version_digest pf incident = pf_sha256 pf (pf_json pf incident)"

definition version_rank :: "platform \<Rightarrow> event \<Rightarrow> nat \<times> string" where
  "version_rank pf incident = (length (remdups (alert_members incident)), version_digest pf incident)"

definition preferred :: "platform \<Rightarrow> event \<Rightarrow> event \<Rightarrow> event" where
  "preferred pf a b = (if version_rank pf b \<le> version_rank pf a then a else b)"

subsection \<open>Grouping by tenant\<close>

text \<open>
  The groups, each with the incidents of its key and the number of versions dropped for each of them. An
  incident without a tenant is alone under a key of its own.
\<close>

type_synonym group_key = "nat \<times> string \<times> string"

type_synonym group = "(string, event \<times> nat) odict"

definition group_key :: "string \<Rightarrow> string \<Rightarrow> group_key" where
  "group_key tenant iid = (if tenant \<noteq> [] then (0, tenant, []) else (1, [], iid))"

definition add_version :: "platform \<Rightarrow> group \<Rightarrow> string \<Rightarrow> event \<Rightarrow> group" where
  "add_version pf slot iid incident =
     (case od_get slot iid of
        Some (kept, dropped) \<Rightarrow> od_set slot iid (preferred pf kept incident, Suc dropped)
      | None \<Rightarrow> od_set slot iid (incident, 0))"

fun group_incidents :: "platform \<Rightarrow> pyval list \<Rightarrow> (group_key, group) odict \<Rightarrow> (group_key, group) odict" where
  "group_incidents pf [] groups = groups"
| "group_incidents pf (PDict incident # incidents) groups =
     (case dget incident ''incident_id'' of
        PStr iid \<Rightarrow>
          if iid = [] then group_incidents pf incidents groups
          else (let key = group_key (incident_tenant incident) iid;
                    slot = get_default (od_get groups) key []
                in group_incidents pf incidents (od_set groups key (add_version pf slot iid incident)))
      | _ \<Rightarrow> group_incidents pf incidents groups)"
| "group_incidents pf (_ # incidents) groups = group_incidents pf incidents groups"

subsection \<open>Union-find\<close>

type_synonym forest = "string \<Rightarrow> string"

partial_function (option) find_root :: "forest \<Rightarrow> string \<Rightarrow> (string \<times> forest) option" where
  "find_root parent x =
     (if parent x = x then Some (x, parent)
      else let parent' = parent(x := parent (parent x)) in find_root parent' (parent' x))"

declare find_root.simps [code]

text \<open>One alert of one incident: the first incident that carried it owns it, a later one is joined to the owner.\<close>

definition join_owner ::
    "forest \<Rightarrow> (string \<rightharpoonup> string) \<Rightarrow> string \<Rightarrow> string \<Rightarrow> (forest \<times> (string \<rightharpoonup> string)) option" where
  "join_owner parent owner iid alert =
     (case owner alert of
        None \<Rightarrow> Some (parent, owner(alert \<mapsto> iid))
      | Some first \<Rightarrow>
          if first = iid then Some (parent, owner)
          else (case find_root parent first of
                  None \<Rightarrow> None
                | Some (ra, parent1) \<Rightarrow>
                    (case find_root parent1 iid of
                       None \<Rightarrow> None
                     | Some (rb, parent2) \<Rightarrow>
                         Some (if ra = rb then parent2 else parent2(max ra rb := min ra rb), owner))))"

fun join_all ::
    "(string \<times> string) list \<Rightarrow> forest \<Rightarrow> (string \<rightharpoonup> string) \<Rightarrow> (forest \<times> (string \<rightharpoonup> string)) option" where
  "join_all [] parent owner = Some (parent, owner)"
| "join_all ((iid, alert) # ps) parent owner =
     (case join_owner parent owner iid alert of
        None \<Rightarrow> None
      | Some (parent', owner') \<Rightarrow> join_all ps parent' owner')"

text \<open>The incident and alert pairs in the order of the two nested loops.\<close>

definition carried :: "group \<Rightarrow> string list \<Rightarrow> (string \<times> string) list" where
  "carried g ids =
     concat (map (\<lambda>i. case od_get g i of None \<Rightarrow> [] | Some (inc, _) \<Rightarrow> map (Pair i) (alert_members inc)) ids)"

fun components ::
    "string list \<Rightarrow> forest \<Rightarrow> (string, string list) odict \<Rightarrow> (string, string list) odict option" where
  "components [] parent comps = Some comps"
| "components (iid # ids) parent comps =
     (case find_root parent iid of
        None \<Rightarrow> None
      | Some (r, parent') \<Rightarrow>
          components ids parent' (od_set comps r (get_default (od_get comps) r [] @ [iid])))"

subsection \<open>Campaigns\<close>

record campaign =
  ca_id :: string
  ca_tenant :: string
  ca_untenanted :: bool
  ca_incidents :: "string list"
  ca_entities :: "string list"
  ca_alerts :: "string list"
  ca_tactics :: "string list"
  ca_count :: nat
  ca_merged_from :: "string list"
  ca_dropped :: nat

text \<open>The loop over \<open>incident.get("tactics") or []\<close>: a text yields its characters, a dictionary its keys, a
  number raises.\<close>

definition tactic_names :: "event \<Rightarrow> string list py" where
  "tactic_names incident =
     (let v = dget incident ''tactics''
      in if \<not> truthy v then Inr []
         else (case v of
                 PList xs \<Rightarrow> Inr (concat (map (\<lambda>x. case x of PStr s \<Rightarrow> [s] | _ \<Rightarrow> []) xs))
               | PStr s \<Rightarrow> Inr (map (\<lambda>c. [c]) s)
               | PDict d \<Rightarrow> Inr (map fst d)
               | _ \<Rightarrow> Inl TypeError))"

fun all_tactics :: "event list \<Rightarrow> string list py" where
  "all_tactics [] = Inr []"
| "all_tactics (i # is) =
     py_bind (tactic_names i) (\<lambda>ts. py_bind (all_tactics is) (\<lambda>rest. Inr (ts @ rest)))"

definition entity_label :: "platform \<Rightarrow> event \<Rightarrow> string" where
  "entity_label pf incident =
     py_str (pf_host pf) (dget incident ''entity_type'') @ '':'' @
     py_str (pf_host pf) (dget incident ''entity_value'')"

definition campaign_id :: "platform \<Rightarrow> string \<Rightarrow> string \<Rightarrow> string" where
  "campaign_id pf tenant smallest = campaign_prefix @ tenant @ '':'' @ take 16 (pf_sha256 pf smallest)"

definition campaign_of ::
    "platform \<Rightarrow> (string \<times> string \<times> string) list \<Rightarrow> group_key \<Rightarrow> group \<Rightarrow> string list \<Rightarrow> campaign py" where
  "campaign_of pf prev key g ids =
     (let ids = sort ids;
          incidents = map (\<lambda>i. fst (the (od_get g i))) ids;
          tenant = fst (snd key);
          cid = campaign_id pf tenant (hd ids)
      in py_bind (all_tactics incidents) (\<lambda>tactics.
           Inr \<lparr>ca_id = cid, ca_tenant = tenant, ca_untenanted = (fst key = 1), ca_incidents = ids,
                ca_entities = sorted_set (map (entity_label pf) incidents),
                ca_alerts = sorted_set (concat (map alert_members incidents)),
                ca_tactics = sorted_set tactics, ca_count = length ids,
                ca_merged_from = filter (\<lambda>p. p \<noteq> cid)
                  (sorted_set (map (\<lambda>e. snd (snd e)) (filter (\<lambda>e. fst e = tenant \<and> fst (snd e) \<in> set ids) prev))),
                ca_dropped = sum_list (map (\<lambda>i. snd (the (od_get g i))) ids)\<rparr>))"

fun campaigns_of ::
    "platform \<Rightarrow> (string \<times> string \<times> string) list \<Rightarrow> group_key \<Rightarrow> group \<Rightarrow> string list list \<Rightarrow> campaign list py" where
  "campaigns_of pf prev key g [] = Inr []"
| "campaigns_of pf prev key g (ids # rest) =
     py_bind (campaign_of pf prev key g ids) (\<lambda>c.
     py_bind (campaigns_of pf prev key g rest) (\<lambda>cs. Inr (c # cs)))"

text \<open>The components of one group. The walk to a root that would not end is \<open>None\<close>.\<close>

definition group_components :: "group \<Rightarrow> string list list option" where
  "group_components g =
     (let ids = sort (map fst g)
      in case join_all (carried g ids) (\<lambda>i. i) Map.empty of
           None \<Rightarrow> None
         | Some (parent, _) \<Rightarrow> map_option (map snd) (components ids parent []))"

fun link_groups ::
    "platform \<Rightarrow> (string \<times> string \<times> string) list \<Rightarrow> (group_key \<times> group) list \<Rightarrow> campaign list py option" where
  "link_groups pf prev [] = Some (Inr [])"
| "link_groups pf prev ((key, g) # groups) =
     (case group_components g of
        None \<Rightarrow> None
      | Some comps \<Rightarrow>
          (case campaigns_of pf prev key g comps of
             Inl e \<Rightarrow> Some (Inl e)
           | Inr cs \<Rightarrow> map_option (\<lambda>r. py_bind r (\<lambda>rest. Inr (cs @ rest))) (link_groups pf prev groups)))"

definition link_campaigns :: "platform \<Rightarrow> pyval list \<Rightarrow> pyval list \<Rightarrow> campaign list py option" where
  "link_campaigns pf incidents previous =
     map_option (\<lambda>r. py_bind r (\<lambda>out. Inr (sort_key (\<lambda>c. (ca_tenant c, hd (ca_incidents c))) out)))
       (link_groups pf (previous_index previous) (sort_key fst (group_incidents pf incidents [])))"

subsection \<open>Shared alerts\<close>

text \<open>The pairs seen so far, and the chains of shared alerts they make.\<close>

definition shares :: "(string \<times> string) set \<Rightarrow> (string \<times> string) set" where
  "shares P = {(i, j). \<exists>a. (i, a) \<in> P \<and> (j, a) \<in> P}"

abbreviation chained :: "(string \<times> string) set \<Rightarrow> string \<Rightarrow> string \<Rightarrow> bool" where
  "chained P i j \<equiv> (i, j) \<in> (shares P)\<^sup>*"

lemma sym_shares: "sym (shares P)"
  by (auto simp: shares_def sym_def)

lemma chained_sym: "chained P i j \<Longrightarrow> chained P j i"
  by (metis sym_shares sym_rtrancl symD)

lemma shares_mono: "P \<subseteq> Q \<Longrightarrow> shares P \<subseteq> shares Q"
  by (auto simp: shares_def)

text \<open>
  A forest over the finite set \<open>S\<close> whose parents never exceed the children, with the root \<open>\<rho> x\<close> of every
  node. Such a forest has no cycle but the loops at the roots.
\<close>

definition forest_ok :: "string set \<Rightarrow> forest \<Rightarrow> forest \<Rightarrow> bool" where
  "forest_ok S parent \<rho> \<longleftrightarrow> finite S \<and>
     (\<forall>x\<in>S. parent x \<in> S \<and> parent x \<le> x \<and> \<rho> (parent x) = \<rho> x \<and> (parent x = x \<longrightarrow> \<rho> x = x))"

lemma below_induct [consumes 2, case_names step]:
  assumes "finite S" "x \<in> (S :: string set)"
    and step: "\<And>x. x \<in> S \<Longrightarrow> (\<And>y. y \<in> S \<Longrightarrow> y < x \<Longrightarrow> P y) \<Longrightarrow> P x"
  shows "P x"
  using assms(2)
proof (induction "card {y\<in>S. y < x}" arbitrary: x rule: less_induct)
  case less
  show ?case
  proof (rule step [OF less.prems])
    fix y assume y: "y \<in> S" "y < x"
    then have "{z\<in>S. z < y} \<subset> {z\<in>S. z < x}" by (auto intro: less_trans)
    then have "card {z\<in>S. z < y} < card {z\<in>S. z < x}" using assms(1) by (intro psubset_card_mono) auto
    with less.hyps y(1) show "P y" by blast
  qed
qed

lemma forest_root:
  assumes "forest_ok S parent \<rho>" "x \<in> S"
  shows "\<rho> x \<in> S \<and> \<rho> x \<le> x \<and> parent (\<rho> x) = \<rho> x"
proof -
  have "finite S" using assms(1) by (simp add: forest_ok_def)
  then show ?thesis using assms(2)
  proof (induction x rule: below_induct)
    case (step x)
    then have x: "parent x \<in> S" "parent x \<le> x" "\<rho> (parent x) = \<rho> x" "parent x = x \<longrightarrow> \<rho> x = x"
      using assms(1) by (auto simp: forest_ok_def)
    show ?case
    proof (cases "parent x = x")
      case True
      with x step.hyps show ?thesis by simp
    next
      case False
      with x(2) have "parent x < x" by simp
      with step.IH [OF x(1)] x(3) show ?thesis by auto
    qed
  qed
qed

lemma forest_root_root: "forest_ok S parent \<rho> \<Longrightarrow> x \<in> S \<Longrightarrow> \<rho> (\<rho> x) = \<rho> x"
  using forest_root [of S parent \<rho> x] by (auto simp: forest_ok_def)

text \<open>Halving a path keeps every root.\<close>

lemma forest_halve:
  assumes "forest_ok S parent \<rho>" "x \<in> S" "parent x \<noteq> x"
  shows "forest_ok S (parent(x := parent (parent x))) \<rho>"
proof -
  have x: "parent x \<in> S" "parent x \<le> x" "\<rho> (parent x) = \<rho> x" and p: "parent (parent x) \<in> S"
    "parent (parent x) \<le> parent x" "\<rho> (parent (parent x)) = \<rho> (parent x)"
    using assms unfolding forest_ok_def by blast+
  have "parent (parent x) < x" using p(2) x(2) assms(3) by (metis order_le_less order_le_less_trans)
  with x p assms show ?thesis by (auto simp: forest_ok_def)
qed

lemma find_root_spec:
  assumes "forest_ok S parent \<rho>" "x \<in> S"
  shows "\<exists>parent'. find_root parent x = Some (\<rho> x, parent') \<and> forest_ok S parent' \<rho>"
proof -
  have "finite S" using assms(1) by (simp add: forest_ok_def)
  then show ?thesis using assms(2,1)
  proof (induction x arbitrary: parent rule: below_induct)
    case (step x)
    show ?case
    proof (cases "parent x = x")
      case True
      with step.prems step.hyps have "\<rho> x = x" by (simp add: forest_ok_def)
      with True step.prems show ?thesis by (simp add: find_root.simps)
    next
      case False
      let ?p = "parent(x := parent (parent x))"
      note ok = forest_halve [OF step.prems step.hyps False]
      have p: "?p x \<in> S" "\<rho> (?p x) = \<rho> x" "?p x \<le> x" using ok step.hyps unfolding forest_ok_def by blast+
      have "?p x \<noteq> x"
        using step.prems step.hyps False unfolding forest_ok_def by (metis fun_upd_same order_antisym)
      with p(3) have "?p x < x" by (rule order_le_neq_trans)
      from step.IH [OF p(1) this ok] p(2)
      obtain p' where "find_root ?p (?p x) = Some (\<rho> x, p')" "forest_ok S p' \<rho>" by metis
      with False show ?thesis by (subst find_root.simps) simp
    qed
  qed
qed

lemma forest_union:
  assumes ok: "forest_ok S parent \<rho>" and ab: "a \<in> S" "b \<in> S" "\<rho> a \<noteq> \<rho> b"
  defines "hi \<equiv> max (\<rho> a) (\<rho> b)" and "lo \<equiv> min (\<rho> a) (\<rho> b)"
  shows "forest_ok S (parent(hi := lo)) (\<lambda>y. if \<rho> y = hi then lo else \<rho> y)"
proof -
  have "hi = \<rho> a \<and> lo = \<rho> b \<or> hi = \<rho> b \<and> lo = \<rho> a" by (auto simp: hi_def lo_def max_def min_def)
  then have S: "hi \<in> S" "lo \<in> S" "\<rho> hi = hi" "\<rho> lo = lo" "hi \<noteq> lo"
    using ab forest_root [OF ok] forest_root_root [OF ok] by auto
  have le: "lo \<le> hi" by (auto simp: hi_def lo_def max_def min_def)
  have root: "x = hi" if "x \<in> S" "parent x = x" "\<rho> x = hi" for x
    using ok that by (auto simp: forest_ok_def)
  show ?thesis
    unfolding forest_ok_def
  proof (intro conjI ballI impI)
    show "finite S" using ok by (simp add: forest_ok_def)
    fix x assume x: "x \<in> S"
    then have p: "parent x \<in> S" "parent x \<le> x" "\<rho> (parent x) = \<rho> x" "parent x = x \<longrightarrow> \<rho> x = x"
      using ok by (auto simp: forest_ok_def)
    show "(parent(hi := lo)) x \<in> S" "(parent(hi := lo)) x \<le> x" using p S le by auto
    show "(if \<rho> ((parent(hi := lo)) x) = hi then lo else \<rho> ((parent(hi := lo)) x)) =
          (if \<rho> x = hi then lo else \<rho> x)"
      using p S by auto
    assume "(parent(hi := lo)) x = x"
    then have "x \<noteq> hi" "parent x = x" using S by (auto split: if_splits)
    with p root [OF x] show "(if \<rho> x = hi then lo else \<rho> x) = x" by auto
  qed
qed

text \<open>One more pair, whose alert \<open>o\<close> already carries.\<close>

lemma chained_insert:
  assumes "(first, a) \<in> P"
  shows "chained (insert (i, a) P) x y \<longleftrightarrow>
    chained P x y \<or> chained P x first \<and> chained P i y \<or> chained P x i \<and> chained P first y"
    (is "?L \<longleftrightarrow> ?R")
proof
  assume ?L
  then show ?R
  proof (induction rule: rtrancl_induct)
    case (step y z)
    from step.hyps(2) consider "(y, z) \<in> shares P" | "y = z" | "y = i" "(z, a) \<in> P" | "z = i" "(y, a) \<in> P"
      by (auto simp: shares_def)
    then show ?case
    proof cases
      case 1
      with step.IH show ?thesis by (meson rtrancl.rtrancl_into_rtrancl)
    next
      case 2
      with step.IH show ?thesis by simp
    next
      case 3
      then have "chained P first z" using assms by (auto simp: shares_def)
      with step.IH 3(1) show ?thesis
        by (metis chained_sym rtrancl_trans)
    next
      case 4
      then have "chained P y first" using assms by (auto simp: shares_def)
      with step.IH 4(1) show ?thesis
        by (metis chained_sym rtrancl.rtrancl_refl rtrancl_trans)
    qed
  qed simp
next
  have more: "chained (insert (i, a) P) u v" if "chained P u v" for u v
    using that rtrancl_mono [OF shares_mono [of P "insert (i, a) P"]] by blast
  have "(first, i) \<in> shares (insert (i, a) P)" "(i, first) \<in> shares (insert (i, a) P)"
    using assms by (auto simp: shares_def)
  then have "chained (insert (i, a) P) first i" "chained (insert (i, a) P) i first" by blast+
  moreover assume ?R
  ultimately show ?L using more by (meson rtrancl_trans)
qed

lemma chained_fresh:
  assumes "\<forall>j. (j, a) \<notin> P"
  shows "chained (insert (i, a) P) x y \<longleftrightarrow> chained P x y"
proof -
  have "shares (insert (i, a) P) = shares P \<union> {(i, i)}" using assms by (auto simp: shares_def)
  then have "(shares (insert (i, a) P))\<^sup>= = (shares P)\<^sup>=" by auto
  then have "(shares (insert (i, a) P))\<^sup>* = (shares P)\<^sup>*" by (metis rtrancl_reflcl)
  then show ?thesis by simp
qed

text \<open>What the loop has computed after the pairs \<open>P\<close>: the owners, and a forest whose roots tell the chains.\<close>

definition joined ::
    "string set \<Rightarrow> (string \<times> string) set \<Rightarrow> forest \<Rightarrow> (string \<rightharpoonup> string) \<Rightarrow> forest \<Rightarrow> bool" where
  "joined S P parent owner \<rho> \<longleftrightarrow> forest_ok S parent \<rho> \<and> fst ` P \<subseteq> S \<and>
     (\<forall>x\<in>S. \<forall>y\<in>S. \<rho> x = \<rho> y \<longleftrightarrow> chained P x y) \<and>
     (\<forall>a. case owner a of None \<Rightarrow> \<forall>i. (i, a) \<notin> P | Some first \<Rightarrow> (first, a) \<in> P)"

lemma join_owner_joined:
  assumes ok: "joined S P parent owner \<rho>" and i: "iid \<in> S"
  shows "\<exists>parent' owner' \<rho>'. join_owner parent owner iid alert = Some (parent', owner') \<and>
           joined S (insert (iid, alert) P) parent' owner' \<rho>'"
proof -
  have forest: "forest_ok S parent \<rho>" and P: "fst ` P \<subseteq> S"
    and roots: "\<And>x y. x \<in> S \<Longrightarrow> y \<in> S \<Longrightarrow> \<rho> x = \<rho> y \<longleftrightarrow> chained P x y"
    and own: "\<And>a. case owner a of None \<Rightarrow> \<forall>i. (i, a) \<notin> P | Some first \<Rightarrow> (first, a) \<in> P"
    using ok by (simp_all add: joined_def)
  have S: "fst ` insert (iid, alert) P \<subseteq> S" using P i by simp
  show ?thesis
  proof (cases "owner alert")
    case None
    with own [of alert] have fresh: "\<forall>j. (j, alert) \<notin> P" by simp
    have "case (owner(alert \<mapsto> iid)) a of None \<Rightarrow> \<forall>i. (i, a) \<notin> insert (iid, alert) P
          | Some f \<Rightarrow> (f, a) \<in> insert (iid, alert) P" for a
      using own [of a] by (auto split: option.splits)
    with forest S roots have "joined S (insert (iid, alert) P) parent (owner(alert \<mapsto> iid)) \<rho>"
      by (simp add: joined_def chained_fresh [OF fresh])
    with None show ?thesis by (auto simp: join_owner_def)
  next
    case (Some first)
    with own [of alert] have first: "(first, alert) \<in> P" by simp
    then have firstS: "first \<in> S" using P by force
    have own': "\<forall>a. case owner a of None \<Rightarrow> \<forall>i. (i, a) \<notin> insert (iid, alert) P
                    | Some f \<Rightarrow> (f, a) \<in> insert (iid, alert) P"
    proof
      fix a
      show "case owner a of None \<Rightarrow> \<forall>i. (i, a) \<notin> insert (iid, alert) P
            | Some f \<Rightarrow> (f, a) \<in> insert (iid, alert) P"
        using own [of a] Some by (auto split: option.splits)
    qed
    obtain parent1 where p1: "find_root parent first = Some (\<rho> first, parent1)" "forest_ok S parent1 \<rho>"
      using find_root_spec [OF forest firstS] by blast
    obtain parent2 where p2: "find_root parent1 iid = Some (\<rho> iid, parent2)" "forest_ok S parent2 \<rho>"
      using find_root_spec [OF p1(2) i] by blast
    have same: "joined S (insert (iid, alert) P) q owner \<rho>" if "forest_ok S q \<rho>" "chained P first iid" for q
      unfolding joined_def
    proof (intro conjI own' ballI)
      show "forest_ok S q \<rho>" "fst ` insert (iid, alert) P \<subseteq> S" using that S by blast+
      fix x y assume xy: "x \<in> S" "y \<in> S"
      have "chained P iid first" using that(2) by (rule chained_sym)
      then show "\<rho> x = \<rho> y \<longleftrightarrow> chained (insert (iid, alert) P) x y"
        unfolding chained_insert [OF first] roots [OF xy] using that(2) by (meson rtrancl_trans)
    qed
    show ?thesis
    proof (cases "first = iid")
      case True
      with Some same [OF forest] show ?thesis by (auto simp: join_owner_def)
    next
      case neq: False
      show ?thesis
      proof (cases "\<rho> first = \<rho> iid")
        case True
        then have "chained P first iid" using roots firstS i by blast
        from same [OF p2(2) this] True neq Some p1(1) p2(1) show ?thesis by (auto simp: join_owner_def)
      next
        case False
        let ?hi = "max (\<rho> first) (\<rho> iid)" and ?lo = "min (\<rho> first) (\<rho> iid)"
        let ?\<rho> = "\<lambda>y. if \<rho> y = ?hi then ?lo else \<rho> y"
        have "?\<rho> x = ?\<rho> y \<longleftrightarrow> chained (insert (iid, alert) P) x y" if xy: "x \<in> S" "y \<in> S" for x y
          unfolding chained_insert [OF first] roots [OF xy, symmetric]
            roots [OF xy(1) firstS, symmetric] roots [OF i xy(2), symmetric]
            roots [OF xy(1) i, symmetric] roots [OF firstS xy(2), symmetric]
          using False by (auto simp: max_def min_def)
        with forest_union [OF p2(2) firstS i False] S own'
        have "joined S (insert (iid, alert) P) (parent2(?hi := ?lo)) owner ?\<rho>"
          by (simp add: joined_def)
        with False neq Some p1(1) p2(1) show ?thesis by (auto simp: join_owner_def)
      qed
    qed
  qed
qed

lemma join_all_joined:
  assumes "joined S P parent owner \<rho>" "fst ` set ps \<subseteq> S"
  shows "\<exists>parent' owner' \<rho>'. join_all ps parent owner = Some (parent', owner') \<and>
           joined S (P \<union> set ps) parent' owner' \<rho>'"
  using assms
proof (induction ps arbitrary: P parent owner \<rho>)
  case (Cons p ps)
  obtain iid alert where p: "p = (iid, alert)" by fastforce
  from Cons.prems have iid: "iid \<in> S" by (simp add: p)
  obtain parent1 owner1 \<rho>1 where 1: "join_owner parent owner iid alert = Some (parent1, owner1)"
    "joined S (insert (iid, alert) P) parent1 owner1 \<rho>1"
    using join_owner_joined [OF Cons.prems(1) iid] by blast
  have "fst ` set ps \<subseteq> S" using Cons.prems(2) by simp
  from Cons.IH [OF 1(2) this] 1(1) show ?case by (simp add: p)
qed auto

subsection \<open>The components of one group\<close>

lemma components_spec:
  assumes "forest_ok S parent \<rho>" "set ids \<subseteq> S" "od_wf comps"
  shows "\<exists>comps'. components ids parent comps = Some comps' \<and> od_wf comps' \<and>
    fst ` set comps' = fst ` set comps \<union> \<rho> ` set ids \<and>
    (\<forall>r. get_default (od_get comps') r [] = get_default (od_get comps) r [] @ filter (\<lambda>i. \<rho> i = r) ids)"
  using assms
proof (induction ids arbitrary: parent comps)
  case (Cons iid ids)
  obtain parent' where 1: "find_root parent iid = Some (\<rho> iid, parent')" "forest_ok S parent' \<rho>"
    using find_root_spec [OF Cons.prems(1), of iid] Cons.prems(2) by auto
  let ?comps = "od_set comps (\<rho> iid) (get_default (od_get comps) (\<rho> iid) [] @ [iid])"
  have "od_wf ?comps" using Cons.prems(3) by (rule od_wf_set)
  moreover have "set ids \<subseteq> S" using Cons.prems(2) by simp
  ultimately obtain comps' where 2: "components ids parent' ?comps = Some comps'" "od_wf comps'"
    "fst ` set comps' = fst ` set ?comps \<union> \<rho> ` set ids"
    "\<forall>r. get_default (od_get comps') r [] = get_default (od_get ?comps) r [] @ filter (\<lambda>i. \<rho> i = r) ids"
    using Cons.IH [OF 1(2), of ?comps] by blast
  have "fst ` set ?comps = insert (\<rho> iid) (fst ` set comps)" using od_keys_set [of comps] by simp
  with 1(1) 2 show ?case by simp
qed simp

text \<open>The links of a group: which of its incidents carries which alert.\<close>

definition links :: "group \<Rightarrow> (string \<times> string) set" where
  "links g = set (carried g (sort (map fst g)))"

lemma links_iff:
  "od_wf g \<Longrightarrow> (i, a) \<in> links g \<longleftrightarrow> (\<exists>inc n. od_get g i = Some (inc, n) \<and> a \<in> set (alert_members inc))"
  by (force simp: links_def carried_def split: option.splits dest: map_of_SomeD)

definition chain_of :: "group \<Rightarrow> string \<Rightarrow> string list" where
  "chain_of g i = filter (chained (links g) i) (sort (map fst g))"

lemma components_value:
  assumes "od_wf comps" "(r, c) \<in> set comps"
  shows "c = get_default (od_get comps) r []"
  using assms by (simp add: get_default_def)

lemma group_components_spec:
  assumes "od_wf g"
  shows "\<exists>comps. group_components g = Some comps \<and> set comps = chain_of g ` fst ` set g \<and> distinct comps"
proof -
  let ?ids = "sort (map fst g)" and ?S = "fst ` set g"
  have S: "set ?ids = ?S" by simp
  have "joined ?S {} (\<lambda>i. i) Map.empty (\<lambda>i. i)"
    by (auto simp: joined_def forest_ok_def shares_def)
  moreover have "fst ` set (carried g ?ids) \<subseteq> ?S"
    by (force simp: carried_def split: option.splits)
  ultimately have "\<exists>parent owner \<rho>. join_all (carried g ?ids) (\<lambda>i. i) Map.empty = Some (parent, owner) \<and>
      joined ?S ({} \<union> set (carried g ?ids)) parent owner \<rho>"
    by (rule join_all_joined)
  then obtain parent owner \<rho> where 1: "join_all (carried g ?ids) (\<lambda>i. i) Map.empty = Some (parent, owner)"
    "joined ?S (links g) parent owner \<rho>"
    by (auto simp: links_def)
  have forest: "forest_ok ?S parent \<rho>" and roots: "\<And>x y. x \<in> ?S \<Longrightarrow> y \<in> ?S \<Longrightarrow> \<rho> x = \<rho> y \<longleftrightarrow> chained (links g) x y"
    using 1(2) unfolding joined_def by blast+
  obtain comps where 2: "components ?ids parent [] = Some comps" "od_wf comps"
    "fst ` set comps = \<rho> ` ?S" "\<And>r. get_default (od_get comps) r [] = filter (\<lambda>i. \<rho> i = r) ?ids"
    using components_spec [OF forest, of ?ids "[]"] S by auto
  have chain: "filter (\<lambda>i. \<rho> i = \<rho> x) ?ids = chain_of g x" if "x \<in> ?S" for x
    unfolding chain_of_def
  proof (rule filter_cong [OF refl])
    fix i assume "i \<in> set ?ids"
    with roots [OF that, of i] S show "\<rho> i = \<rho> x \<longleftrightarrow> chained (links g) x i" by (simp add: eq_commute)
  qed
  have snds: "map snd comps = map (\<lambda>r. filter (\<lambda>i. \<rho> i = r) ?ids) (map fst comps)"
    using components_value [OF 2(2)] 2(4) by (auto simp: comp_def)
  have "set (map snd comps) = (\<lambda>r. filter (\<lambda>i. \<rho> i = r) ?ids) ` \<rho> ` ?S"
    unfolding snds using 2(3) by (metis list.set_map)
  also have "\<dots> = chain_of g ` ?S" using chain by (auto simp: image_image)
  finally have set: "set (map snd comps) = chain_of g ` ?S" .
  have "inj_on (\<lambda>r. filter (\<lambda>i. \<rho> i = r) ?ids) (\<rho> ` ?S)"
  proof (rule inj_onI)
    fix r r' assume r: "r \<in> \<rho> ` ?S" "filter (\<lambda>i. \<rho> i = r) ?ids = filter (\<lambda>i. \<rho> i = r') ?ids"
    then obtain x where "x \<in> ?S" "r = \<rho> x" by blast
    then have "x \<in> set (filter (\<lambda>i. \<rho> i = r) ?ids)" using S by simp
    with r(2) have "x \<in> set (filter (\<lambda>i. \<rho> i = r') ?ids)" by simp
    with \<open>r = \<rho> x\<close> show "r = r'" by simp
  qed
  then have "distinct (map snd comps)"
    unfolding snds using 2(2,3) by (metis distinct_map list.set_map)
  with set 1(1) 2(1) show ?thesis by (simp add: group_components_def Let_def)
qed

subsection \<open>The groups of a list of incidents\<close>

definition slot_of :: "pyval \<Rightarrow> (group_key \<times> string \<times> event) option" where
  "slot_of v =
     (case v of
        PDict incident \<Rightarrow>
          (case dget incident ''incident_id'' of
             PStr iid \<Rightarrow> if iid = [] then None else Some (group_key (incident_tenant incident) iid, iid, incident)
           | _ \<Rightarrow> None)
      | _ \<Rightarrow> None)"

definition versions :: "group_key \<Rightarrow> string \<Rightarrow> pyval list \<Rightarrow> event list" where
  "versions key iid incidents =
     concat (map (\<lambda>v. case slot_of v of
                        Some (k, i, inc) \<Rightarrow> if k = key \<and> i = iid then [inc] else []
                      | None \<Rightarrow> []) incidents)"

definition slot_at :: "(group_key, group) odict \<Rightarrow> group_key \<Rightarrow> string \<Rightarrow> (event \<times> nat) option" where
  "slot_at groups key iid = (case od_get groups key of None \<Rightarrow> None | Some g \<Rightarrow> od_get g iid)"

definition groups_ok :: "(group_key, group) odict \<Rightarrow> bool" where
  "groups_ok groups \<longleftrightarrow> od_wf groups \<and> (\<forall>k g. od_get groups k = Some g \<longrightarrow> od_wf g \<and> g \<noteq> [])"

lemma groups_okD:
  assumes "groups_ok groups"
  shows "od_wf groups" "od_get groups k = Some g \<Longrightarrow> od_wf g \<and> g \<noteq> []"
  using assms unfolding groups_ok_def by blast+

lemma group_incidents_Cons:
  "group_incidents pf (v # vs) groups =
     (case slot_of v of
        None \<Rightarrow> group_incidents pf vs groups
      | Some (key, iid, inc) \<Rightarrow>
          group_incidents pf vs
            (od_set groups key (add_version pf (get_default (od_get groups) key []) iid inc)))"
  by (cases v) (auto simp: slot_of_def Let_def split: pyval.split)

lemma add_version_ok: "od_wf g \<Longrightarrow> od_wf (add_version pf g iid inc) \<and> add_version pf g iid inc \<noteq> []"
proof -
  have "od_set g iid v \<noteq> []" for v by (cases g) (auto split: if_splits)
  moreover assume "od_wf g"
  ultimately show ?thesis by (simp add: add_version_def split: option.split)
qed

lemma groups_ok_add:
  assumes "groups_ok groups"
  shows "groups_ok (od_set groups key (add_version pf (get_default (od_get groups) key []) iid inc))"
proof -
  have "od_wf (get_default (od_get groups) key [])"
    using assms unfolding groups_ok_def get_default_def by (metis option.case_eq_if option.collapse distinct.simps(1) list.simps(8))
  from add_version_ok [OF this] assms show ?thesis by (auto simp: groups_ok_def od_wf_set)
qed

lemma group_incidents_ok: "groups_ok groups \<Longrightarrow> groups_ok (group_incidents pf vs groups)"
  by (induction vs arbitrary: groups)
     (auto simp: group_incidents_Cons groups_ok_add split: option.split)

lemma slot_at_add:
  "slot_at (od_set groups key (add_version pf (get_default (od_get groups) key []) iid inc)) k i =
     (if k = key \<and> i = iid
      then Some (case slot_at groups key iid of
                   None \<Rightarrow> (inc, 0) | Some (kept, n) \<Rightarrow> (preferred pf kept inc, Suc n))
      else slot_at groups k i)"
  by (cases "od_get groups key") (auto simp: slot_at_def add_version_def split: option.split)

lemma slot_at_group:
  "slot_at (group_incidents pf vs groups) key iid =
     (let inc = versions key iid vs
      in case slot_at groups key iid of
           Some (kept, n) \<Rightarrow> Some (foldl (preferred pf) kept inc, n + length inc)
         | None \<Rightarrow> (case inc of [] \<Rightarrow> None | x # xs \<Rightarrow> Some (foldl (preferred pf) x xs, length xs)))"
proof (induction vs arbitrary: groups)
  case Nil
  show ?case by (simp add: versions_def split: option.split)
next
  case (Cons v vs)
  show ?case
  proof (cases "slot_of v")
    case None
    with Cons show ?thesis by (simp add: group_incidents_Cons versions_def)
  next
    case (Some s)
    obtain k i inc where s: "slot_of v = Some (k, i, inc)" by (metis Some prod_cases3)
    have "versions key iid (v # vs) = (if k = key \<and> i = iid then [inc] else []) @ versions key iid vs"
      by (simp add: versions_def s)
    with s Cons show ?thesis
      by (auto simp: group_incidents_Cons slot_at_add Let_def split: option.split)
  qed
qed

text \<open>The version kept is the greatest by size and digest.\<close>

lemma kept_version:
  "foldl (preferred pf) x xs \<in> set (x # xs) \<and>
   (\<forall>y\<in>set (x # xs). version_rank pf y \<le> version_rank pf (foldl (preferred pf) x xs))"
proof (induction xs rule: rev_induct)
  case (snoc y ys)
  let ?b = "foldl (preferred pf) x ys"
  have step: "foldl (preferred pf) x (ys @ [y]) = preferred pf ?b y" by simp
  show ?case
  proof (cases "version_rank pf y \<le> version_rank pf ?b")
    case True
    with snoc step show ?thesis by (auto simp: preferred_def)
  next
    case False
    then have "\<forall>z\<in>set (x # ys). version_rank pf z \<le> version_rank pf y"
      using snoc by (meson le_cases order_trans)
    moreover have "foldl (preferred pf) x (ys @ [y]) = y" using False step by (simp add: preferred_def [of pf ?b])
    ultimately show ?thesis by auto
  qed
qed simp

text \<open>Two versions that rank alike are one.\<close>

definition versions_differ :: "platform \<Rightarrow> pyval list \<Rightarrow> bool" where
  "versions_differ pf incidents \<longleftrightarrow>
     (\<forall>key iid. inj_on (version_rank pf) (set (versions key iid incidents)))"

lemma versions_perm:
  assumes "mset vs = mset ws"
  shows "mset (versions key iid vs) = mset (versions key iid ws)"
proof -
  let ?f = "\<lambda>v. case slot_of v of
                  Some (k, i, inc) \<Rightarrow> if k = key \<and> i = iid then [inc] else [] | None \<Rightarrow> []"
  have "mset (versions key iid us) = (\<Sum>v\<in>#mset us. mset (?f v))" for us
    unfolding versions_def by (simp add: mset_concat comp_def flip: sum_mset_sum_list)
  with assms show ?thesis by simp
qed

lemma slot_at_perm:
  assumes "mset vs = mset ws" "versions_differ pf vs"
  shows "slot_at (group_incidents pf vs []) key iid = slot_at (group_incidents pf ws []) key iid"
proof -
  let ?v = "versions key iid vs" and ?w = "versions key iid ws"
  have m: "mset ?v = mset ?w" by (rule versions_perm) (rule assms(1))
  show ?thesis
  proof (cases ?v)
    case Nil
    with m have "slot_at (group_incidents pf us []) key iid = None" if "us = vs \<or> us = ws" for us
      using that unfolding slot_at_group by (auto simp: slot_at_def)
    then show ?thesis by simp
  next
    case (Cons x xs)
    then obtain y ys where w: "?w = y # ys" using m by (cases ?w) auto
    let ?a = "foldl (preferred pf) x xs" and ?b = "foldl (preferred pf) y ys"
    have eq: "set (x # xs) = set (y # ys)" "length xs = length ys"
      using m Cons w by (metis set_mset_mset, metis diff_Suc_1 length_Cons size_mset)
    then have "version_rank pf ?a = version_rank pf ?b"
      using kept_version [of pf x xs] kept_version [of pf y ys] by (metis order_antisym)
    moreover have "inj_on (version_rank pf) (set (x # xs))"
      using assms(2) Cons unfolding versions_differ_def by metis
    ultimately have "?a = ?b"
      using kept_version [of pf x xs] kept_version [of pf y ys] eq(1) by (metis inj_onD)
    with Cons w eq(2) have "slot_at (group_incidents pf us []) key iid = Some (?a, length xs)" if "us = vs \<or> us = ws" for us
      using that unfolding slot_at_group by (auto simp: slot_at_def)
    then show ?thesis by simp
  qed
qed

subsection \<open>Order of the input\<close>

text \<open>Two groups that hold the same, in any order.\<close>

definition same_group :: "group \<Rightarrow> group \<Rightarrow> bool" where
  "same_group g h \<longleftrightarrow> od_wf g \<and> od_wf h \<and> od_get g = od_get h"

lemma same_group_ids:
  assumes "same_group g h"
  shows "sort (map fst g) = sort (map fst h)"
proof -
  have "fst ` set g = fst ` set h" using assms by (metis dom_map_of_conv_image_fst same_group_def)
  with assms show ?thesis
    by (intro sorted_distinct_set_unique) (simp_all add: same_group_def)
qed

lemma same_group_components:
  assumes "same_group g h"
  shows "group_components g = group_components h"
    and "campaigns_of pf prev key g css = campaigns_of pf prev key h css"
proof -
  have "od_get g = od_get h" using assms by (simp add: same_group_def)
  then have "carried g ids = carried h ids" and c: "campaign_of pf prev key g is = campaign_of pf prev key h is" for ids "is"
    by (simp_all add: carried_def campaign_of_def)
  with same_group_ids [OF assms] show "group_components g = group_components h"
    by (simp add: group_components_def)
  show "campaigns_of pf prev key g css = campaigns_of pf prev key h css"
    by (induction css) (simp_all add: c)
qed

lemma same_link_groups:
  "list_all2 (\<lambda>a b. fst a = fst b \<and> same_group (snd a) (snd b)) gs hs \<Longrightarrow>
   link_groups pf prev gs = link_groups pf prev hs"
proof (induction rule: list_all2_induct)
  case (Cons a as b bs)
  with same_group_components show ?case
    by (cases a; cases b) (auto split: option.split sum.split)
qed simp

lemma same_groups:
  assumes "groups_ok G" "groups_ok H" "\<And>key iid. slot_at G key iid = slot_at H key iid"
  shows "list_all2 (\<lambda>a b. fst a = fst b \<and> same_group (snd a) (snd b)) (sort_key fst G) (sort_key fst H)"
proof -
  have wf: "od_wf G" "od_wf H" using assms by (auto simp: groups_ok_def)
  have dom: "k \<in> dom (od_get X) \<longleftrightarrow> (\<exists>iid. slot_at X k iid \<noteq> None)" if "groups_ok X" for X k
  proof (cases "od_get X k")
    case (Some g)
    with groups_okD(2) [OF that] have "g \<noteq> []" by blast
    then obtain iid v where "od_get g iid = Some v" by (metis list.exhaust map_of_Cons_code(2) surj_pair)
    with Some have "slot_at X k iid \<noteq> None" "k \<in> dom (od_get X)" by (simp_all add: slot_at_def domIff)
    then show ?thesis by blast
  qed (simp add: slot_at_def domIff)
  have "dom (od_get G) = dom (od_get H)"
    by (rule set_eqI) (simp only: dom [OF assms(1)] dom [OF assms(2)] assms(3))
  then have keys: "map fst (sort_key fst G) = map fst (sort_key fst H)"
    using wf by (intro sort_keys_eq) (simp_all add: dom_map_of_conv_image_fst)
  have "fst a = fst b \<and> same_group (snd a) (snd b)"
    if n: "n < length (sort_key fst G)" "a = sort_key fst G ! n" "b = sort_key fst H ! n" for n a b
  proof -
    have len: "length (sort_key fst G) = length (sort_key fst H)" using keys by (metis length_map)
    have fst: "fst a = fst b" using keys n len by (metis nth_map)
    have "a \<in> set (sort_key fst G)" "b \<in> set (sort_key fst H)" using n len by (metis nth_mem)+
    then have "od_get G (fst a) = Some (snd a)" "od_get H (fst b) = Some (snd b)" using wf by simp_all
    moreover from this have "od_get (snd a) = od_get (snd b)"
      using assms(3) [of "fst a"] fst by (auto simp: slot_at_def)
    ultimately show ?thesis using groups_okD(2) [OF assms(1)] groups_okD(2) [OF assms(2)] fst
      by (metis same_group_def)
  qed
  moreover have "length (sort_key fst G) = length (sort_key fst H)" using keys by (metis length_map)
  ultimately show ?thesis by (simp add: list_all2_conv_all_nth)
qed

lemma groups_ok_Nil: "groups_ok []"
  by (simp add: groups_ok_def)

text \<open>C19. The campaigns do not depend on the order in which the incidents are handed in, as long as two versions
  of one incident that have as many alerts and the same digest are the same.\<close>

theorem order_irrelevant:
  assumes "mset incidents = mset incidents'" "versions_differ pf incidents"
  shows "link_campaigns pf incidents previous = link_campaigns pf incidents' previous"
proof -
  have "link_groups pf prev (sort_key fst (group_incidents pf incidents [])) =
        link_groups pf prev (sort_key fst (group_incidents pf incidents' []))" for prev
    using slot_at_perm [OF assms] group_incidents_ok [OF groups_ok_Nil]
    by (intro same_link_groups same_groups) auto
  then show ?thesis by (simp add: link_campaigns_def)
qed

subsection \<open>Campaigns are chains of shared alerts\<close>

lemma link_groups_total: "\<forall>(k, g)\<in>set gs. od_wf g \<Longrightarrow> \<exists>r. link_groups pf prev gs = Some r"
proof (induction gs)
  case (Cons a gs)
  obtain k g where a: "a = (k, g)" by fastforce
  with Cons obtain comps r where "group_components g = Some comps" "link_groups pf prev gs = Some r"
    using group_components_spec [of g] by auto
  with a show ?case by (auto split: sum.split)
qed simp

lemma sorted_groups:
  assumes "(k, g) \<in> set (sort_key fst (group_incidents pf incidents []))"
  shows "od_wf g" "od_get (group_incidents pf incidents []) k = Some g"
proof -
  have ok: "groups_ok (group_incidents pf incidents [])" using group_incidents_ok [OF groups_ok_Nil] .
  have "(k, g) \<in> set (group_incidents pf incidents [])" using assms by simp
  with groups_okD(1) [OF ok] show "od_get (group_incidents pf incidents []) k = Some g" by (rule map_of_is_SomeI)
  then show "od_wf g" using groups_okD(2) [OF ok] by blast
qed

text \<open>C30. Linking always ends, whatever the incidents: the walks to the roots of the forest cannot cycle.\<close>

theorem link_campaigns_total: "\<exists>r. link_campaigns pf incidents previous = Some r"
proof -
  have "\<forall>(k, g)\<in>set (sort_key fst (group_incidents pf incidents [])). od_wf g" using sorted_groups by blast
  from link_groups_total [OF this] show ?thesis unfolding link_campaigns_def by (metis option.simps(9))
qed







subsection \<open>A pivot\<close>

definition an_incident :: "string \<Rightarrow> string list \<Rightarrow> pyval" where
  "an_incident iid alerts =
     PDict [(''incident_id'', PStr iid), (''tenant_id'', PStr ''acme''),
            (''member_alert_ids'', PList (map PStr alerts)), (''entity_type'', PStr ''ip''),
            (''entity_value'', PStr iid), (''tactics'', PList [PStr ''TA0001''])]"







lemma two_versions_differ: "versions_differ pf [an_incident ''a'' xs, an_incident ''b'' ys]"
  by (auto simp: versions_differ_def versions_def slot_of_def an_incident_def dget_def get_default_def inj_on_def)

theorem order_irrelevant_witness:
  "link_campaigns a_platform [an_incident ''a'' [''x''], an_incident ''b'' [''x'']] [] =
   link_campaigns a_platform [an_incident ''b'' [''x''], an_incident ''a'' [''x'']] []"
  by (rule order_irrelevant) (simp_all add: two_versions_differ add_mset_commute)

text \<open>Any number in the place of the tactics ends the linking with an error, for all the incidents at once.\<close>

theorem numeric_tactics_raise:
  "link_campaigns pf [PDict [(''incident_id'', PStr ''a''), (''tenant_id'', PStr ''t''), (''tactics'', PInt 5)]] []
     = Some (Inl TypeError)"
  by code_simp

end
