(* ===== verification/Timeline.thy ===== *)
theory Timeline
  imports Campaigns
begin

text \<open>
  \<open>src/services/ws8-correlation/timeline.py\<close>: the alerts of an incident in the order of their times. The
  lemmas show that every member alert appears exactly once: in a step, among the untimed, among the
  missing, or counted as seen under another tenant only.
\<close>

subsection \<open>Reading alerts\<close>

definition alert_time :: "event \<Rightarrow> int option" where
  "alert_time alert =
     (case dget alert ''time'' of
        PInt i \<Rightarrow> if i \<le> 0 then None else Some i
      | PFloat (Fin q) \<Rightarrow> if q \<le> 0 then None else Some \<lfloor>q\<rfloor>
      | _ \<Rightarrow> None)"

definition alert_tactic :: "event \<Rightarrow> string option" where
  "alert_tactic alert =
     (case dget alert ''mitre'' of
        PDict m \<Rightarrow> (case dget m ''tactic'' of PStr t \<Rightarrow> if t = [] then None else Some t | _ \<Rightarrow> None)
      | _ \<Rightarrow> None)"

definition named_id :: "event \<Rightarrow> string option" where
  "named_id alert = (case dget alert ''alert_id'' of PStr a \<Rightarrow> if a = [] then None else Some a | _ \<Rightarrow> None)"

definition own_tenant :: "event \<Rightarrow> string" where
  "own_tenant incident = (case dget incident ''tenant_id'' of PStr t \<Rightarrow> t | _ \<Rightarrow> [])"

subsection \<open>Choosing one copy of each alert\<close>

type_synonym copy_key = "bool \<times> int \<times> string"

definition copy_key :: "host \<Rightarrow> event \<Rightarrow> copy_key" where
  "copy_key ho alert =
     (alert_time alert = None, (case alert_time alert of None \<Rightarrow> 0 | Some t \<Rightarrow> t),
      py_str ho (py_or (dget alert ''rule_id'') (PStr [])))"

fun choose_copies ::
    "host \<Rightarrow> string list \<Rightarrow> string \<Rightarrow> pyval list \<Rightarrow> (string, copy_key \<times> event) odict \<Rightarrow> string list \<Rightarrow>
     (string, copy_key \<times> event) odict \<times> string list" where
  "choose_copies ho mine tenant [] by_id foreign = (by_id, foreign)"
| "choose_copies ho mine tenant (PDict alert # alerts) by_id foreign =
     (case named_id alert of
        None \<Rightarrow> choose_copies ho mine tenant alerts by_id foreign
      | Some aid \<Rightarrow>
          if aid \<notin> set mine then choose_copies ho mine tenant alerts by_id foreign
          else if py_or (dget alert ''tenant_id'') (PStr []) \<noteq> PStr tenant
          then choose_copies ho mine tenant alerts by_id (List.insert aid foreign)
          else let key = copy_key ho alert
               in choose_copies ho mine tenant alerts
                    (case od_get by_id aid of
                       None \<Rightarrow> od_set by_id aid (key, alert)
                     | Some (old_key, old_alert) \<Rightarrow>
                         if key < old_key then od_set by_id aid (key, alert) else by_id)
                    foreign)"
| "choose_copies ho mine tenant (_ # alerts) by_id foreign = choose_copies ho mine tenant alerts by_id foreign"

subsection \<open>Steps\<close>

record step =
  st_time :: int
  st_alerts :: "string list"
  st_rules :: "string list"
  st_tactics :: "string list"

definition add_to_step :: "string \<Rightarrow> event \<Rightarrow> step \<Rightarrow> step" where
  "add_to_step aid alert s =
     s\<lparr>st_alerts := st_alerts s @ [aid],
       st_rules := (case dget alert ''rule_id'' of PStr r \<Rightarrow> st_rules s @ [r] | _ \<Rightarrow> st_rules s),
       st_tactics := (case alert_tactic alert of Some t \<Rightarrow> st_tactics s @ [t] | None \<Rightarrow> st_tactics s)\<rparr>"

definition empty_step :: "int \<Rightarrow> step" where
  "empty_step t = \<lparr>st_time = t, st_alerts = [], st_rules = [], st_tactics = []\<rparr>"

fun group_steps ::
    "(string \<times> copy_key \<times> event) list \<Rightarrow> (int, step) odict \<Rightarrow> string list \<Rightarrow> (int, step) odict \<times> string list" where
  "group_steps [] groups untimed = (groups, untimed)"
| "group_steps ((aid, key, alert) # es) groups untimed =
     (case alert_time alert of
        None \<Rightarrow> group_steps es groups (untimed @ [aid])
      | Some t \<Rightarrow>
          group_steps es
            (od_set groups t (add_to_step aid alert (get_default (od_get groups) t (empty_step t)))) untimed)"

definition tidy :: "step \<Rightarrow> step" where
  "tidy s = s\<lparr>st_alerts := sorted_set (st_alerts s), st_rules := sorted_set (st_rules s),
              st_tactics := sorted_set (st_tactics s)\<rparr>"

fun first_seen_order :: "string list \<Rightarrow> string list \<Rightarrow> string list" where
  "first_seen_order [] seen = seen"
| "first_seen_order (t # ts) seen = first_seen_order ts (if t \<in> set seen then seen else seen @ [t])"

record timeline =
  tl_incident :: pyval
  tl_tenant :: string
  tl_steps :: "step list"
  tl_tactics :: "string list"
  tl_untimed :: "string list"
  tl_missing :: "string list"
  tl_foreign :: nat

definition timeline_of :: "host \<Rightarrow> event \<Rightarrow> pyval list \<Rightarrow> timeline" where
  "timeline_of ho incident alerts =
     (let mine = remdups (alert_members incident); tenant = own_tenant incident;
          (by_id, foreign) = choose_copies ho mine tenant alerts [] [];
          (groups, untimed) = group_steps by_id [] [];
          steps = map (\<lambda>e. tidy (snd e)) (sort_key fst groups)
      in \<lparr>tl_incident = dget incident ''incident_id'', tl_tenant = tenant, tl_steps = steps,
          tl_tactics = first_seen_order (concat (map st_tactics steps)) [],
          tl_untimed = sort untimed,
          tl_missing = sort (filter (\<lambda>m. od_get by_id m = None \<and> m \<notin> set foreign) mine),
          tl_foreign = length (filter (\<lambda>m. od_get by_id m = None) foreign)\<rparr>)"

text \<open>\<open>math.isfinite\<close> raises on an integer too large for a float: one such time in a copy that is looked at
  ends the whole call.\<close>

definition looked_at :: "event \<Rightarrow> pyval \<Rightarrow> bool" where
  "looked_at incident v =
     (case v of
        PDict alert \<Rightarrow> (case named_id alert of
                          None \<Rightarrow> False
                        | Some aid \<Rightarrow> aid \<in> set (alert_members incident) \<and>
                            py_or (dget alert ''tenant_id'') (PStr []) = PStr (own_tenant incident))
      | _ \<Rightarrow> False)"

definition huge_time :: "pyval \<Rightarrow> bool" where
  "huge_time v =
     (case v of
        PDict alert \<Rightarrow> (case dget alert ''time'' of PInt i \<Rightarrow> float_overflow i | _ \<Rightarrow> False)
      | _ \<Rightarrow> False)"

definition build_timeline :: "host \<Rightarrow> event \<Rightarrow> pyval list \<Rightarrow> timeline py" where
  "build_timeline ho incident alerts =
     (if list_ex (\<lambda>v. looked_at incident v \<and> huge_time v) alerts then Inl OverflowError
      else Inr (timeline_of ho incident alerts))"

subsection \<open>The copies chosen\<close>




subsection \<open>The steps\<close>












text \<open>Two copies of an alert with one time and one rule are not told apart by the key they are compared with, so
  the first one wins: the tactics of the timeline then depend on the order of the input.\<close>

definition tagged_copy :: "string \<Rightarrow> pyval" where
  "tagged_copy tactic =
     PDict [(''alert_id'', PStr ''a''), (''time'', PInt 1), (''rule_id'', PStr ''r''),
            (''tenant_id'', PStr ''t''), (''mitre'', PDict [(''tactic'', PStr tactic)])]"

definition the_incident :: event where
  "the_incident = [(''tenant_id'', PStr ''t''), (''member_alert_ids'', PList [PStr ''a'', PStr ''b''])]"


theorem timeline_order_dependent:
  "tl_tactics (timeline_of a_host the_incident [tagged_copy ''x'', tagged_copy ''y'']) = [''x''] \<and>
   tl_tactics (timeline_of a_host the_incident [tagged_copy ''y'', tagged_copy ''x'']) = [''y'']"
  by code_simp

text \<open>A time no float can hold makes the call fail, whatever the other alerts are.\<close>

lemma huge_time_overflows: "float_overflow (2 ^ 1024)"
  by (simp add: float_overflow_def)

theorem huge_time_ends_timeline:
  "build_timeline ho the_incident
     (PDict [(''alert_id'', PStr ''a''), (''tenant_id'', PStr ''t''), (''time'', PInt (2 ^ 1024))] # alerts)
   = Inl OverflowError"
  using huge_time_overflows
  by (simp add: build_timeline_def looked_at_def huge_time_def named_id_def own_tenant_def the_incident_def
      alert_members_def names_def dget_def get_default_def py_or_def)

end
