(* ===== verification/Spec2Isabelle.thy ===== *)
theory Spec2Isabelle
  imports Window Bus Fairness Runner PyVal Condition Identity Operators Rule_Load Rules Bucketing Rule_Facts
    Scoring Tenants Detector Detector_Facts Router Store Indexer Bulk Mfa Users Access Entities Campaigns Timeline
begin

text \<open>
  Fengarde is a security event pipeline written in Python: independent workers joined by a message bus.
  Collectors put raw events on the bus, a normalizer turns them into OCSF documents, the detector
  (\<open>src/services/ws4-detection\<close>) evaluates rules on them and raises alerts, the correlator groups alerts
  into incidents, and the indexer (\<open>src/services/ws3-indexer\<close>) files every document in a store that the
  triage API reads and updates. \<open>src/services/shared\<close> holds what the workers have in common.

  Parts, theories and sources, in the order of the imports (paths under \<open>src/services\<close>):

  \<^item> \<open>Prelude\<close>: Python dictionaries with insertion order (\<open>od_get\<close>, \<open>od_set\<close>, \<open>od_del\<close>), the priority
    queue, time-ordered lists. \<open>PyVal\<close>: the values an event carries (\<open>pyval\<close>), truth, equality, paths,
    text, and exceptions as a sum (\<open>'a py\<close>).
  \<^item> \<open>Window\<close>: \<open>shared/window.py\<close>, \<open>DequeWindowCounter\<close>. The record \<open>deque_counter\<close> has one field per
    attribute; \<open>hit\<close>, \<open>hit_distinct\<close> and the sweep are the methods. The lemmas show the counter refines a
    sorted set with eviction (what the Redis counter implements), key by key.
  \<^item> \<open>Bus\<close>: \<open>shared/bus.py\<close>, the in-memory bus and the trim boundary of the Redis bus. The lemmas show
    what a consumer group is still owed and that no operation loses it before it is acknowledged.
  \<^item> \<open>Fairness\<close>: \<open>shared/fairness.py\<close>, the round robin over tenants. \<open>Runner\<close>: \<open>shared/runner.py\<close>, the
    worker loop with its redelivery cap and dead-letter topic; its interface to a bus is a locale,
    interpreted on the in-memory bus.
  \<^item> \<open>Identity\<close>: tenant ids (\<open>shared/envelope.py\<close>) and account aliases (\<open>shared/identity_aliases.py\<close>).
  \<^item> \<open>Condition\<close>, \<open>Operators\<close>, \<open>Rule_Load\<close>, \<open>Rules\<close>: \<open>ws4-detection/engine.py\<close>: the tokenizer and the
    recursive-descent condition evaluator, the value predicates, the load guard and the evaluation of a
    rule, stateless and stateful. \<open>Bucketing\<close> and \<open>Rule_Facts\<close> hold the lemmas: the evaluator computes
    the documented grammar, a counting rule fires exactly at its threshold, keys of different tenants
    never meet, evaluation fails closed.
  \<^item> \<open>Scoring\<close>, \<open>Tenants\<close>, \<open>Detector\<close>, \<open>Detector_Facts\<close>: \<open>scoring.py\<close>, \<open>tenants.py\<close> and \<open>main.py\<close> of
    \<open>ws4-detection\<close>: scores and cooldowns, the per-tenant rule lists behind their cache, the class index,
    companion suppression, emission and hot reload.
  \<^item> \<open>Router\<close>: \<open>ws3-indexer/router.py\<close>, with the calendar behind the day suffix. \<open>Store\<close>:
    \<open>ws3-indexer/storage/memory.py\<close>; the optimistic-concurrency contract is the locale \<open>versioned_store\<close>,
    interpreted on it. \<open>Indexer\<close>: the write path of \<open>ws3-indexer/main.py\<close>, where other writers may act
    between any read and write; the alert write is shown to be one atomic update. \<open>Bulk\<close>: its batched
    write path against a search server given by its answers.
  \<^item> \<open>Mfa\<close>: \<open>shared/mfa.py\<close>, time-based one-time passwords with their base32 and truncation. \<open>Users\<close>:
    \<open>shared/users.py\<close>, the user table as a list of rows: passwords, replay-protected one-time codes, the
    last-administrator guard. \<open>Access\<close>: \<open>shared/rbac.py\<close> and \<open>shared/sessions.py\<close>, roles, the login rate
    limiter and signed sessions. The lemmas show that an accepted code counter never goes back, that an
    administrator is always left, and who may open a session.
  \<^item> \<open>Entities\<close>: \<open>shared/entity_helpers.py\<close>, \<open>shared/ip_utils.py\<close> and \<open>shared/allowlist.py\<close>, the identities of
    entities and alerts. \<open>Campaigns\<close>: \<open>ws8-correlation/campaigns.py\<close>, incidents joined by the alerts they share;
    the union-find loop is shown to compute the chains of shared alerts within a tenant. \<open>Timeline\<close>:
    \<open>ws8-correlation/timeline.py\<close>, an incident's alerts in order of time, each shown once.

  Bounds and fuel. The condition evaluator runs within a number of stack frames; \<open>parse_or_exact\<close> gives
  the number that is enough for a token list (four per token). The sweep of the window counter and the
  flush loop of the indexer terminate by a measure. The alert write makes at most five attempts, as the
  code does.

  What is not modelled: rounding of floating-point arithmetic (floats are exact rationals or the IEEE
  specials), Unicode case folding beyond ASCII, log lines, metrics of the log, pauses, threads as such
  (interleaving is explicit where it matters: the bus operations, the store steps, the points between a
  read and a write), network and file input, process start-up. The Redis and OpenSearch clients are
  modelled only in the parts that do not talk to a server. The parsers of the normalizer, the AI and
  inventory services, the dashboard, the collectors' listeners, the evaluation harness (\<open>src/eval\<close>) and
  the repository tools (\<open>src/tools\<close>) are not modelled.
\<close>

end
